(* ===== verification/Prelude.thy ===== *)
theory Prelude
  imports Main "HOL-Library.Word"
begin

text \<open>
  Shared vocabulary of the development: the machine integer types of the C sources, the
  status codes of the Event Machine API (\<^verbatim>\<open>em_status_t\<close>), the way reported errors are
  represented, and the generic facts on words, list updates and bounded index scans that the
  component theories share.
\<close>

section \<open>Machine integers and pointers\<close>

type_synonym u8 = "8 word"
type_synonym u16 = "16 word"
type_synonym u32 = "32 word"
type_synonym u64 = "64 word"

type_synonym ptr = nat
type_synonym hdl = nat

section \<open>Collections of facts\<close>

named_theorems heap_simps \<open>reading a pointer heap after an update\<close>
named_theorems status_simps \<open>numeric values of the status codes\<close>
named_theorems handle_simps \<open>index to handle conversions\<close>

section \<open>Status codes\<close>

type_synonym em_status_t = u32
type_synonym em_escope_t = string

definition EM_OK :: em_status_t where "EM_OK = 0"
definition EM_ERROR :: em_status_t where "EM_ERROR = 0xffffffff"
definition EM_ERR_BAD_ARG :: em_status_t where "EM_ERR_BAD_ARG = 0x1"
definition EM_ERR_BAD_STATE :: em_status_t where "EM_ERR_BAD_STATE = 0x2"
definition EM_ERR_BAD_ID :: em_status_t where "EM_ERR_BAD_ID = 0x3"
definition EM_ERR_BAD_TYPE :: em_status_t where "EM_ERR_BAD_TYPE = 0x4"
definition EM_ERR_BAD_CONTEXT :: em_status_t where "EM_ERR_BAD_CONTEXT = 0x5"
definition EM_ERR_BAD_POINTER :: em_status_t where "EM_ERR_BAD_POINTER = 0x6"
definition EM_ERR_NOT_CREATED :: em_status_t where "EM_ERR_NOT_CREATED = 0x7"
definition EM_ERR_NOT_FREE :: em_status_t where "EM_ERR_NOT_FREE = 0x8"
definition EM_ERR_NOT_FOUND :: em_status_t where "EM_ERR_NOT_FOUND = 0x9"
definition EM_ERR_NOT_INITIALIZED :: em_status_t where "EM_ERR_NOT_INITIALIZED = 0xa"
definition EM_ERR_NOT_SUPPORTED :: em_status_t where "EM_ERR_NOT_SUPPORTED = 0xc"
definition EM_ERR_ALLOC_FAILED :: em_status_t where "EM_ERR_ALLOC_FAILED = 0xd"
definition EM_ERR_OPERATION_FAILED :: em_status_t where "EM_ERR_OPERATION_FAILED = 0xe"
definition EM_ERR_LIB_FAILED :: em_status_t where "EM_ERR_LIB_FAILED = 0xf"
definition EM_ERR_TOO_LARGE :: em_status_t where "EM_ERR_TOO_LARGE = 0x10"
definition EM_ERR_TOO_SMALL :: em_status_t where "EM_ERR_TOO_SMALL = 0x11"
definition EM_ERR_EVENT_STATE :: em_status_t where "EM_ERR_EVENT_STATE = 0x12"

lemmas status_defs [status_simps] =
  EM_OK_def EM_ERROR_def EM_ERR_BAD_ARG_def EM_ERR_BAD_STATE_def EM_ERR_BAD_ID_def
  EM_ERR_BAD_TYPE_def EM_ERR_BAD_CONTEXT_def EM_ERR_BAD_POINTER_def EM_ERR_NOT_CREATED_def
  EM_ERR_NOT_FREE_def EM_ERR_NOT_FOUND_def EM_ERR_NOT_INITIALIZED_def EM_ERR_NOT_SUPPORTED_def EM_ERR_ALLOC_FAILED_def
  EM_ERR_OPERATION_FAILED_def EM_ERR_LIB_FAILED_def EM_ERR_TOO_LARGE_def EM_ERR_TOO_SMALL_def
  EM_ERR_EVENT_STATE_def

text \<open>
  A reported error: the status and the error scope that a function hands to the error handler
  (\<^verbatim>\<open>INTERNAL_ERROR\<close>), whose return value, by default the same status, the function returns. A
  function that returns an error status without reporting it yields that status on the right.
\<close>

type_synonym 'a reported = "(em_status_t \<times> em_escope_t) + 'a"

fun status_of :: "em_status_t reported \<Rightarrow> em_status_t" where
  "status_of (Inl (st, escope)) = st"
| "status_of (Inr st) = st"

text \<open>
  Two markers for undefined behaviour that a low check level leaves reachable: dereferencing a NULL
  element and writing past a fixed-size table. No handler sees them; the model stops there.
\<close>

definition null_deref :: "em_status_t \<times> em_escope_t" where
  "null_deref = (EM_ERROR, ''undefined: NULL dereference'')"

definition table_overrun :: "em_status_t \<times> em_escope_t" where
  "table_overrun = (EM_ERROR, ''undefined: table overrun'')"

section \<open>Words\<close>

lemma unat_lt_len: "unat (x :: 'a::len word) < 2 ^ LENGTH('a)"
  by (rule unsigned_less)

lemma unat_add_no_wrap:
  fixes a b :: "'a::len word"
  assumes "unat a + unat b < 2 ^ LENGTH('a)"
  shows "unat (a + b) = unat a + unat b"
  using assms by (simp add: unat_word_ariths)

lemma unat_of_nat_small:
  assumes "n < 2 ^ LENGTH('a::len)"
  shows "unat (word_of_nat n :: 'a word) = n"
  using assms by (simp add: unat_of_nat take_bit_nat_eq_self)

lemma unat_drop_bit_div: "unat (drop_bit n (w :: 'a::len word)) = unat w div 2 ^ n"
  by (simp only: unat_drop_bit_eq drop_bit_eq_div [of n "unat w"])

lemma ucast_of_nat: "ucast w = word_of_nat (unat w)"
  by (simp only: of_nat_unat)

lemma unat_ucast_up:
  fixes w :: "'a::len word"
  assumes "LENGTH('a) \<le> LENGTH('b::len)"
  shows "unat (ucast w :: 'b word) = unat w"
proof -
  have "unat w < 2 ^ LENGTH('b)"
    using unat_lt_len [of w] power_increasing [OF assms, of "2::nat"] by linarith
  then show ?thesis by (simp only: ucast_of_nat) (rule unat_of_nat_small)
qed

lemma unat_word_of_int_small:
  assumes "0 \<le> n" "n < 2 ^ LENGTH('a)"
  shows "unat (word_of_int n :: 'a::len word) = nat n"
proof -
  have "(word_of_int n :: 'a word) = word_of_nat (nat n)"
    using assms(1) by (metis int_nat_eq of_int_of_nat_eq)
  moreover have "nat n < 2 ^ LENGTH('a)" using assms by (simp add: nat_less_iff)
  ultimately show ?thesis by (simp only: unat_of_nat_small)
qed

lemma scast_of_nat_small:
  assumes "n < 2 ^ 31"
  shows "(scast (word_of_nat n :: u32) :: u64) = word_of_nat n"
proof -
  have "signed_take_bit 31 (int n) = int n" using assms by (simp add: signed_take_bit_int_eq_self)
  then have "(signed (word_of_int (int n) :: u32) :: u64) = word_of_int (int n)"
    by (simp only: signed_of_int) simp
  then show ?thesis by simp
qed

lemma unat_zero_iff: "unat w = 0 \<longleftrightarrow> w = 0"
  by (rule unsigned_eq_0_iff)

lemma mod_mod_dvd_pow:
  fixes a b :: nat
  assumes "n dvd 2 ^ k"
  shows "(a mod 2 ^ k) mod n = a mod n"
  using assms by (simp add: mod_mod_cancel)

section \<open>Lists\<close>

lemma distinct_map_nth:
  assumes "distinct xs" "i < length xs" "j < length xs" "xs ! i = xs ! j"
  shows "i = j"
  using assms by (simp add: nth_eq_iff_index_eq)

lemma set_list_update_subset: "set (xs[i := x]) \<subseteq> insert x (set xs)"
  by (rule set_update_subset_insert)

lemma all_nth_update:
  assumes "\<forall>j<length xs. P j (xs ! j)" "P i x"
  shows "\<forall>j<length (xs[i := x]). P j (xs[i := x] ! j)"
  using assms by (cases "i < length xs") (auto simp: nth_list_update list_update_beyond)

section \<open>Scans for the first index\<close>

text \<open>
  The loop \<^verbatim>\<open>for (i = from; i < to; i++) if (P(i)) return i;\<close> of the table searches.
\<close>

fun first_idx :: "(nat \<Rightarrow> bool) \<Rightarrow> nat \<Rightarrow> nat \<Rightarrow> nat option" where
  "first_idx P i 0 = None"
| "first_idx P i (Suc k) = (if P i then Some i else first_idx P (Suc i) k)"

lemma first_idx_Some_iff:
  "first_idx P i k = Some j \<longleftrightarrow>
     i \<le> j \<and> j < i + k \<and> P j \<and> (\<forall>m. i \<le> m \<and> m < j \<longrightarrow> \<not> P m)"
proof (induction P i k rule: first_idx.induct)
  case (1 P i)
  show ?case by simp
next
  case (2 P i k)
  show ?case
  proof (cases "P i")
    case True
    have "j = i" if "i \<le> j" "\<forall>m. i \<le> m \<and> m < j \<longrightarrow> \<not> P m"
      using that True by (metis le_neq_implies_less le_refl)
    with True show ?thesis by auto
  next
    case False
    have *: "(i \<le> j \<and> P j) = (Suc i \<le> j \<and> P j)"
      using False by (metis Suc_leD le_neq_implies_less Suc_leI)
    have **: "(\<forall>m. i \<le> m \<and> m < j \<longrightarrow> \<not> P m) = (\<forall>m. Suc i \<le> m \<and> m < j \<longrightarrow> \<not> P m)"
      using False by (metis Suc_leD le_neq_implies_less Suc_leI)
    show ?thesis using False 2 * ** by auto
  qed
qed

lemma first_idx_None_iff:
  "first_idx P i k = None \<longleftrightarrow> (\<forall>m. i \<le> m \<and> m < i + k \<longrightarrow> \<not> P m)"
proof (induction P i k rule: first_idx.induct)
  case (1 P i)
  show ?case by auto
next
  case (2 P i k)
  have "(\<forall>m. i \<le> m \<and> m < i + Suc k \<longrightarrow> \<not> P m) =
        (\<not> P i \<and> (\<forall>m. Suc i \<le> m \<and> m < Suc i + k \<longrightarrow> \<not> P m))"
    by (metis Suc_leD Suc_leI add_Suc_shift le_add1 le_neq_implies_less less_add_Suc1 nle_le)
  with 2 show ?case by auto
qed

lemma first_idx_SomeD:
  "first_idx P i k = Some j \<Longrightarrow> i \<le> j \<and> j < i + k \<and> P j"
  by (simp add: first_idx_Some_iff)

end
