(* ===== verification/EvState.thy ===== *)
theory EvState
  imports Prelude
begin

text \<open>
  Event State Verification (\<^verbatim>\<open>src/src/em_event_state.c\<close>, \<^verbatim>\<open>em_event_state.h\<close>,
  \<^verbatim>\<open>em_event_types.h\<close>). The 64-bit event handle \<^verbatim>\<open>evhdl_t\<close> carries a generation in its high 16 bits;
  the event header carries the 64-bit counter word \<^verbatim>\<open>evstate_cnt_t\<close> (generation, reference count and
  send count) that every ownership transition updates with one atomic addition or subtraction.
  A detected misuse is the fatal error \<^verbatim>\<open>EM_FATAL(EM_ERR_EVENT_STATE)\<close>, here the left value of a
  sum. The last sections relate the counter arithmetic to an ownership automaton.
\<close>

unbundle bit_operations_syntax

section \<open>Operations and their report locations\<close>

datatype (plugins only: ) esv_apiop =
    EVSTATE__UNDEF
  | EVSTATE__PREALLOC
  | EVSTATE__ALLOC
  | EVSTATE__ALLOC_MULTI
  | EVSTATE__EVENT_CLONE
  | EVSTATE__EVENT_REF
  | EVSTATE__FREE
  | EVSTATE__FREE_MULTI
  | EVSTATE__EVENT_VECTOR_FREE
  | EVSTATE__INIT
  | EVSTATE__INIT_MULTI
  | EVSTATE__INIT_EXTEV
  | EVSTATE__INIT_EXTEV_MULTI
  | EVSTATE__UPDATE_EXTEV
  | EVSTATE__SEND
  | EVSTATE__SEND__FAIL
  | EVSTATE__SEND_EGRP
  | EVSTATE__SEND_EGRP__FAIL
  | EVSTATE__SEND_MULTI
  | EVSTATE__SEND_MULTI__FAIL
  | EVSTATE__SEND_EGRP_MULTI
  | EVSTATE__SEND_EGRP_MULTI__FAIL
  | EVSTATE__EO_START_SEND_BUFFERED
  | EVSTATE__MARK_SEND
  | EVSTATE__UNMARK_SEND
  | EVSTATE__MARK_FREE
  | EVSTATE__UNMARK_FREE
  | EVSTATE__MARK_FREE_MULTI
  | EVSTATE__UNMARK_FREE_MULTI
  | EVSTATE__DISPATCH
  | EVSTATE__DISPATCH_MULTI
  | EVSTATE__DISPATCH_AGGR
  | EVSTATE__DISPATCH_SCHED__FAIL
  | EVSTATE__DISPATCH_LOCAL__FAIL
  | EVSTATE__DEQUEUE
  | EVSTATE__DEQUEUE_MULTI
  | EVSTATE__TMO_SET_ABS
  | EVSTATE__TMO_SET_ABS__FAIL
  | EVSTATE__TMO_SET_REL
  | EVSTATE__TMO_SET_REL__FAIL
  | EVSTATE__TMO_SET_PERIODIC
  | EVSTATE__TMO_SET_PERIODIC__FAIL
  | EVSTATE__TMO_CANCEL
  | EVSTATE__TMO_ACK
  | EVSTATE__TMO_ACK__NOSKIP
  | EVSTATE__TMO_ACK__FAIL
  | EVSTATE__TMO_CREATE
  | EVSTATE__TMO_DELETE
  | EVSTATE__AG_DELETE
  | EVSTATE__TERM_CORE__QUEUE_LOCAL
  | EVSTATE__TERM
  | EVSTATE__LAST

record evstate_info =
  ei_str :: string
  ei_escope :: em_escope_t

primrec evstate_info_tbl :: "esv_apiop \<Rightarrow> evstate_info" where
  "evstate_info_tbl EVSTATE__UNDEF = \<lparr>ei_str = ''undefined'', ei_escope = ''EM_ESCOPE_INTERNAL_MASK''\<rparr>"
| "evstate_info_tbl EVSTATE__PREALLOC = \<lparr>ei_str = ''pool-create(prealloc-events)'', ei_escope = ''EM_ESCOPE_POOL_CREATE''\<rparr>"
| "evstate_info_tbl EVSTATE__ALLOC = \<lparr>ei_str = ''em_alloc()'', ei_escope = ''EM_ESCOPE_ALLOC''\<rparr>"
| "evstate_info_tbl EVSTATE__ALLOC_MULTI = \<lparr>ei_str = ''em_alloc_multi()'', ei_escope = ''EM_ESCOPE_ALLOC_MULTI''\<rparr>"
| "evstate_info_tbl EVSTATE__EVENT_CLONE = \<lparr>ei_str = ''em_event_clone()'', ei_escope = ''EM_ESCOPE_EVENT_CLONE''\<rparr>"
| "evstate_info_tbl EVSTATE__EVENT_REF = \<lparr>ei_str = ''em_event_ref()'', ei_escope = ''EM_ESCOPE_EVENT_REF''\<rparr>"
| "evstate_info_tbl EVSTATE__FREE = \<lparr>ei_str = ''em_free()'', ei_escope = ''EM_ESCOPE_FREE''\<rparr>"
| "evstate_info_tbl EVSTATE__FREE_MULTI = \<lparr>ei_str = ''em_free_multi()'', ei_escope = ''EM_ESCOPE_FREE_MULTI''\<rparr>"
| "evstate_info_tbl EVSTATE__EVENT_VECTOR_FREE = \<lparr>ei_str = ''em_event_vector_free()'', ei_escope = ''EM_ESCOPE_EVENT_VECTOR_FREE''\<rparr>"
| "evstate_info_tbl EVSTATE__INIT = \<lparr>ei_str = ''init-event'', ei_escope = ''EM_ESCOPE_ODP_EXT''\<rparr>"
| "evstate_info_tbl EVSTATE__INIT_MULTI = \<lparr>ei_str = ''init-events'', ei_escope = ''EM_ESCOPE_ODP_EXT''\<rparr>"
| "evstate_info_tbl EVSTATE__INIT_EXTEV = \<lparr>ei_str = ''dispatch(init-ext-event)'', ei_escope = ''EM_ESCOPE_DISPATCH''\<rparr>"
| "evstate_info_tbl EVSTATE__INIT_EXTEV_MULTI = \<lparr>ei_str = ''dispatch(init-ext-events)'', ei_escope = ''EM_ESCOPE_DISPATCH''\<rparr>"
| "evstate_info_tbl EVSTATE__UPDATE_EXTEV = \<lparr>ei_str = ''dispatch(update-ext-event)'', ei_escope = ''EM_ESCOPE_DISPATCH''\<rparr>"
| "evstate_info_tbl EVSTATE__SEND = \<lparr>ei_str = ''em_send()'', ei_escope = ''EM_ESCOPE_SEND''\<rparr>"
| "evstate_info_tbl EVSTATE__SEND__FAIL = \<lparr>ei_str = ''em_send(fail)'', ei_escope = ''EM_ESCOPE_SEND''\<rparr>"
| "evstate_info_tbl EVSTATE__SEND_EGRP = \<lparr>ei_str = ''em_send_group()'', ei_escope = ''EM_ESCOPE_SEND_GROUP''\<rparr>"
| "evstate_info_tbl EVSTATE__SEND_EGRP__FAIL = \<lparr>ei_str = ''em_send_group(fail)'', ei_escope = ''EM_ESCOPE_SEND_GROUP''\<rparr>"
| "evstate_info_tbl EVSTATE__SEND_MULTI = \<lparr>ei_str = ''em_send_multi()'', ei_escope = ''EM_ESCOPE_SEND_MULTI''\<rparr>"
| "evstate_info_tbl EVSTATE__SEND_MULTI__FAIL = \<lparr>ei_str = ''em_send_multi(fail)'', ei_escope = ''EM_ESCOPE_SEND_MULTI''\<rparr>"
| "evstate_info_tbl EVSTATE__SEND_EGRP_MULTI = \<lparr>ei_str = ''em_send_group_multi()'', ei_escope = ''EM_ESCOPE_SEND_GROUP_MULTI''\<rparr>"
| "evstate_info_tbl EVSTATE__SEND_EGRP_MULTI__FAIL = \<lparr>ei_str = ''em_send_group_multi(fail)'', ei_escope = ''EM_ESCOPE_SEND_GROUP_MULTI''\<rparr>"
| "evstate_info_tbl EVSTATE__EO_START_SEND_BUFFERED = \<lparr>ei_str = ''eo-start:send-buffered-events()'', ei_escope = ''EM_ESCOPE_SEND_MULTI''\<rparr>"
| "evstate_info_tbl EVSTATE__MARK_SEND = \<lparr>ei_str = ''em_event_mark_send()'', ei_escope = ''EM_ESCOPE_EVENT_MARK_SEND''\<rparr>"
| "evstate_info_tbl EVSTATE__UNMARK_SEND = \<lparr>ei_str = ''em_event_unmark_send()'', ei_escope = ''EM_ESCOPE_EVENT_UNMARK_SEND''\<rparr>"
| "evstate_info_tbl EVSTATE__MARK_FREE = \<lparr>ei_str = ''em_event_mark_free()'', ei_escope = ''EM_ESCOPE_EVENT_MARK_FREE''\<rparr>"
| "evstate_info_tbl EVSTATE__UNMARK_FREE = \<lparr>ei_str = ''em_event_unmark_free()'', ei_escope = ''EM_ESCOPE_EVENT_UNMARK_FREE''\<rparr>"
| "evstate_info_tbl EVSTATE__MARK_FREE_MULTI = \<lparr>ei_str = ''em_event_mark_free_multi()'', ei_escope = ''EM_ESCOPE_EVENT_MARK_FREE_MULTI''\<rparr>"
| "evstate_info_tbl EVSTATE__UNMARK_FREE_MULTI = \<lparr>ei_str = ''em_event_unmark_free_multi()'', ei_escope = ''EM_ESCOPE_EVENT_UNMARK_FREE_MULTI''\<rparr>"
| "evstate_info_tbl EVSTATE__DISPATCH = \<lparr>ei_str = ''em_dispatch(single-event)'', ei_escope = ''EM_ESCOPE_DISPATCH''\<rparr>"
| "evstate_info_tbl EVSTATE__DISPATCH_MULTI = \<lparr>ei_str = ''em_dispatch(multiple-events)'', ei_escope = ''EM_ESCOPE_DISPATCH''\<rparr>"
| "evstate_info_tbl EVSTATE__DISPATCH_AGGR = \<lparr>ei_str = ''em_dispatch(aggr-vec inner-event)'', ei_escope = ''EM_ESCOPE_DISPATCH''\<rparr>"
| "evstate_info_tbl EVSTATE__DISPATCH_SCHED__FAIL = \<lparr>ei_str = ''em_dispatch(drop sched-events)'', ei_escope = ''EM_ESCOPE_DISPATCH''\<rparr>"
| "evstate_info_tbl EVSTATE__DISPATCH_LOCAL__FAIL = \<lparr>ei_str = ''em_dispatch(drop local-events)'', ei_escope = ''EM_ESCOPE_DISPATCH''\<rparr>"
| "evstate_info_tbl EVSTATE__DEQUEUE = \<lparr>ei_str = ''em_queue_dequeue()'', ei_escope = ''EM_ESCOPE_QUEUE_DEQUEUE''\<rparr>"
| "evstate_info_tbl EVSTATE__DEQUEUE_MULTI = \<lparr>ei_str = ''em_queue_dequeue_multi()'', ei_escope = ''EM_ESCOPE_QUEUE_DEQUEUE_MULTI''\<rparr>"
| "evstate_info_tbl EVSTATE__TMO_SET_ABS = \<lparr>ei_str = ''em_tmo_set_abs()'', ei_escope = ''EM_ESCOPE_TMO_SET_ABS''\<rparr>"
| "evstate_info_tbl EVSTATE__TMO_SET_ABS__FAIL = \<lparr>ei_str = ''em_tmo_set_abs(fail)'', ei_escope = ''EM_ESCOPE_TMO_SET_ABS''\<rparr>"
| "evstate_info_tbl EVSTATE__TMO_SET_REL = \<lparr>ei_str = ''em_tmo_set_rel()'', ei_escope = ''EM_ESCOPE_TMO_SET_REL''\<rparr>"
| "evstate_info_tbl EVSTATE__TMO_SET_REL__FAIL = \<lparr>ei_str = ''em_tmo_set_rel(fail)'', ei_escope = ''EM_ESCOPE_TMO_SET_REL''\<rparr>"
| "evstate_info_tbl EVSTATE__TMO_SET_PERIODIC = \<lparr>ei_str = ''em_tmo_set_periodic()'', ei_escope = ''EM_ESCOPE_TMO_SET_PERIODIC''\<rparr>"
| "evstate_info_tbl EVSTATE__TMO_SET_PERIODIC__FAIL = \<lparr>ei_str = ''em_tmo_set_periodic(fail)'', ei_escope = ''EM_ESCOPE_TMO_SET_PERIODIC''\<rparr>"
| "evstate_info_tbl EVSTATE__TMO_CANCEL = \<lparr>ei_str = ''em_tmo_cancel()'', ei_escope = ''EM_ESCOPE_TMO_CANCEL''\<rparr>"
| "evstate_info_tbl EVSTATE__TMO_ACK = \<lparr>ei_str = ''em_tmo_ack()'', ei_escope = ''EM_ESCOPE_TMO_ACK''\<rparr>"
| "evstate_info_tbl EVSTATE__TMO_ACK__NOSKIP = \<lparr>ei_str = ''em_tmo_ack(noskip)'', ei_escope = ''EM_ESCOPE_TMO_ACK''\<rparr>"
| "evstate_info_tbl EVSTATE__TMO_ACK__FAIL = \<lparr>ei_str = ''em_tmo_ack(fail)'', ei_escope = ''EM_ESCOPE_TMO_ACK''\<rparr>"
| "evstate_info_tbl EVSTATE__TMO_CREATE = \<lparr>ei_str = ''em_tmo_create()'', ei_escope = ''EM_ESCOPE_TMO_CREATE''\<rparr>"
| "evstate_info_tbl EVSTATE__TMO_DELETE = \<lparr>ei_str = ''em_tmo_delete()'', ei_escope = ''EM_ESCOPE_TMO_DELETE''\<rparr>"
| "evstate_info_tbl EVSTATE__AG_DELETE = \<lparr>ei_str = ''em_atomic_group_delete(flush)'', ei_escope = ''EM_ESCOPE_ATOMIC_GROUP_DELETE''\<rparr>"
| "evstate_info_tbl EVSTATE__TERM_CORE__QUEUE_LOCAL = \<lparr>ei_str = ''em_term_core(local-queue)'', ei_escope = ''EM_ESCOPE_TERM_CORE''\<rparr>"
| "evstate_info_tbl EVSTATE__TERM = \<lparr>ei_str = ''em_term()'', ei_escope = ''EM_ESCOPE_TERM''\<rparr>"
| "evstate_info_tbl EVSTATE__LAST = \<lparr>ei_str = ''last'', ei_escope = ''EM_ESCOPE_INTERNAL_MASK''\<rparr>"

section \<open>Handles and counters\<close>

definition EVGEN_INIT :: u16 where "EVGEN_INIT = 0x1000"
definition EVGEN_MAX :: u16 where "EVGEN_MAX = 0xFFFF - 0x1000"
definition SEND_CNT_INIT :: u16 where "SEND_CNT_INIT = 0x8000"
definition REF_CNT_INIT :: u16 where "REF_CNT_INIT = 0x8000"

lemmas ev_consts = EVGEN_INIT_def EVGEN_MAX_def SEND_CNT_INIT_def REF_CNT_INIT_def

text \<open>The bit fields of \<^verbatim>\<open>evhdl_t\<close>, little endian.\<close>

definition hdl_evptr :: "u64 \<Rightarrow> u64" where "hdl_evptr event = take_bit 48 event"
definition hdl_evgen :: "u64 \<Rightarrow> u16" where "hdl_evgen event = ucast (drop_bit 48 event)"
definition hdl_set_evgen :: "u16 \<Rightarrow> u64 \<Rightarrow> u64" where
  "hdl_set_evgen g event = take_bit 48 event + push_bit 48 (ucast g)"

record evcnt =
  evgen :: u16
  rsvd :: u16
  ref_cnt :: u16
  send_cnt :: u16

definition cnt_u64 :: "evcnt \<Rightarrow> u64" where
  "cnt_u64 c = ucast (evgen c) + 2 ^ 16 * ucast (rsvd c) + 2 ^ 32 * ucast (ref_cnt c)
     + 2 ^ 48 * ucast (send_cnt c)"

definition u64_cnt :: "u64 \<Rightarrow> evcnt" where
  "u64_cnt u = \<lparr>evgen = ucast u, rsvd = ucast (drop_bit 16 u), ref_cnt = ucast (drop_bit 32 u),
     send_cnt = ucast (drop_bit 48 u)\<rparr>"

definition init_cnt_alloc :: evcnt where
  "init_cnt_alloc = \<lparr>evgen = EVGEN_INIT, rsvd = 0, ref_cnt = REF_CNT_INIT - 1,
     send_cnt = 0 + SEND_CNT_INIT\<rparr>"

definition init_cnt_extev :: evcnt where
  "init_cnt_extev = \<lparr>evgen = EVGEN_INIT, rsvd = 0, ref_cnt = REF_CNT_INIT - 1,
     send_cnt = 1 + SEND_CNT_INIT\<rparr>"

section \<open>The word of counters as numbers\<close>

definition cnt_nat :: "nat \<Rightarrow> nat \<Rightarrow> nat \<Rightarrow> nat \<Rightarrow> nat" where
  "cnt_nat e v r s = e + 2 ^ 16 * v + 2 ^ 32 * r + 2 ^ 48 * s"

lemma unat_u16_lt: "unat (x :: u16) < 65536"
  using unat_lt_len [of x] by simp

lemma unat_cnt_u64:
  "unat (cnt_u64 c) = cnt_nat (unat (evgen c)) (unat (rsvd c)) (unat (ref_cnt c)) (unat (send_cnt c))"
proof -
  let ?e = "evgen c" and ?v = "rsvd c" and ?r = "ref_cnt c" and ?s = "send_cnt c"
  have "cnt_u64 c = word_of_nat (cnt_nat (unat ?e) (unat ?v) (unat ?r) (unat ?s))"
    by (simp add: cnt_u64_def cnt_nat_def)
  moreover have "cnt_nat (unat ?e) (unat ?v) (unat ?r) (unat ?s) < 2 ^ 64"
    using unat_u16_lt [of ?e] unat_u16_lt [of ?v] unat_u16_lt [of ?r] unat_u16_lt [of ?s]
    by (simp add: cnt_nat_def)
  ultimately show ?thesis by (simp add: unat_of_nat_small)
qed

lemma word_of_nat_ucast: "(ucast (u :: u64) :: u16) = word_of_nat (unat u)"
  by (rule ucast_of_nat)

lemma u64_cnt_unat:
  assumes "unat u = cnt_nat e v r s" "e < 65536" "v < 65536" "r < 65536" "s < 65536"
  shows "u64_cnt u = \<lparr>evgen = word_of_nat e, rsvd = word_of_nat v, ref_cnt = word_of_nat r,
           send_cnt = word_of_nat s\<rparr>"
proof -
  have u: "unat u = e + 65536 * (v + 65536 * (r + 65536 * s))"
    using assms(1) by (simp add: cnt_nat_def)
  have 1: "unat (drop_bit 16 u) = v + 65536 * (r + 65536 * s)"
    using u assms(2) by (simp add: unat_drop_bit_div)
  have "unat (drop_bit 32 u) = unat u div 65536 div 65536"
    by (simp add: unat_drop_bit_div div_mult2_eq [symmetric])
  then have 2: "unat (drop_bit 32 u) = r + 65536 * s" using u assms by simp
  have "unat (drop_bit 48 u) = unat u div 65536 div 65536 div 65536"
    by (simp add: unat_drop_bit_div div_mult2_eq [symmetric])
  then have 3: "unat (drop_bit 48 u) = s" using u assms by simp
  have w: "(word_of_nat (a + 65536 * b) :: u16) = word_of_nat a" for a b
    by (simp only: word_of_nat_eq_iff) (simp add: take_bit_eq_mod)
  show ?thesis
    unfolding u64_cnt_def word_of_nat_ucast 1 2 3 u w ..
qed

lemma u64_cnt_cnt_u64: "u64_cnt (cnt_u64 c) = c"
  by (subst u64_cnt_unat [OF unat_cnt_u64]) (simp_all add: unat_u16_lt)

section \<open>The event header and the environment\<close>

record ev_hdr_state =
  payload_first :: u32
  eo_idx :: u16
  queue_idx :: u16
  api_op :: esv_apiop
  core :: u8

record event_hdr =
  hdr_event :: u64
  state_cnt :: u64
  event_type :: u32
  refs_used :: bool
  hdr_state :: ev_hdr_state

definition EM_EVENT_TYPE_ODP :: u32 where "EM_EVENT_TYPE_ODP = push_bit 24 7"

text \<open>
  What the code reads outside the header: the configuration options, the EO and queue handles of
  the current queue element of the core (\<^verbatim>\<open>locm->current.q_elem\<close>), the core id, and the first word of
  an event payload (\<^verbatim>\<open>event_pointer\<close>, \<^const>\<open>None\<close> for a NULL pointer).
\<close>

record esv_opts =
  esv_enable :: bool
  store_state :: bool
  store_first_u32 :: bool
  prealloc_pools :: bool

record esv_env =
  opt :: esv_opts
  cur_q_elem :: "(u32 \<times> u32) option"
  core_id :: int
  payload_u32 :: "u64 \<Rightarrow> u32 option"

datatype esv_err_kind = EsvNormal | EsvRef | EsvUnmark

record esv_report =
  er_status :: em_status_t
  er_escope :: em_escope_t
  er_kind :: esv_err_kind
  er_prev_op :: "esv_apiop option"
  er_op :: esv_apiop
  er_send :: int
  er_ref :: int
  er_evgen_hdl :: u16
  er_evgen :: u16

definition EM_FATAL :: "em_status_t \<Rightarrow> em_status_t" where
  "EM_FATAL e = 0x80000000 OR e"

definition esv_update_state ::
  "esv_env \<Rightarrow> ev_hdr_state \<Rightarrow> esv_apiop \<Rightarrow> u32 option \<Rightarrow> ev_hdr_state" where
  "esv_update_state env st op ev_ptr =
     (let st1 = (case ev_ptr of Some w \<Rightarrow> st\<lparr>payload_first := w\<rparr> | None \<Rightarrow> st);
          st2 = (case cur_q_elem env of
                   None \<Rightarrow> st1\<lparr>eo_idx := 0 - 1, queue_idx := 0 - 1\<rparr>
                 | Some (eo, queue) \<Rightarrow> st1\<lparr>eo_idx := ucast eo - 1, queue_idx := ucast queue - 1\<rparr>)
      in st2\<lparr>api_op := op, core := word_of_int (core_id env)\<rparr>)"

definition evhdr_update_state :: "esv_env \<Rightarrow> event_hdr \<Rightarrow> esv_apiop \<Rightarrow> event_hdr" where
  "evhdr_update_state env h op =
     (if \<not> store_state (opt env) then h
      else (let ev_ptr = (if store_first_u32 (opt env) then payload_u32 env (hdr_event h) else None)
            in h\<lparr>hdr_state := esv_update_state env (hdr_state h) op ev_ptr\<rparr>))"

text \<open>\<^verbatim>\<open>esv_error\<close>: the report handed to the error handler, which does not return.\<close>

definition esv_error ::
  "esv_env \<Rightarrow> evcnt \<Rightarrow> u64 \<Rightarrow> event_hdr \<Rightarrow> esv_apiop \<Rightarrow> bool \<Rightarrow> esv_report" where
  "esv_error env cnt evhdl h op is_unmark =
     \<lparr>er_status = EM_FATAL EM_ERR_EVENT_STATE,
      er_escope = ei_escope (evstate_info_tbl op),
      er_kind = (if store_state (opt env) \<and> refs_used h then EsvRef
                 else if \<not> is_unmark then EsvNormal else EsvUnmark),
      er_prev_op = (if store_state (opt env) \<and> \<not> refs_used h then Some (api_op (hdr_state h)) else None),
      er_op = op,
      er_send = sint (send_cnt cnt - SEND_CNT_INIT),
      er_ref = sint (REF_CNT_INIT - ref_cnt cnt),
      er_evgen_hdl = hdl_evgen evhdl - EVGEN_INIT,
      er_evgen = evgen cnt - EVGEN_INIT\<rparr>"

definition evstate_error ::
  "esv_env \<Rightarrow> evcnt \<Rightarrow> u64 \<Rightarrow> event_hdr \<Rightarrow> esv_apiop \<Rightarrow> esv_report" where
  "evstate_error env cnt evhdl h op = esv_error env cnt evhdl h op False"

definition evstate_unmark_error :: "esv_env \<Rightarrow> event_hdr \<Rightarrow> esv_apiop \<Rightarrow> esv_report" where
  "evstate_unmark_error env h op = esv_error env (u64_cnt 0) 0 h op True"

section \<open>Counter transitions\<close>

definition esv_evinit ::
  "esv_env \<Rightarrow> u64 \<Rightarrow> event_hdr \<Rightarrow> evcnt \<Rightarrow> esv_apiop \<Rightarrow> u64 \<times> event_hdr" where
  "esv_evinit env event h init op =
     (let evhdl = hdl_set_evgen EVGEN_INIT event;
          h1 = h\<lparr>hdr_event := evhdl, state_cnt := cnt_u64 init\<rparr>
      in (evhdl, evhdr_update_state env h1 op))"

fun esv_evinit_multi ::
  "esv_env \<Rightarrow> (u64 \<times> event_hdr) list \<Rightarrow> evcnt \<Rightarrow> esv_apiop \<Rightarrow> (u64 \<times> event_hdr) list" where
  "esv_evinit_multi env [] init op = []"
| "esv_evinit_multi env ((event, h) # evs) init op =
     (let evhdl = hdl_set_evgen EVGEN_INIT event;
          h1 = h\<lparr>hdr_event := evhdl, state_cnt := cnt_u64 init\<rparr>
      in (evhdl, evhdr_update_state env h1 op) # esv_evinit_multi env evs init op)"

definition esv_evinit_ext :: "esv_env \<Rightarrow> u64 \<Rightarrow> event_hdr \<Rightarrow> esv_apiop \<Rightarrow> u64 \<times> event_hdr" where
  "esv_evinit_ext env event h op =
     (let sub = \<lparr>evgen = 0, rsvd = 0, ref_cnt = 0, send_cnt = 1\<rparr>;
          cnt = u64_cnt (cnt_u64 init_cnt_extev - cnt_u64 sub);
          evhdl = hdl_set_evgen (evgen cnt) event;
          h1 = h\<lparr>hdr_event := evhdl, state_cnt := cnt_u64 cnt\<rparr>
      in (evhdl, evhdr_update_state env h1 op))"

definition esv_em2usr ::
  "esv_env \<Rightarrow> u64 \<Rightarrow> event_hdr \<Rightarrow> evcnt \<Rightarrow> esv_apiop \<Rightarrow> bool \<Rightarrow> esv_report + (u64 \<times> event_hdr)" where
  "esv_em2usr env event h cnt op is_revert =
     (let refs = refs_used h;
          u = (if is_revert then state_cnt h + cnt_u64 cnt else state_cnt h - cnt_u64 cnt);
          new_cnt = u64_cnt u;
          h1 = h\<lparr>state_cnt := u\<rparr>;
          evhdl = (if \<not> refs then hdl_set_evgen (evgen new_cnt) event else event);
          h2 = (if \<not> refs then h1\<lparr>hdr_event := evhdl\<rparr> else h1);
          ref = sint (REF_CNT_INIT - ref_cnt new_cnt);
          send = sint (send_cnt new_cnt - SEND_CNT_INIT)
      in if send \<ge> ref \<or> send < 0 then Inl (evstate_error env new_cnt evhdl h2 op)
         else Inr (evhdl, if \<not> refs then evhdr_update_state env h2 op else h2))"

text \<open>
  The counter update of \<^verbatim>\<open>esv_usr2em\<close>: the stored word, and the local copy \<^verbatim>\<open>new_cnt\<close> the checks
  read (its generation is the one before the transition).
\<close>

definition usr2em_count :: "u64 \<Rightarrow> evcnt \<Rightarrow> bool \<Rightarrow> u64 \<times> evcnt" where
  "usr2em_count old cnt is_revert =
     (let wrap = \<lparr>evgen = EVGEN_MAX - EVGEN_INIT, rsvd = 0, ref_cnt = 0, send_cnt = 0\<rparr>
      in if is_revert
         then (let u1 = old - cnt_u64 cnt
               in if evgen (u64_cnt u1) = EVGEN_INIT - 1
                  then (let u2 = u1 + cnt_u64 wrap in (u2, u64_cnt u2))
                  else (u1, u64_cnt u1))
         else (let u1 = old + cnt_u64 cnt;
                   c1 = u64_cnt u1;
                   u2 = (if evgen c1 = EVGEN_MAX then u1 - cnt_u64 wrap else u1)
               in (u2, c1\<lparr>evgen := evgen c1 - 1\<rparr>)))"

definition esv_usr2em ::
  "esv_env \<Rightarrow> u64 \<Rightarrow> event_hdr \<Rightarrow> evcnt \<Rightarrow> esv_apiop \<Rightarrow> bool \<Rightarrow> esv_report + event_hdr" where
  "esv_usr2em env event h cnt op is_revert =
     (let refs = refs_used h;
          (u, new_cnt) = usr2em_count (state_cnt h) cnt is_revert;
          h1 = h\<lparr>state_cnt := u\<rparr>;
          ref = sint (REF_CNT_INIT - ref_cnt new_cnt);
          send = sint (send_cnt new_cnt - SEND_CNT_INIT)
      in if (send > ref \<or> send < 0) \<or> (\<not> refs \<and> hdl_evgen event \<noteq> evgen new_cnt)
         then Inl (evstate_error env new_cnt event h1 op)
         else Inr (if \<not> refs then evhdr_update_state env h1 op else h1))"

text \<open>
  The \<^verbatim>\<open>_multi\<close> loops run the same body per event, skip events of type \<^verbatim>\<open>EM_EVENT_TYPE_ODP\<close> and stop
  at the first fatal error.
\<close>

fun esv_em2usr_multi ::
  "esv_env \<Rightarrow> (u64 \<times> event_hdr) list \<Rightarrow> evcnt \<Rightarrow> esv_apiop \<Rightarrow> bool \<Rightarrow>
   esv_report + (u64 \<times> event_hdr) list" where
  "esv_em2usr_multi env [] cnt op is_revert = Inr []"
| "esv_em2usr_multi env ((event, h) # evs) cnt op is_revert =
     (case (if event_type h = EM_EVENT_TYPE_ODP then Inr (event, h)
            else esv_em2usr env event h cnt op is_revert) of
        Inl e \<Rightarrow> Inl e
      | Inr ev \<Rightarrow> (case esv_em2usr_multi env evs cnt op is_revert of
                    Inl e \<Rightarrow> Inl e | Inr evs' \<Rightarrow> Inr (ev # evs')))"

fun esv_usr2em_multi ::
  "esv_env \<Rightarrow> (u64 \<times> event_hdr) list \<Rightarrow> evcnt \<Rightarrow> esv_apiop \<Rightarrow> bool \<Rightarrow> esv_report + event_hdr list" where
  "esv_usr2em_multi env [] cnt op is_revert = Inr []"
| "esv_usr2em_multi env ((event, h) # evs) cnt op is_revert =
     (case (if event_type h = EM_EVENT_TYPE_ODP then Inr h
            else esv_usr2em env event h cnt op is_revert) of
        Inl e \<Rightarrow> Inl e
      | Inr h' \<Rightarrow> (case esv_usr2em_multi env evs cnt op is_revert of
                    Inl e \<Rightarrow> Inl e | Inr hs \<Rightarrow> Inr (h' # hs)))"

definition esv_update_ext ::
  "esv_env \<Rightarrow> u64 \<Rightarrow> event_hdr \<Rightarrow> esv_apiop \<Rightarrow> esv_report + (u64 \<times> event_hdr)" where
  "esv_update_ext env event h op =
     (let sub = \<lparr>evgen = 0, rsvd = 0, ref_cnt = 1, send_cnt = 0\<rparr>;
          add = \<lparr>evgen = 1, rsvd = 0, ref_cnt = 0, send_cnt = 0\<rparr>;
          cmb = cnt_u64 add - cnt_u64 sub;
          refs = refs_used h;
          wrap = \<lparr>evgen = EVGEN_MAX - EVGEN_INIT, rsvd = 0, ref_cnt = 0, send_cnt = 0\<rparr>;
          u1 = state_cnt h + cmb;
          u = (if evgen (u64_cnt u1) = EVGEN_MAX then u1 - cnt_u64 wrap else u1);
          new_cnt = u64_cnt u;
          h1 = h\<lparr>state_cnt := u\<rparr>;
          evhdl = (if \<not> refs then hdl_set_evgen (evgen new_cnt) event else event);
          h2 = (if \<not> refs then h1\<lparr>hdr_event := evhdl\<rparr> else h1);
          ref = sint (REF_CNT_INIT - ref_cnt new_cnt);
          send = sint (send_cnt new_cnt - SEND_CNT_INIT)
      in if send \<ge> ref \<or> send < 0 then Inl (evstate_error env new_cnt evhdl h2 op)
         else Inr (evhdl, if \<not> refs then evhdr_update_state env h2 op else h2))"

section \<open>The transitions the rest of the implementation calls\<close>

abbreviation cnt_vec :: "u16 \<Rightarrow> u16 \<Rightarrow> u16 \<Rightarrow> evcnt" where
  "cnt_vec e r s \<equiv> \<lparr>evgen = e, rsvd = 0, ref_cnt = r, send_cnt = s\<rparr>"

definition evstate_prealloc :: "esv_env \<Rightarrow> u64 \<Rightarrow> event_hdr \<Rightarrow> u64 \<times> event_hdr" where
  "evstate_prealloc env event h = esv_evinit env event h init_cnt_alloc EVSTATE__PREALLOC"

definition evstate_alloc ::
  "esv_env \<Rightarrow> u64 \<Rightarrow> event_hdr \<Rightarrow> esv_apiop \<Rightarrow> esv_report + (u64 \<times> event_hdr)" where
  "evstate_alloc env event h op =
     (if \<not> prealloc_pools (opt env) \<or> refs_used h
      then Inr (esv_evinit env event h init_cnt_alloc op)
      else esv_em2usr env event h (cnt_vec 0 1 0) op False)"

definition evstate_alloc_tmo :: "esv_env \<Rightarrow> u64 \<Rightarrow> event_hdr \<Rightarrow> u64 \<times> event_hdr" where
  "evstate_alloc_tmo env event h = esv_evinit env event h init_cnt_alloc EVSTATE__TMO_CREATE"

fun evstate_alloc_multi_loop ::
  "esv_env \<Rightarrow> (u64 \<times> event_hdr) list \<Rightarrow> esv_report + (u64 \<times> event_hdr) list" where
  "evstate_alloc_multi_loop env [] = Inr []"
| "evstate_alloc_multi_loop env ((event, h) # evs) =
     (case (if refs_used h
            then Inr (esv_evinit env event h init_cnt_alloc EVSTATE__ALLOC_MULTI)
            else esv_em2usr env event h (cnt_vec 0 1 0) EVSTATE__ALLOC_MULTI False) of
        Inl e \<Rightarrow> Inl e
      | Inr ev \<Rightarrow> (case evstate_alloc_multi_loop env evs of
                    Inl e \<Rightarrow> Inl e | Inr evs' \<Rightarrow> Inr (ev # evs')))"

definition evstate_alloc_multi ::
  "esv_env \<Rightarrow> (u64 \<times> event_hdr) list \<Rightarrow> esv_report + (u64 \<times> event_hdr) list" where
  "evstate_alloc_multi env evs =
     (if \<not> prealloc_pools (opt env)
      then Inr (esv_evinit_multi env evs init_cnt_alloc EVSTATE__ALLOC_MULTI)
      else evstate_alloc_multi_loop env evs)"

definition evstate_ref :: "esv_env \<Rightarrow> u64 \<Rightarrow> event_hdr \<Rightarrow> esv_report + (u64 \<times> event_hdr)" where
  "evstate_ref env event h = esv_em2usr env event h (cnt_vec 0 1 0) EVSTATE__EVENT_REF False"

definition evstate_init :: "esv_env \<Rightarrow> u64 \<Rightarrow> event_hdr \<Rightarrow> bool \<Rightarrow> u64 \<times> event_hdr" where
  "evstate_init env event h is_extev =
     (if is_extev then esv_evinit_ext env event h EVSTATE__INIT_EXTEV
      else esv_evinit env event h init_cnt_alloc EVSTATE__INIT)"

definition evstate_init_multi ::
  "esv_env \<Rightarrow> (u64 \<times> event_hdr) list \<Rightarrow> bool \<Rightarrow> (u64 \<times> event_hdr) list" where
  "evstate_init_multi env evs is_extev =
     (let (op, init) = (if is_extev then (EVSTATE__INIT_EXTEV_MULTI, init_cnt_extev)
                        else (EVSTATE__INIT_MULTI, init_cnt_alloc))
      in esv_evinit_multi env evs init op)"

definition evstate_update ::
  "esv_env \<Rightarrow> u64 \<Rightarrow> event_hdr \<Rightarrow> bool \<Rightarrow> esv_report + (u64 \<times> event_hdr)" where
  "evstate_update env event h is_extev =
     (if is_extev then esv_update_ext env event h EVSTATE__UPDATE_EXTEV
      else esv_em2usr env event h (cnt_vec 0 1 0) EVSTATE__UPDATE_EXTEV False)"

definition evstate_free :: "esv_env \<Rightarrow> u64 \<Rightarrow> event_hdr \<Rightarrow> esv_apiop \<Rightarrow> esv_report + event_hdr" where
  "evstate_free env event h op = esv_usr2em env event h (cnt_vec 1 1 0) op False"

definition evstate_free_revert ::
  "esv_env \<Rightarrow> u64 \<Rightarrow> event_hdr \<Rightarrow> esv_apiop \<Rightarrow> esv_report + event_hdr" where
  "evstate_free_revert env event h op = esv_usr2em env event h (cnt_vec 1 1 0) op True"

definition evstate_free_multi ::
  "esv_env \<Rightarrow> (u64 \<times> event_hdr) list \<Rightarrow> esv_apiop \<Rightarrow> esv_report + event_hdr list" where
  "evstate_free_multi env evs op = esv_usr2em_multi env evs (cnt_vec 1 1 0) op False"

definition evstate_free_revert_multi ::
  "esv_env \<Rightarrow> (u64 \<times> event_hdr) list \<Rightarrow> esv_apiop \<Rightarrow> esv_report + event_hdr list" where
  "evstate_free_revert_multi env evs op = esv_usr2em_multi env evs (cnt_vec 1 1 0) op True"

definition evstate_em2usr ::
  "esv_env \<Rightarrow> u64 \<Rightarrow> event_hdr \<Rightarrow> esv_apiop \<Rightarrow> esv_report + (u64 \<times> event_hdr)" where
  "evstate_em2usr env event h op =
     (if event_type h = EM_EVENT_TYPE_ODP then Inr (event, h)
      else esv_em2usr env event h (cnt_vec 0 0 1) op False)"

definition evstate_em2usr_revert ::
  "esv_env \<Rightarrow> u64 \<Rightarrow> event_hdr \<Rightarrow> esv_apiop \<Rightarrow> esv_report + (u64 \<times> event_hdr)" where
  "evstate_em2usr_revert env event h op =
     (if event_type h = EM_EVENT_TYPE_ODP then Inr (event, h)
      else esv_em2usr env event h (cnt_vec 0 0 1) op True)"

definition evstate_em2usr_multi ::
  "esv_env \<Rightarrow> (u64 \<times> event_hdr) list \<Rightarrow> esv_apiop \<Rightarrow> esv_report + (u64 \<times> event_hdr) list" where
  "evstate_em2usr_multi env evs op = esv_em2usr_multi env evs (cnt_vec 0 0 1) op False"

definition evstate_em2usr_revert_multi ::
  "esv_env \<Rightarrow> (u64 \<times> event_hdr) list \<Rightarrow> esv_apiop \<Rightarrow> esv_report + (u64 \<times> event_hdr) list" where
  "evstate_em2usr_revert_multi env evs op = esv_em2usr_multi env evs (cnt_vec 0 0 1) op True"

definition evstate_usr2em :: "esv_env \<Rightarrow> u64 \<Rightarrow> event_hdr \<Rightarrow> esv_apiop \<Rightarrow> esv_report + event_hdr" where
  "evstate_usr2em env event h op =
     (if event_type h = EM_EVENT_TYPE_ODP then Inr h
      else esv_usr2em env event h (cnt_vec 1 0 1) op False)"

definition evstate_usr2em_revert ::
  "esv_env \<Rightarrow> u64 \<Rightarrow> event_hdr \<Rightarrow> esv_apiop \<Rightarrow> esv_report + event_hdr" where
  "evstate_usr2em_revert env event h op =
     (if event_type h = EM_EVENT_TYPE_ODP then Inr h
      else esv_usr2em env event h (cnt_vec 1 0 1) op True)"

definition evstate_usr2em_multi ::
  "esv_env \<Rightarrow> (u64 \<times> event_hdr) list \<Rightarrow> esv_apiop \<Rightarrow> esv_report + event_hdr list" where
  "evstate_usr2em_multi env evs op = esv_usr2em_multi env evs (cnt_vec 1 0 1) op False"

definition evstate_usr2em_revert_multi ::
  "esv_env \<Rightarrow> (u64 \<times> event_hdr) list \<Rightarrow> esv_apiop \<Rightarrow> esv_report + event_hdr list" where
  "evstate_usr2em_revert_multi env evs op = esv_usr2em_multi env evs (cnt_vec 1 0 1) op True"

definition check_valid_unmark ::
  "esv_env \<Rightarrow> event_hdr \<Rightarrow> esv_apiop \<Rightarrow> esv_apiop list \<Rightarrow> esv_report option" where
  "check_valid_unmark env h op expected =
     (if refs_used h then None
      else if list_ex (\<lambda>e. api_op (hdr_state h) = e) expected then None
      else Some (evstate_unmark_error env h op))"

fun check_valid_unmark_multi ::
  "esv_env \<Rightarrow> event_hdr list \<Rightarrow> esv_apiop \<Rightarrow> esv_apiop list \<Rightarrow> esv_report option" where
  "check_valid_unmark_multi env [] op expected = None"
| "check_valid_unmark_multi env (h # hs) op expected =
     (if refs_used h then check_valid_unmark_multi env hs op expected
      else if \<not> list_ex (\<lambda>e. api_op (hdr_state h) = e) expected
           then Some (evstate_unmark_error env h op)
           else check_valid_unmark_multi env hs op expected)"

definition evstate_unmark_send :: "esv_env \<Rightarrow> u64 \<Rightarrow> event_hdr \<Rightarrow> esv_report + event_hdr" where
  "evstate_unmark_send env event h =
     (case (if store_state (opt env)
            then check_valid_unmark env h EVSTATE__UNMARK_SEND [EVSTATE__MARK_SEND] else None) of
        Some e \<Rightarrow> Inl e
      | None \<Rightarrow> evstate_usr2em_revert env event h EVSTATE__UNMARK_SEND)"

definition evstate_unmark_free ::
  "esv_env \<Rightarrow> u64 \<Rightarrow> event_hdr \<Rightarrow> esv_apiop \<Rightarrow> esv_report + event_hdr" where
  "evstate_unmark_free env event h op =
     (case (if store_state (opt env)
            then check_valid_unmark env h op [EVSTATE__MARK_FREE, EVSTATE__MARK_FREE_MULTI] else None) of
        Some e \<Rightarrow> Inl e
      | None \<Rightarrow> evstate_free_revert env event h op)"

definition evstate_unmark_free_multi ::
  "esv_env \<Rightarrow> (u64 \<times> event_hdr) list \<Rightarrow> esv_apiop \<Rightarrow> esv_report + event_hdr list" where
  "evstate_unmark_free_multi env evs op =
     (case (if store_state (opt env)
            then check_valid_unmark_multi env (map snd evs) op
                   [EVSTATE__MARK_FREE_MULTI, EVSTATE__MARK_FREE] else None) of
        Some e \<Rightarrow> Inl e
      | None \<Rightarrow> evstate_free_revert_multi env evs op)"

section \<open>Configuration\<close>

text \<open>
  \<^verbatim>\<open>read_config_file\<close>: the libconfig lookup is a parameter that gives the value of a boolean option or
  \<^const>\<open>None\<close> when the option is missing; \<^verbatim>\<open>esv_build\<close> is the build option \<^verbatim>\<open>EM_ESV_ENABLE\<close>.
\<close>

definition esv_read_config :: "bool \<Rightarrow> (string \<Rightarrow> bool option) \<Rightarrow> esv_opts \<Rightarrow> int \<times> esv_opts" where
  "esv_read_config esv_build lookup o0 =
     (let zero = \<lparr>esv_enable = False, store_state = False, store_first_u32 = False,
                  prealloc_pools = False\<rparr>
      in if \<not> esv_build then (0, zero)
      else case lookup ''esv.enable'' of None \<Rightarrow> (-1, o0) | Some v1 \<Rightarrow>
      (let o1 = o0\<lparr>esv_enable := v1\<rparr> in
       if \<not> esv_enable o1 then (0, zero)
       else case lookup ''esv.store_state'' of None \<Rightarrow> (-1, o1) | Some v2 \<Rightarrow>
       (let o2 = o1\<lparr>store_state := v2\<rparr> in
        case lookup ''esv.store_payload_first_u32'' of None \<Rightarrow> (-1, o2) | Some v3 \<Rightarrow>
        (let o3 = o2\<lparr>store_first_u32 := v3\<rparr> in
         case lookup ''esv.prealloc_pools'' of None \<Rightarrow> (-1, o3) | Some v4 \<Rightarrow>
         (0, o3\<lparr>prealloc_pools := v4\<rparr>)))))"

definition esv_init :: "bool \<Rightarrow> (string \<Rightarrow> bool option) \<Rightarrow> esv_opts \<Rightarrow> em_status_t \<times> esv_opts" where
  "esv_init esv_build lookup o0 =
     (let (ret, o') = esv_read_config esv_build lookup o0
      in (if ret \<noteq> 0 then EM_ERR_LIB_FAILED else EM_OK, o'))"

section \<open>Counters as integers\<close>

text \<open>
  \<^verbatim>\<open>cnt_int g R S\<close> is the counter word of an event at generation \<^verbatim>\<open>EVGEN_INIT + g\<close> with \<^verbatim>\<open>R\<close>
  references, \<^verbatim>\<open>S\<close> of them sent. The offsets in the middle of the 16-bit ranges keep the fields apart
  as long as \<^verbatim>\<open>cnt_range\<close> holds, so that additions on the whole word are additions on the fields.
\<close>

definition cnt_int :: "int \<Rightarrow> int \<Rightarrow> int \<Rightarrow> int" where
  "cnt_int g R S = 0x1000 + g + 2 ^ 32 * (0x8000 - R) + 2 ^ 48 * (0x8000 + S)"

definition cnt_range :: "int \<Rightarrow> int \<Rightarrow> int \<Rightarrow> bool" where
  "cnt_range g R S \<longleftrightarrow> -1 \<le> g \<and> g \<le> 0xDFFF \<and> \<bar>R\<bar> < 0x8000 \<and> \<bar>S\<bar> < 0x8000"

definition cnt_at :: "int \<Rightarrow> int \<Rightarrow> int \<Rightarrow> evcnt" where
  "cnt_at g R S = \<lparr>evgen = word_of_int (0x1000 + g), rsvd = 0, ref_cnt = word_of_int (0x8000 - R),
     send_cnt = word_of_int (0x8000 + S)\<rparr>"

lemma ucast_word_of_int16:
  assumes "0 \<le> k" "k < 65536"
  shows "(ucast (word_of_int k :: u16) :: u64) = word_of_int k"
  using assms by (simp add: unsigned_of_int take_bit_int_eq_self)

lemma cnt_u64_at:
  assumes "cnt_range g R S"
  shows "cnt_u64 (cnt_at g R S) = word_of_int (cnt_int g R S)"
proof -
  have "(ucast (word_of_int (0x1000 + g) :: u16) :: u64) = word_of_int (0x1000 + g)"
    "(ucast (word_of_int (0x8000 - R) :: u16) :: u64) = word_of_int (0x8000 - R)"
    "(ucast (word_of_int (0x8000 + S) :: u16) :: u64) = word_of_int (0x8000 + S)"
    using assms by (auto simp only: cnt_range_def intro!: ucast_word_of_int16)
  then show ?thesis
    unfolding cnt_u64_def cnt_at_def cnt_int_def by (simp only: evcnt.simps) simp
qed

lemma u64_cnt_at:
  "cnt_range g R S \<Longrightarrow> u64_cnt (word_of_int (cnt_int g R S)) = cnt_at g R S"
  using u64_cnt_cnt_u64 [of "cnt_at g R S"] by (simp add: cnt_u64_at)

lemma cnt_at_read:
  assumes "cnt_range g R S"
  shows "sint (REF_CNT_INIT - ref_cnt (cnt_at g R S)) = R"
    and "sint (send_cnt (cnt_at g R S) - SEND_CNT_INIT) = S"
proof -
  have k: "sint (word_of_int k :: u16) = k" if "\<bar>k\<bar> < 0x8000" for k
    using that by (simp add: signed_of_int signed_take_bit_int_eq_self)
  have "REF_CNT_INIT - ref_cnt (cnt_at g R S) = word_of_int R"
    "send_cnt (cnt_at g R S) - SEND_CNT_INIT = word_of_int S"
    by (simp_all add: cnt_at_def ev_consts)
  then show "sint (REF_CNT_INIT - ref_cnt (cnt_at g R S)) = R"
    "sint (send_cnt (cnt_at g R S) - SEND_CNT_INIT) = S"
    using assms k by (simp_all add: cnt_range_def)
qed

lemma evgen_at [simp]: "evgen (cnt_at g R S) = word_of_int (0x1000 + g)"
  by (simp add: cnt_at_def)

lemma evgen_at_eq_iff:
  assumes "-1 \<le> g" "g \<le> 0xDFFF" "-1 \<le> g'" "g' \<le> 0xDFFF"
  shows "(word_of_int (0x1000 + g) :: u16) = word_of_int (0x1000 + g') \<longleftrightarrow> g = g'"
proof -
  have "take_bit 16 (0x1000 + k) = 0x1000 + k" if "-1 \<le> k" "k \<le> 0xDFFF" for k :: int
    using that by (simp add: take_bit_int_eq_self)
  then show ?thesis using assms by (simp only: word_of_int_eq_iff) simp
qed

lemma evgen_max_iff:
  assumes "-1 \<le> g" "g \<le> 0xDFFF"
  shows "(word_of_int (0x1000 + g) :: u16) = EVGEN_MAX \<longleftrightarrow> g = 0xDFFF"
    and "(word_of_int (0x1000 + g) :: u16) = EVGEN_INIT - 1 \<longleftrightarrow> g = -1"
  using evgen_at_eq_iff [OF assms, of "0xDFFF"] evgen_at_eq_iff [OF assms, of "-1"]
  by (simp_all add: ev_consts)

lemma cnt_vec_u64:
  "cnt_u64 (cnt_vec 0 1 0) = word_of_int (2 ^ 32)"
  "cnt_u64 (cnt_vec 0 0 1) = word_of_int (2 ^ 48)"
  "cnt_u64 (cnt_vec 1 0 0) = word_of_int 1"
  "cnt_u64 (cnt_vec 1 1 0) = word_of_int (1 + 2 ^ 32)"
  "cnt_u64 (cnt_vec 1 0 1) = word_of_int (1 + 2 ^ 48)"
  "cnt_u64 (cnt_vec (EVGEN_MAX - EVGEN_INIT) 0 0) = word_of_int 0xDFFF"
  by (simp_all add: cnt_u64_def ev_consts)

lemma unat_ucast_mod: "unat (ucast (w :: u64) :: u16) = unat w mod 65536"
  by (simp only: ucast_of_nat unat_of_nat) simp

section \<open>Handles\<close>

lemma hdl_roundtrip:
  "hdl_evgen (hdl_set_evgen g event) = g"
  "hdl_evptr (hdl_set_evgen g event) = hdl_evptr event"
  "hdl_set_evgen g' (hdl_set_evgen g event) = hdl_set_evgen g' event"
  "hdl_set_evgen (hdl_evgen event) event = event"
proof -
  have a: "hdl_set_evgen g event = take_bit 48 event OR push_bit 48 (ucast g)" for g event
    unfolding hdl_set_evgen_def
    by (rule disjunctive_add) (auto simp: bit_simps)
  show "hdl_evgen (hdl_set_evgen g event) = g"
    unfolding a hdl_evgen_def by (rule bit_word_eqI) (auto simp: bit_simps)
  show "hdl_evptr (hdl_set_evgen g event) = hdl_evptr event"
    unfolding a hdl_evptr_def by (rule bit_word_eqI) (auto simp: bit_simps)
  show "hdl_set_evgen g' (hdl_set_evgen g event) = hdl_set_evgen g' event"
    unfolding a by (rule bit_word_eqI) (auto simp: bit_simps)
  show "hdl_set_evgen (hdl_evgen event) event = event"
    unfolding a hdl_evgen_def by (rule bit_word_eqI) (auto simp: bit_simps)
qed

section \<open>Transitions on well-formed counters\<close>

definition esv_at :: "event_hdr \<Rightarrow> int \<Rightarrow> int \<Rightarrow> int \<Rightarrow> bool" where
  "esv_at h g R S \<longleftrightarrow> state_cnt h = word_of_int (cnt_int g R S)"

text \<open>The header after an accepted transition to the counters \<^verbatim>\<open>g R S\<close>.\<close>

definition hdr_at :: "esv_env \<Rightarrow> esv_apiop \<Rightarrow> event_hdr \<Rightarrow> int \<Rightarrow> int \<Rightarrow> int \<Rightarrow> event_hdr" where
  "hdr_at env op h g R S =
     (let h1 = h\<lparr>state_cnt := word_of_int (cnt_int g R S)\<rparr>
      in if refs_used h then h1 else evhdr_update_state env h1 op)"

lemma evhdr_update_sel [simp]:
  "state_cnt (evhdr_update_state env h op) = state_cnt h"
  "hdr_event (evhdr_update_state env h op) = hdr_event h"
  "refs_used (evhdr_update_state env h op) = refs_used h"
  "event_type (evhdr_update_state env h op) = event_type h"
  by (simp_all add: evhdr_update_state_def Let_def)

lemma hdr_at_sel [simp]:
  "state_cnt (hdr_at env op h g R S) = word_of_int (cnt_int g R S)"
  "hdr_event (hdr_at env op h g R S) = hdr_event h"
  "refs_used (hdr_at env op h g R S) = refs_used h"
  "event_type (hdr_at env op h g R S) = event_type h"
  by (simp_all add: hdr_at_def Let_def)

lemma esv_at_hdr_at [simp]: "esv_at (hdr_at env op h g R S) g R S"
  by (simp add: esv_at_def)

definition em2usr_hdl :: "event_hdr \<Rightarrow> u64 \<Rightarrow> int \<Rightarrow> u64" where
  "em2usr_hdl h event g =
     (if refs_used h then event else hdl_set_evgen (word_of_int (0x1000 + g)) event)"

definition em2usr_hdr :: "event_hdr \<Rightarrow> u64 \<Rightarrow> int \<Rightarrow> event_hdr" where
  "em2usr_hdr h event g = (if refs_used h then h else h\<lparr>hdr_event := em2usr_hdl h event g\<rparr>)"

lemma em2usr_hdr_sel [simp]:
  "refs_used (em2usr_hdr h event g) = refs_used h"
  "event_type (em2usr_hdr h event g) = event_type h"
  "state_cnt (em2usr_hdr h event g) = state_cnt h"
  "hdr_event (em2usr_hdr h event g) = (if refs_used h then hdr_event h else em2usr_hdl h event g)"
  by (simp_all add: em2usr_hdr_def)

lemma hdr_upd_swap: "h\<lparr>state_cnt := a, hdr_event := b\<rparr> = h\<lparr>hdr_event := b, state_cnt := a\<rparr>"
  by simp

lemma esv_em2usr_at:
  assumes u: "(if rv then state_cnt h + cnt_u64 cnt else state_cnt h - cnt_u64 cnt)
        = word_of_int (cnt_int g R S)"
    and r: "cnt_range g R S"
  shows "\<exists>e. esv_em2usr env event h cnt op rv =
    (if S \<ge> R \<or> S < 0 then Inl e
     else Inr (em2usr_hdl h event g, hdr_at env op (em2usr_hdr h event g) g R S))"
  using cnt_at_read [OF r]
  unfolding esv_em2usr_def Let_def u u64_cnt_at [OF r] hdr_at_def em2usr_hdl_def em2usr_hdr_def
  by (auto simp: hdr_upd_swap)

lemma usr2em_count_add:
  assumes u: "old + cnt_u64 cnt = word_of_int (cnt_int g R S)" and r: "cnt_range g R S" and g: "0 < g"
  shows "usr2em_count old cnt False =
    (word_of_int (cnt_int (if g = 0xDFFF then 0 else g) R S), cnt_at (g - 1) R S)"
proof -
  have mx: "word_of_int (0x1000 + g) = EVGEN_MAX \<longleftrightarrow> g = 0xDFFF"
    using r by (intro evgen_max_iff) (auto simp: cnt_range_def)
  have w: "word_of_int (cnt_int 0xDFFF R S) - word_of_int 0xDFFF = (word_of_int (cnt_int 0 R S) :: u64)"
    by (simp add: cnt_int_def)
  have c: "cnt_at g R S\<lparr>evgen := word_of_int (0x1000 + g) - 1\<rparr> = cnt_at (g - 1) R S"
    by (simp add: cnt_at_def algebra_simps)
  show ?thesis
    unfolding usr2em_count_def Let_def u u64_cnt_at [OF r] evgen_at mx cnt_vec_u64 c
    by (cases "g = 0xDFFF") (simp_all only: w if_True if_False simp_thms)
qed

lemma usr2em_count_sub:
  assumes u: "old - cnt_u64 cnt = word_of_int (cnt_int g R S)" and r: "cnt_range g R S"
  shows "usr2em_count old cnt True =
    (let g' = (if g = -1 then 0xDFFE else g) in (word_of_int (cnt_int g' R S), cnt_at g' R S))"
proof -
  have mx: "word_of_int (0x1000 + g) = EVGEN_INIT - 1 \<longleftrightarrow> g = -1"
    using r by (intro evgen_max_iff) (auto simp: cnt_range_def)
  have w: "word_of_int (cnt_int (-1) R S) + word_of_int 0xDFFF = (word_of_int (cnt_int 0xDFFE R S) :: u64)"
    by (simp add: cnt_int_def)
  have r': "cnt_range 0xDFFE R S" using r by (simp add: cnt_range_def)
  show ?thesis
    unfolding usr2em_count_def Let_def u u64_cnt_at [OF r] evgen_at mx cnt_vec_u64
    by (cases "g = -1") (simp_all only: w u64_cnt_at [OF r'] if_True if_False simp_thms)
qed

lemma esv_usr2em_at:
  assumes "usr2em_count (state_cnt h) cnt rv = (word_of_int (cnt_int g' R S), cnt_at gc R S)"
    and r: "cnt_range gc R S"
  shows "\<exists>e. esv_usr2em env event h cnt op rv =
    (if S > R \<or> S < 0 \<or> (\<not> refs_used h \<and> hdl_evgen event \<noteq> word_of_int (0x1000 + gc))
     then Inl e else Inr (hdr_at env op h g' R S))"
  using cnt_at_read [OF r]
  unfolding esv_usr2em_def Let_def assms(1) hdr_at_def prod.case evgen_at by auto

section \<open>The four kinds of transition\<close>

definition nextgen :: "int \<Rightarrow> int" where "nextgen g = (if g = 0xDFFE then 0 else g + 1)"
definition prevgen :: "int \<Rightarrow> int" where "prevgen g = (if g = 0 then 0xDFFE else g - 1)"

text \<open>Counters an event can have before a transition, with room for one more step.\<close>

definition cnt_ok :: "int \<Rightarrow> int \<Rightarrow> int \<Rightarrow> bool" where
  "cnt_ok g R S \<longleftrightarrow> 0 \<le> g \<and> g < 0xDFFF \<and> \<bar>R\<bar> < 0x7FFF \<and> \<bar>S\<bar> < 0x7FFF"

lemma gen_inverse:
  "0 \<le> g \<Longrightarrow> g < 0xDFFF \<Longrightarrow> prevgen (nextgen g) = g"
  "0 \<le> g \<Longrightarrow> g < 0xDFFF \<Longrightarrow> nextgen (prevgen g) = g"
  "0 \<le> g \<Longrightarrow> g < 0xDFFF \<Longrightarrow> 0 \<le> nextgen g \<and> nextgen g < 0xDFFF"
  "0 \<le> g \<Longrightarrow> g < 0xDFFF \<Longrightarrow> 0 \<le> prevgen g \<and> prevgen g < 0xDFFF"
  by (auto simp: nextgen_def prevgen_def)

lemma esv_at_words:
  assumes "esv_at h g R S"
  shows "state_cnt h - cnt_u64 (cnt_vec 0 1 0) = word_of_int (cnt_int g (R + 1) S)"
    "state_cnt h - cnt_u64 (cnt_vec 0 0 1) = word_of_int (cnt_int g R (S - 1))"
    "state_cnt h + cnt_u64 (cnt_vec 0 0 1) = word_of_int (cnt_int g R (S + 1))"
    "state_cnt h + cnt_u64 (cnt_vec 1 0 1) = word_of_int (cnt_int (g + 1) R (S + 1))"
    "state_cnt h + cnt_u64 (cnt_vec 1 1 0) = word_of_int (cnt_int (g + 1) (R - 1) S)"
    "state_cnt h - cnt_u64 (cnt_vec 1 0 1) = word_of_int (cnt_int (g - 1) R (S - 1))"
    "state_cnt h - cnt_u64 (cnt_vec 1 1 0) = word_of_int (cnt_int (g - 1) (R + 1) S)"
  using assms unfolding esv_at_def cnt_vec_u64
  by (simp_all only: cnt_int_def wi_hom_sub wi_hom_add)
    (simp_all add: algebra_simps)

lemma esv_alloc_at:
  assumes "esv_at h g R S" "cnt_ok g R S"
  shows "\<exists>e. esv_em2usr env event h (cnt_vec 0 1 0) op False =
    (if S \<ge> R + 1 \<or> S < 0 then Inl e
     else Inr (em2usr_hdl h event g, hdr_at env op (em2usr_hdr h event g) g (R + 1) S))"
  by (rule esv_em2usr_at) (use assms in \<open>auto simp: esv_at_words cnt_range_def cnt_ok_def\<close>)

lemma esv_dispatch_at:
  assumes "esv_at h g R S" "cnt_ok g R S"
  shows "\<exists>e. esv_em2usr env event h (cnt_vec 0 0 1) op False =
    (if S - 1 \<ge> R \<or> S - 1 < 0 then Inl e
     else Inr (em2usr_hdl h event g, hdr_at env op (em2usr_hdr h event g) g R (S - 1)))"
  by (rule esv_em2usr_at) (use assms in \<open>auto simp: esv_at_words cnt_range_def cnt_ok_def\<close>)

lemma esv_dispatch_revert_at:
  assumes "esv_at h g R S" "cnt_ok g R S"
  shows "\<exists>e. esv_em2usr env event h (cnt_vec 0 0 1) op True =
    (if S + 1 \<ge> R \<or> S + 1 < 0 then Inl e
     else Inr (em2usr_hdl h event g, hdr_at env op (em2usr_hdr h event g) g R (S + 1)))"
  by (rule esv_em2usr_at) (use assms in \<open>auto simp: esv_at_words cnt_range_def cnt_ok_def\<close>)

lemma usr2em_count_add':
  assumes "old + cnt_u64 cnt = word_of_int (cnt_int (g + 1) R S)" "cnt_range (g + 1) R S" "0 \<le> g"
  shows "usr2em_count old cnt False = (word_of_int (cnt_int (nextgen g) R S), cnt_at g R S)"
  using usr2em_count_add [OF assms(1,2)] assms(3) by (auto simp: nextgen_def)

lemma usr2em_count_sub':
  assumes "old - cnt_u64 cnt = word_of_int (cnt_int (g - 1) R S)" "cnt_range (g - 1) R S"
  shows "usr2em_count old cnt True =
    (word_of_int (cnt_int (prevgen g) R S), cnt_at (prevgen g) R S)"
  using usr2em_count_sub [OF assms] by (auto simp: prevgen_def Let_def)

lemma esv_send_at:
  assumes "esv_at h g R S" "cnt_ok g R S"
  shows "\<exists>e. esv_usr2em env event h (cnt_vec 1 0 1) op False =
    (if S + 1 > R \<or> S + 1 < 0 \<or> (\<not> refs_used h \<and> hdl_evgen event \<noteq> word_of_int (0x1000 + g))
     then Inl e else Inr (hdr_at env op h (nextgen g) R (S + 1)))"
  by (rule esv_usr2em_at, rule usr2em_count_add')
    (use assms in \<open>auto simp: esv_at_words cnt_range_def cnt_ok_def\<close>)

lemma esv_free_at:
  assumes "esv_at h g R S" "cnt_ok g R S"
  shows "\<exists>e. esv_usr2em env event h (cnt_vec 1 1 0) op False =
    (if S > R - 1 \<or> S < 0 \<or> (\<not> refs_used h \<and> hdl_evgen event \<noteq> word_of_int (0x1000 + g))
     then Inl e else Inr (hdr_at env op h (nextgen g) (R - 1) S))"
  by (rule esv_usr2em_at, rule usr2em_count_add')
    (use assms in \<open>auto simp: esv_at_words cnt_range_def cnt_ok_def\<close>)

lemma esv_send_revert_at:
  assumes "esv_at h g R S" "cnt_ok g R S"
  shows "\<exists>e. esv_usr2em env event h (cnt_vec 1 0 1) op True =
    (if S - 1 > R \<or> S - 1 < 0 \<or> (\<not> refs_used h \<and> hdl_evgen event \<noteq> word_of_int (0x1000 + prevgen g))
     then Inl e else Inr (hdr_at env op h (prevgen g) R (S - 1)))"
  by (rule esv_usr2em_at, rule usr2em_count_sub')
    (use assms in \<open>auto simp: esv_at_words cnt_range_def cnt_ok_def prevgen_def\<close>)

lemma esv_free_revert_at:
  assumes "esv_at h g R S" "cnt_ok g R S"
  shows "\<exists>e. esv_usr2em env event h (cnt_vec 1 1 0) op True =
    (if S > R + 1 \<or> S < 0 \<or> (\<not> refs_used h \<and> hdl_evgen event \<noteq> word_of_int (0x1000 + prevgen g))
     then Inl e else Inr (hdr_at env op h (prevgen g) (R + 1) S))"
  by (rule esv_usr2em_at, rule usr2em_count_sub')
    (use assms in \<open>auto simp: esv_at_words cnt_range_def cnt_ok_def prevgen_def\<close>)

section \<open>The ownership automaton\<close>

text \<open>
  What the counters are for: an event without references is owned by its pool, by the user (with the
  handle of the current generation) or by EM, and a user call is legal only with the current handle
  while the user owns the event. The state also holds the last successful operation, which the
  \<^verbatim>\<open>em_event_unmark_...\<close> functions inspect.
\<close>

datatype owner = InPool | InUser | InEM

datatype esv_call =
    CallAlloc u64
  | CallDispatch u64
  | CallSend u64
  | CallSendFail u64
  | CallMarkSend u64
  | CallUnmarkSend u64
  | CallFree u64
  | CallMarkFree u64
  | CallUnmarkFree u64

fun esv_step :: "esv_env \<Rightarrow> esv_call \<Rightarrow> event_hdr \<Rightarrow> esv_report + event_hdr" where
  "esv_step env (CallAlloc e) h = map_sum id snd (evstate_alloc env e h EVSTATE__ALLOC)"
| "esv_step env (CallDispatch e) h = map_sum id snd (evstate_em2usr env e h EVSTATE__DISPATCH)"
| "esv_step env (CallSend e) h = evstate_usr2em env e h EVSTATE__SEND"
| "esv_step env (CallSendFail e) h = evstate_usr2em_revert env e h EVSTATE__SEND__FAIL"
| "esv_step env (CallMarkSend e) h = evstate_usr2em env e h EVSTATE__MARK_SEND"
| "esv_step env (CallUnmarkSend e) h = evstate_unmark_send env e h"
| "esv_step env (CallFree e) h = evstate_free env e h EVSTATE__FREE"
| "esv_step env (CallMarkFree e) h = evstate_free env e h EVSTATE__MARK_FREE"
| "esv_step env (CallUnmarkFree e) h = evstate_unmark_free env e h EVSTATE__UNMARK_FREE"

fun esv_run :: "esv_env \<Rightarrow> esv_call list \<Rightarrow> event_hdr \<Rightarrow> esv_report + event_hdr" where
  "esv_run env [] h = Inr h"
| "esv_run env (c # cs) h =
     (case esv_step env c h of Inl e \<Rightarrow> Inl e | Inr h' \<Rightarrow> esv_run env cs h')"

type_synonym own_state = "owner \<times> int \<times> esv_apiop"

definition has_gen :: "u64 \<Rightarrow> int \<Rightarrow> bool" where
  "has_gen e g \<longleftrightarrow> hdl_evgen e = word_of_int (0x1000 + g)"

fun own_step :: "esv_call \<Rightarrow> own_state \<Rightarrow> own_state option" where
  "own_step (CallAlloc e) (own, g, l) =
     (if own = InPool then Some (InUser, g, EVSTATE__ALLOC) else None)"
| "own_step (CallDispatch e) (own, g, l) =
     (if own = InEM then Some (InUser, g, EVSTATE__DISPATCH) else None)"
| "own_step (CallSend e) (own, g, l) =
     (if own = InUser \<and> has_gen e g then Some (InEM, nextgen g, EVSTATE__SEND) else None)"
| "own_step (CallSendFail e) (own, g, l) =
     (if own = InEM \<and> has_gen e (prevgen g) then Some (InUser, prevgen g, EVSTATE__SEND__FAIL) else None)"
| "own_step (CallMarkSend e) (own, g, l) =
     (if own = InUser \<and> has_gen e g then Some (InEM, nextgen g, EVSTATE__MARK_SEND) else None)"
| "own_step (CallUnmarkSend e) (own, g, l) =
     (if own = InEM \<and> l = EVSTATE__MARK_SEND \<and> has_gen e (prevgen g)
      then Some (InUser, prevgen g, EVSTATE__UNMARK_SEND) else None)"
| "own_step (CallFree e) (own, g, l) =
     (if own = InUser \<and> has_gen e g then Some (InPool, nextgen g, EVSTATE__FREE) else None)"
| "own_step (CallMarkFree e) (own, g, l) =
     (if own = InUser \<and> has_gen e g then Some (InPool, nextgen g, EVSTATE__MARK_FREE) else None)"
| "own_step (CallUnmarkFree e) (own, g, l) =
     (if own = InPool \<and> l = EVSTATE__MARK_FREE \<and> has_gen e (prevgen g)
      then Some (InUser, prevgen g, EVSTATE__UNMARK_FREE) else None)"

fun own_run :: "esv_call list \<Rightarrow> own_state \<Rightarrow> own_state option" where
  "own_run [] s = Some s"
| "own_run (c # cs) s = (case own_step c s of None \<Rightarrow> None | Some s' \<Rightarrow> own_run cs s')"

text \<open>The pool hands out only events it owns; \<^verbatim>\<open>em_alloc\<close> is not called for any other event.\<close>

fun pool_sane :: "esv_call list \<Rightarrow> own_state \<Rightarrow> bool" where
  "pool_sane [] s = True"
| "pool_sane (c # cs) s =
     ((case c of CallAlloc e \<Rightarrow> fst s = InPool | _ \<Rightarrow> True) \<and>
      (case own_step c s of None \<Rightarrow> True | Some s' \<Rightarrow> pool_sane cs s'))"

fun own_refs :: "owner \<Rightarrow> int" where
  "own_refs InPool = 0" | "own_refs InUser = 1" | "own_refs InEM = 1"

fun own_sends :: "owner \<Rightarrow> int" where
  "own_sends InPool = 0" | "own_sends InUser = 0" | "own_sends InEM = 1"

definition own_last_ok :: "owner \<Rightarrow> esv_apiop \<Rightarrow> bool" where
  "own_last_ok own l \<longleftrightarrow> l \<noteq> EVSTATE__MARK_FREE_MULTI \<and>
     (l = EVSTATE__MARK_FREE \<longrightarrow> own = InPool) \<and> (l = EVSTATE__MARK_SEND \<longrightarrow> own = InEM)"

fun own_rel :: "own_state \<Rightarrow> event_hdr \<Rightarrow> bool" where
  "own_rel (own, g, l) h \<longleftrightarrow>
     esv_at h g (own_refs own) (own_sends own) \<and> 0 \<le> g \<and> g < 0xDFFF \<and>
     \<not> refs_used h \<and> event_type h \<noteq> EM_EVENT_TYPE_ODP \<and>
     api_op (hdr_state h) = l \<and> own_last_ok own l"

lemma api_op_hdr_at:
  "store_state (opt env) \<Longrightarrow> \<not> refs_used h \<Longrightarrow> api_op (hdr_state (hdr_at env op h g R S)) = op"
  by (simp add: hdr_at_def evhdr_update_state_def esv_update_state_def Let_def)

definition step_agrees :: "own_state option \<Rightarrow> esv_report + event_hdr \<Rightarrow> bool" where
  "step_agrees a r \<longleftrightarrow>
     (case a of None \<Rightarrow> (\<exists>e. r = Inl e) | Some s' \<Rightarrow> (\<exists>h'. r = Inr h' \<and> own_rel s' h'))"

lemma own_rel_cnt:
  "own_rel (own, g, l) h \<Longrightarrow> cnt_ok g (own_refs own) (own_sends own)"
  by (cases own) (auto simp: cnt_ok_def)

lemma em2usr_hdr_hdl_state [simp]:
  "hdr_state (em2usr_hdr h event g) = hdr_state h"
  by (simp add: em2usr_hdr_def)

lemma own_step_alloc:
  assumes "own_rel (own, g, l) h" "store_state (opt env)" "prealloc_pools (opt env)" "own = InPool"
  shows "step_agrees (own_step (CallAlloc e) (own, g, l)) (esv_step env (CallAlloc e) h)"
  using assms esv_alloc_at [of h g 0 0 env e EVSTATE__ALLOC]
  by (auto simp: evstate_alloc_def step_agrees_def api_op_hdr_at cnt_ok_def own_last_ok_def)

lemma own_step_dispatch:
  assumes "own_rel (own, g, l) h" "store_state (opt env)"
  shows "step_agrees (own_step (CallDispatch e) (own, g, l)) (esv_step env (CallDispatch e) h)"
  using assms esv_dispatch_at [of h g "own_refs own" "own_sends own" env e EVSTATE__DISPATCH]
    own_rel_cnt [OF assms(1)]
  by (cases own) (auto simp: evstate_em2usr_def step_agrees_def api_op_hdr_at own_last_ok_def)

lemma own_step_send:
  assumes "own_rel (own, g, l) h" "store_state (opt env)"
  shows "step_agrees (own_step (CallSend e) (own, g, l)) (esv_step env (CallSend e) h)"
    and "step_agrees (own_step (CallMarkSend e) (own, g, l)) (esv_step env (CallMarkSend e) h)"
  using assms esv_send_at [of h g "own_refs own" "own_sends own" env e EVSTATE__SEND]
    esv_send_at [of h g "own_refs own" "own_sends own" env e EVSTATE__MARK_SEND]
    own_rel_cnt [OF assms(1)] gen_inverse(3) [of g]
  by (cases own; auto simp: evstate_usr2em_def step_agrees_def api_op_hdr_at own_last_ok_def has_gen_def)+

lemma own_step_free:
  assumes "own_rel (own, g, l) h" "store_state (opt env)"
  shows "step_agrees (own_step (CallFree e) (own, g, l)) (esv_step env (CallFree e) h)"
    and "step_agrees (own_step (CallMarkFree e) (own, g, l)) (esv_step env (CallMarkFree e) h)"
  using assms esv_free_at [of h g "own_refs own" "own_sends own" env e EVSTATE__FREE]
    esv_free_at [of h g "own_refs own" "own_sends own" env e EVSTATE__MARK_FREE]
    own_rel_cnt [OF assms(1)] gen_inverse(3) [of g]
  by (cases own; auto simp: evstate_free_def step_agrees_def api_op_hdr_at own_last_ok_def has_gen_def)+

lemma own_step_send_fail:
  assumes "own_rel (own, g, l) h" "store_state (opt env)"
  shows "step_agrees (own_step (CallSendFail e) (own, g, l)) (esv_step env (CallSendFail e) h)"
    and "step_agrees (own_step (CallUnmarkSend e) (own, g, l)) (esv_step env (CallUnmarkSend e) h)"
  using assms esv_send_revert_at [of h g "own_refs own" "own_sends own" env e EVSTATE__SEND__FAIL]
    esv_send_revert_at [of h g "own_refs own" "own_sends own" env e EVSTATE__UNMARK_SEND]
    own_rel_cnt [OF assms(1)] gen_inverse(4) [of g]
  by (cases own; auto simp: evstate_usr2em_revert_def evstate_unmark_send_def check_valid_unmark_def
      step_agrees_def api_op_hdr_at own_last_ok_def has_gen_def)+

lemma own_step_unmark_free:
  assumes "own_rel (own, g, l) h" "store_state (opt env)"
  shows "step_agrees (own_step (CallUnmarkFree e) (own, g, l)) (esv_step env (CallUnmarkFree e) h)"
  using assms esv_free_revert_at [of h g "own_refs own" "own_sends own" env e EVSTATE__UNMARK_FREE]
    own_rel_cnt [OF assms(1)] gen_inverse(4) [of g]
  by (cases own) (auto simp: evstate_free_revert_def evstate_unmark_free_def check_valid_unmark_def
      step_agrees_def api_op_hdr_at own_last_ok_def has_gen_def)

lemmas own_steps = own_step_dispatch own_step_send own_step_free own_step_send_fail
  own_step_unmark_free

lemma own_step_agrees:
  assumes "own_rel s h" "store_state (opt env)" "prealloc_pools (opt env)"
    and "case c of CallAlloc e \<Rightarrow> fst s = InPool | _ \<Rightarrow> True"
  shows "step_agrees (own_step c s) (esv_step env c h)"
proof -
  obtain own g l where s: "s = (own, g, l)" by (cases s)
  show ?thesis
  proof (cases c)
    case (CallAlloc e)
    then show ?thesis using own_step_alloc [of own g l h env e] assms s by simp
  qed (use own_steps assms(1,2) s in \<open>simp_all only:\<close>)
qed

lemma esv_run_agrees:
  assumes "own_rel s h" "store_state (opt env)" "prealloc_pools (opt env)" "pool_sane cs s"
  shows "step_agrees (own_run cs s) (esv_run env cs h)"
  using assms
proof (induction cs arbitrary: s h)
  case Nil
  then show ?case by (simp add: step_agrees_def)
next
  case (Cons c cs)
  have st: "step_agrees (own_step c s) (esv_step env c h)"
    by (rule own_step_agrees) (use Cons.prems in auto)
  show ?case
  proof (cases "own_step c s")
    case None
    then show ?thesis using st by (auto simp: step_agrees_def)
  next
    case (Some s')
    then obtain h' where h': "esv_step env c h = Inr h'" "own_rel s' h'"
      using st by (auto simp: step_agrees_def simp del: own_rel.simps)
    have "step_agrees (own_run cs s') (esv_run env cs h')"
      by (rule Cons.IH) (use Cons.prems h' Some in auto)
    then show ?thesis using Some h' by (simp add: step_agrees_def)
  qed
qed

section \<open>Properties\<close>

definition demo_env :: esv_env where
  "demo_env = \<lparr>opt = \<lparr>esv_enable = True, store_state = True, store_first_u32 = False,
     prealloc_pools = True\<rparr>, cur_q_elem = Some (1, 2), core_id = 3, payload_u32 = (\<lambda>_. Some 7)\<rparr>"

definition demo_hdr :: "int \<Rightarrow> int \<Rightarrow> int \<Rightarrow> esv_apiop \<Rightarrow> event_hdr" where
  "demo_hdr g R S l = \<lparr>hdr_event = 0x1000000000001234, state_cnt = word_of_int (cnt_int g R S),
     event_type = 0, refs_used = False,
     hdr_state = \<lparr>payload_first = 0, eo_idx = 0, queue_idx = 0, api_op = l, core = 0\<rparr>\<rparr>"

lemma demo_rel:
  "own_last_ok own l \<Longrightarrow> 0 \<le> g \<Longrightarrow> g < 0xDFFF \<Longrightarrow>
   own_rel (own, g, l) (demo_hdr g (own_refs own) (own_sends own) l)"
  by (simp add: demo_hdr_def esv_at_def EM_EVENT_TYPE_ODP_def)

text \<open>
  C5: Event state verification is exact for events without references. For every sequence of
  allocations, sends, failed sends, frees, dispatches, marks and unmarks in which the pool only hands
  out events it owns, the counter word accepts the sequence exactly when the ownership automaton does:
  double frees, double sends, sends and frees of an event EM owns, and stale handles are all reported,
  and no legal call ever is. The counters then stand for the owner and the generation.
\<close>

theorem esv_ownership_exact:
  assumes "own_rel s h" "store_state (opt env)" "prealloc_pools (opt env)" "pool_sane cs s"
  shows "case own_run cs s of
      None \<Rightarrow> \<exists>e. esv_run env cs h = Inl e
    | Some s' \<Rightarrow> \<exists>h'. esv_run env cs h = Inr h' \<and> own_rel s' h'"
  using esv_run_agrees [OF assms] by (simp add: step_agrees_def)

theorem esv_ownership_exact_witness:
  "\<exists>e. esv_run demo_env [CallAlloc 0x1000000000001234, CallFree 0x1000000000001234,
         CallFree 0x1000000000001234] (demo_hdr 0 0 0 EVSTATE__PREALLOC) = Inl e"
proof -
  let ?e = "0x1000000000001234 :: u64"
  have g: "has_gen ?e 0" "\<not> has_gen ?e 1" by (simp_all add: has_gen_def hdl_evgen_def drop_bit_eq_div)
  have r: "own_rel (InPool, 0, EVSTATE__PREALLOC) (demo_hdr 0 0 0 EVSTATE__PREALLOC)"
    using demo_rel [of InPool EVSTATE__PREALLOC 0] by (simp add: own_last_ok_def)
  show ?thesis
    using esv_ownership_exact [OF r, of demo_env "[CallAlloc ?e, CallFree ?e, CallFree ?e]"] g
    by (simp add: demo_env_def nextgen_def)
qed

text \<open>
  The header state written by a sequence of updates with the same operation is the one of the last
  update, when the payload word does not depend on the generation in the handle.
\<close>

definition payload_by_ptr :: "esv_env \<Rightarrow> bool" where
  "payload_by_ptr env \<longleftrightarrow> (\<forall>g e. payload_u32 env (hdl_set_evgen g e) = payload_u32 env e)"

definition st_upd :: "esv_env \<Rightarrow> esv_apiop \<Rightarrow> u64 \<Rightarrow> ev_hdr_state \<Rightarrow> ev_hdr_state" where
  "st_upd env op ev st =
     (if \<not> store_state (opt env) then st
      else esv_update_state env st op (if store_first_u32 (opt env) then payload_u32 env ev else None))"

lemma evhdr_update_st_upd:
  "evhdr_update_state env h op = h\<lparr>hdr_state := st_upd env op (hdr_event h) (hdr_state h)\<rparr>"
  by (simp add: evhdr_update_state_def st_upd_def Let_def)

lemma st_upd_absorb:
  "payload_u32 env a = payload_u32 env b \<Longrightarrow> st_upd env op b (st_upd env op a st) = st_upd env op b st"
  by (auto simp: st_upd_def esv_update_state_def Let_def split: option.splits prod.splits)

text \<open>
  C19: The combined update of an external event equals the three transitions it stands for. The
  comment of \<^verbatim>\<open>esv_update_ext\<close> derives the single addition from mark-allocated, mark-sent and
  mark-dispatched; for an event that its pool owns, the combined 64-bit addition returns the same
  handle and leaves the same header, generation wrap included.
\<close>

theorem esv_update_ext_combined:
  assumes "esv_at h g 0 0" "0 \<le> g" "g < 0xDFFF" "\<not> refs_used h" "payload_by_ptr env"
  shows "\<exists>e1 h1 h2 r. esv_em2usr env event h (cnt_vec 0 1 0) op False = Inr (e1, h1) \<and>
      esv_usr2em env e1 h1 (cnt_vec 1 0 1) op False = Inr h2 \<and>
      esv_em2usr env e1 h2 (cnt_vec 0 0 1) op False = Inr r \<and>
      esv_update_ext env event h op = Inr r"
proof -
  have ok: "cnt_ok g 0 0" "cnt_ok g 1 0" "cnt_ok (nextgen g) 1 1"
    using assms gen_inverse(3) [of g] by (auto simp: cnt_ok_def)
  define h1 where "h1 = hdr_at env op (em2usr_hdr h event g) g 1 0"
  define e1 where "e1 = em2usr_hdl h event g"
  define h2 where "h2 = hdr_at env op h1 (nextgen g) 1 1"
  define e3 where "e3 = em2usr_hdl h2 e1 (nextgen g)"
  define h3 where "h3 = hdr_at env op (em2usr_hdr h2 e1 (nextgen g)) (nextgen g) 1 0"
  have 1: "esv_em2usr env event h (cnt_vec 0 1 0) op False = Inr (e1, h1)"
    using esv_alloc_at [OF assms(1) ok(1), of env event op] by (auto simp: e1_def h1_def)
  have a1: "esv_at h1 g 1 0" by (simp add: h1_def)
  have e1g: "hdl_evgen e1 = word_of_int (0x1000 + g)"
    using assms(4) by (simp add: e1_def em2usr_hdl_def hdl_roundtrip)
  have 2: "esv_usr2em env e1 h1 (cnt_vec 1 0 1) op False = Inr h2"
    using esv_send_at [OF a1 ok(2), of env e1 op] e1g by (auto simp: h2_def)
  have a2: "esv_at h2 (nextgen g) 1 1" by (simp add: h2_def)
  have 3: "esv_em2usr env e1 h2 (cnt_vec 0 0 1) op False = Inr (e3, h3)"
    using esv_dispatch_at [OF a2 ok(3), of env e1 op] by (auto simp: e3_def h3_def)
  have nr: "\<not> refs_used h1" "\<not> refs_used h2" using assms(4) by (simp_all add: h1_def h2_def)
  have e3: "e3 = hdl_set_evgen (word_of_int (0x1000 + nextgen g)) event"
    using assms(4) nr by (simp add: e3_def e1_def em2usr_hdl_def hdl_roundtrip)
  have eq: "em2usr_hdl k e1 (nextgen g) = e3" if "\<not> refs_used k" for k
    using that assms(4) by (simp add: e3 e1_def em2usr_hdl_def hdl_roundtrip)
  have cmb: "state_cnt h + (cnt_u64 (cnt_vec 1 0 0) - cnt_u64 (cnt_vec 0 1 0))
      = word_of_int (cnt_int (g + 1) 1 0)"
    using assms(1) unfolding esv_at_def cnt_vec_u64
    by (simp only: cnt_int_def wi_hom_sub wi_hom_add) (simp add: algebra_simps)
  have r: "cnt_range (g + 1) 1 0" "cnt_range (nextgen g) 1 0"
    using assms(2,3) by (auto simp: cnt_range_def nextgen_def)
  have mx: "word_of_int (0x1000 + (g + 1)) = EVGEN_MAX \<longleftrightarrow> g + 1 = 0xDFFF"
    using assms(2,3) by (intro evgen_max_iff) auto
  have u: "(if evgen (u64_cnt (word_of_int (cnt_int (g + 1) 1 0))) = EVGEN_MAX
      then word_of_int (cnt_int (g + 1) 1 0) - cnt_u64 (cnt_vec (EVGEN_MAX - EVGEN_INIT) 0 0)
      else word_of_int (cnt_int (g + 1) 1 0)) = (word_of_int (cnt_int (nextgen g) 1 0) :: u64)"
    unfolding u64_cnt_at [OF r(1)] evgen_at mx cnt_vec_u64 wi_hom_sub
    by (auto simp: nextgen_def cnt_int_def)
  have pl: "payload_u32 env e1 = payload_u32 env e3"
    using assms(4,5) by (simp_all add: e3 e1_def em2usr_hdl_def payload_by_ptr_def)
  have h3: "h3 = evhdr_update_state env
      (h\<lparr>state_cnt := word_of_int (cnt_int (nextgen g) 1 0), hdr_event := e3\<rparr>) op"
    using assms(4) st_upd_absorb [OF pl(1), of op]
    by (simp add: h3_def h2_def h1_def hdr_at_def em2usr_hdr_def evhdr_update_st_upd Let_def
        e1_def [symmetric] eq hdr_upd_swap)
  have "esv_update_ext env event h op = Inr (e3, h3)"
    using cnt_at_read [OF r(2)] assms(4)
    unfolding esv_update_ext_def Let_def cmb u u64_cnt_at [OF r(2)] evgen_at h3 e3
    by simp
  with 1 2 3 show ?thesis by blast
qed

theorem esv_update_ext_combined_witness:
  "\<exists>e1 h1 h2 r. esv_em2usr demo_env 0x1000000000001234 (demo_hdr 0xDFFE 0 0 EVSTATE__FREE)
        (cnt_vec 0 1 0) EVSTATE__UPDATE_EXTEV False = Inr (e1, h1) \<and>
      esv_usr2em demo_env e1 h1 (cnt_vec 1 0 1) EVSTATE__UPDATE_EXTEV False = Inr h2 \<and>
      esv_em2usr demo_env e1 h2 (cnt_vec 0 0 1) EVSTATE__UPDATE_EXTEV False = Inr r \<and>
      esv_update_ext demo_env 0x1000000000001234 (demo_hdr 0xDFFE 0 0 EVSTATE__FREE)
        EVSTATE__UPDATE_EXTEV = Inr r"
  by (rule esv_update_ext_combined [of _ "0xDFFE"])
    (simp_all add: demo_hdr_def esv_at_def payload_by_ptr_def demo_env_def)

text \<open>
  The combined initialisation of an external event, \<^verbatim>\<open>esv_evinit_ext\<close>, equals initialising it
  with the counters of an external event followed by the transition to the user, as its comment says.
\<close>

theorem esv_evinit_ext_combined:
  assumes "\<not> refs_used h" "payload_by_ptr env"
  shows "let (e1, h1) = esv_evinit env event h init_cnt_extev op
    in esv_em2usr env e1 h1 (cnt_vec 0 0 1) op False = Inr (esv_evinit_ext env event h op)"
proof -
  let ?e = "hdl_set_evgen EVGEN_INIT event"
  have c: "cnt_u64 init_cnt_extev = word_of_int (cnt_int 0 1 1)"
    by (simp add: init_cnt_extev_def cnt_u64_def cnt_int_def ev_consts)
  have sub: "cnt_u64 init_cnt_extev - cnt_u64 (cnt_vec 0 0 1) = word_of_int (cnt_int 0 1 0)"
    unfolding c cnt_vec_u64 by (simp add: cnt_int_def)
  have r: "cnt_range 0 1 0" by (simp add: cnt_range_def)
  have g: "word_of_int (0x1000 + 0) = EVGEN_INIT" by (simp add: ev_consts)
  define h1 where "h1 = evhdr_update_state env (h\<lparr>hdr_event := ?e, state_cnt := cnt_u64 init_cnt_extev\<rparr>) op"
  have a: "esv_at h1 0 1 1" "cnt_ok 0 1 1" by (simp_all add: h1_def esv_at_def c cnt_ok_def)
  have nr: "\<not> refs_used h1" using assms(1) by (simp add: h1_def)
  have "esv_em2usr env ?e h1 (cnt_vec 0 0 1) op False =
      Inr (em2usr_hdl h1 ?e 0, hdr_at env op (em2usr_hdr h1 ?e 0) 0 1 0)"
    using esv_dispatch_at [OF a, of env ?e op] by auto
  moreover have "em2usr_hdl h1 ?e 0 = ?e"
    using nr g by (simp add: em2usr_hdl_def hdl_roundtrip)
  moreover have "hdr_at env op (em2usr_hdr h1 ?e 0) 0 1 0 =
      evhdr_update_state env (h\<lparr>hdr_event := ?e, state_cnt := word_of_int (cnt_int 0 1 0)\<rparr>) op"
    using nr assms(1) \<open>em2usr_hdl h1 ?e 0 = ?e\<close>
    by (simp add: hdr_at_def em2usr_hdr_def h1_def evhdr_update_st_upd st_upd_absorb Let_def)
  moreover have "esv_evinit_ext env event h op =
      (?e, evhdr_update_state env (h\<lparr>hdr_event := ?e, state_cnt := word_of_int (cnt_int 0 1 0)\<rparr>) op)"
    using cnt_u64_at [OF r] g
    unfolding esv_evinit_ext_def Let_def sub u64_cnt_at [OF r] evgen_at by simp
  ultimately show ?thesis by (simp add: esv_evinit_def Let_def h1_def)
qed

theorem esv_evinit_ext_combined_witness:
  "let (e1, h1) = esv_evinit demo_env 0x1234 (demo_hdr 5 0 0 EVSTATE__FREE) init_cnt_extev
        EVSTATE__INIT_EXTEV
   in esv_em2usr demo_env e1 h1 (cnt_vec 0 0 1) EVSTATE__INIT_EXTEV False
     = Inr (esv_evinit_ext demo_env 0x1234 (demo_hdr 5 0 0 EVSTATE__FREE) EVSTATE__INIT_EXTEV)"
  by (rule esv_evinit_ext_combined) (simp_all add: demo_hdr_def payload_by_ptr_def demo_env_def)

text \<open>
  C39: Reverting a transition to the user can never succeed for an event without references.
  \<^verbatim>\<open>evstate_em2usr_revert\<close> restores the send count of an event the user owns, but then applies the
  check of the forward transition (\<^verbatim>\<open>send < ref\<close>), so it reports a fatal error for an event in a
  legal state; only an event with further references passes.
\<close>

theorem evstate_em2usr_revert_rejects:
  assumes "own_rel (InUser, g, l) h"
  shows "\<exists>e. evstate_em2usr_revert env event h op = Inl e"
proof -
  have a: "esv_at h g 1 0" "cnt_ok g 1 0" using assms by (auto simp: cnt_ok_def)
  show ?thesis
    using esv_dispatch_revert_at [OF a, of env event op] assms
    by (auto simp: evstate_em2usr_revert_def)
qed

theorem evstate_em2usr_revert_rejects_witness:
  "\<exists>e. evstate_em2usr_revert demo_env 0x1000000000001234 (demo_hdr 0 1 0 EVSTATE__ALLOC)
     EVSTATE__DISPATCH = Inl e"
  by (rule evstate_em2usr_revert_rejects [of 0 EVSTATE__ALLOC])
    (use demo_rel [of InUser EVSTATE__ALLOC 0] in \<open>simp add: own_last_ok_def\<close>)

text \<open>A send and the dispatch that gives the event back, \<^verbatim>\<open>n\<close> times.\<close>

fun ping_pong :: "esv_env \<Rightarrow> nat \<Rightarrow> u64 \<Rightarrow> event_hdr \<Rightarrow> esv_report + (u64 \<times> event_hdr)" where
  "ping_pong env 0 e h = Inr (e, h)"
| "ping_pong env (Suc n) e h =
     (case evstate_usr2em env e h EVSTATE__SEND of
        Inl r \<Rightarrow> Inl r
      | Inr h1 \<Rightarrow> (case evstate_em2usr env e h1 EVSTATE__DISPATCH of
                     Inl r \<Rightarrow> Inl r
                   | Inr (e2, h2) \<Rightarrow> ping_pong env n e2 h2))"

definition user_owns :: "event_hdr \<Rightarrow> int \<Rightarrow> u64 \<Rightarrow> bool" where
  "user_owns h g e \<longleftrightarrow> esv_at h g 1 0 \<and> 0 \<le> g \<and> g < 0xDFFF \<and> \<not> refs_used h \<and>
     event_type h \<noteq> EM_EVENT_TYPE_ODP \<and> has_gen e g"

lemma ping_pong_step:
  assumes "user_owns h g e"
  shows "\<exists>h1 h2. evstate_usr2em env e h EVSTATE__SEND = Inr h1 \<and>
    evstate_em2usr env e h1 EVSTATE__DISPATCH = Inr (hdl_set_evgen (word_of_int (0x1000 + nextgen g)) e, h2) \<and>
    user_owns h2 (nextgen g) (hdl_set_evgen (word_of_int (0x1000 + nextgen g)) e)"
proof -
  have a: "esv_at h g 1 0" "cnt_ok g 1 0" and g: "0 \<le> g" "g < 0xDFFF"
    using assms by (auto simp: user_owns_def cnt_ok_def)
  define h1 where "h1 = hdr_at env EVSTATE__SEND h (nextgen g) 1 1"
  have 1: "evstate_usr2em env e h EVSTATE__SEND = Inr h1"
    using esv_send_at [OF a, of env e EVSTATE__SEND] assms
    by (auto simp: user_owns_def has_gen_def evstate_usr2em_def h1_def)
  have b: "esv_at h1 (nextgen g) 1 1" "cnt_ok (nextgen g) 1 1"
    using gen_inverse(3) [OF g] by (auto simp: h1_def cnt_ok_def)
  show ?thesis
    using 1 esv_dispatch_at [OF b, of env e EVSTATE__DISPATCH] assms gen_inverse(3) [OF g]
    by (auto simp: user_owns_def evstate_em2usr_def h1_def em2usr_hdl_def has_gen_def hdl_roundtrip)
qed

lemma ping_pong_run:
  assumes "user_owns h g e"
  shows "\<exists>h'. ping_pong env n e h =
      Inr (if n = 0 then e else hdl_set_evgen (word_of_int (0x1000 + (nextgen ^^ n) g)) e, h') \<and>
      user_owns h' ((nextgen ^^ n) g) (hdl_set_evgen (word_of_int (0x1000 + (nextgen ^^ n) g)) e)"
  using assms
proof (induction n arbitrary: e h g)
  case 0
  then have "hdl_set_evgen (word_of_int (0x1000 + g)) e = e"
    using hdl_roundtrip(4) [of e] by (auto simp: user_owns_def has_gen_def)
  with 0 show ?case by simp
next
  case (Suc n)
  let ?e = "hdl_set_evgen (word_of_int (0x1000 + nextgen g)) e"
  obtain h1 h2 where 1: "evstate_usr2em env e h EVSTATE__SEND = Inr h1"
    "evstate_em2usr env e h1 EVSTATE__DISPATCH = Inr (?e, h2)" "user_owns h2 (nextgen g) ?e"
    using ping_pong_step [OF Suc.prems] by blast
  from Suc.IH [OF 1(3)] 1(1,2) show ?case
    by (auto simp: funpow_Suc_right hdl_roundtrip simp del: funpow.simps)
qed

lemma nextgen_mod: "0 \<le> g \<Longrightarrow> g < 0xDFFF \<Longrightarrow> nextgen g = (g + 1) mod 0xDFFF"
  by (auto simp: nextgen_def)

lemma nextgen_pow:
  assumes "0 \<le> g" "g < 0xDFFF"
  shows "(nextgen ^^ n) g = (g + int n) mod 0xDFFF"
proof (induction n)
  case 0
  then show ?case using assms by simp
next
  case (Suc n)
  then have "(nextgen ^^ Suc n) g = nextgen ((g + int n) mod 0xDFFF)" by simp
  also have "\<dots> = ((g + int n) mod 0xDFFF + 1) mod 0xDFFF"
    by (rule nextgen_mod) simp_all
  finally show ?case by (simp add: mod_simps algebra_simps)
qed

text \<open>
  C18: How long a stale handle is detected. After \<^verbatim>\<open>n\<close> send and dispatch round trips of an event, a
  free with the handle the user held before them is accepted exactly when \<^verbatim>\<open>n\<close> is a multiple of
  57343 (\<^verbatim>\<open>EVGEN_MAX - EVGEN_INIT\<close>), the period of the generation counter; in between every use of
  the old handle is reported. The event pointer in the handle never changes.
\<close>

theorem stale_handle_period:
  assumes "user_owns h g e"
  shows "\<exists>e' h'. ping_pong env n e h = Inr (e', h') \<and> hdl_evptr e' = hdl_evptr e \<and>
    ((\<exists>h''. evstate_free env e h' EVSTATE__FREE = Inr h'') \<longleftrightarrow> n mod 57343 = 0)"
proof -
  let ?g = "(nextgen ^^ n) g"
  obtain h' where h': "ping_pong env n e h =
      Inr (if n = 0 then e else hdl_set_evgen (word_of_int (0x1000 + ?g)) e, h')"
    "user_owns h' ?g (hdl_set_evgen (word_of_int (0x1000 + ?g)) e)"
    using ping_pong_run [OF assms] by blast
  have a: "esv_at h' ?g 1 0" "cnt_ok ?g 1 0" using h'(2) by (auto simp: user_owns_def cnt_ok_def)
  have g: "0 \<le> g" "g < 0xDFFF" and ge: "has_gen e g" using assms by (auto simp: user_owns_def)
  have geq: "(word_of_int (0x1000 + g) :: u16) = word_of_int (0x1000 + ?g) \<longleftrightarrow> g = ?g"
    by (rule evgen_at_eq_iff) (use g a(2) in \<open>auto simp: cnt_ok_def\<close>)
  obtain x where x: "evstate_free env e h' EVSTATE__FREE =
      (if has_gen e ?g then Inr (hdr_at env EVSTATE__FREE h' (nextgen ?g) (1 - 1) 0) else Inl x)"
    using esv_free_at [OF a, of env e EVSTATE__FREE] h'(2)
    by (cases "has_gen e ?g") (auto simp: evstate_free_def user_owns_def has_gen_def)
  have "(\<exists>h''. evstate_free env e h' EVSTATE__FREE = Inr h'') \<longleftrightarrow> has_gen e ?g"
    unfolding x by simp
  also have "\<dots> \<longleftrightarrow> ?g = g"
    unfolding has_gen_def ge [unfolded has_gen_def] geq by auto
  also have "\<dots> \<longleftrightarrow> n mod 57343 = 0"
  proof -
    have "(g + int n) mod 0xDFFF = g mod 0xDFFF \<longleftrightarrow> (0xDFFF :: int) dvd int n"
      by (subst mod_eq_dvd_iff) simp
    also have "\<dots> \<longleftrightarrow> n mod 57343 = 0"
      by (metis dvd_eq_mod_eq_0 int_dvd_int_iff of_nat_numeral)
    finally show ?thesis using g by (simp add: nextgen_pow)
  qed
  finally show ?thesis using h'(1) by (auto simp: hdl_roundtrip)
qed

theorem stale_handle_period_witness:
  "\<exists>e' h'. ping_pong demo_env 2 0x1000000000001234 (demo_hdr 0 1 0 EVSTATE__ALLOC) = Inr (e', h') \<and>
    hdl_evptr e' = hdl_evptr 0x1000000000001234 \<and>
    ((\<exists>h''. evstate_free demo_env 0x1000000000001234 h' EVSTATE__FREE = Inr h'') \<longleftrightarrow>
      (2::nat) mod 57343 = 0)"
  by (rule stale_handle_period [of _ 0])
    (simp add: user_owns_def demo_hdr_def esv_at_def EM_EVENT_TYPE_ODP_def has_gen_def hdl_evgen_def
      drop_bit_eq_div)

text \<open>
  C16: Reference counting. For an event with references the generation is not checked; with \<^verbatim>\<open>R\<close>
  references of which \<^verbatim>\<open>S\<close> are sent, a send or a free is accepted exactly when a reference is left
  with the users (\<^verbatim>\<open>S < R\<close>), a dispatch exactly when one is sent, a new reference always, and every
  accepted operation keeps \<^verbatim>\<open>0 \<le> S \<le> R\<close>.
\<close>

theorem esv_reference_counts:
  assumes "esv_at h g R S" "cnt_ok g R S" "refs_used h" "event_type h \<noteq> EM_EVENT_TYPE_ODP"
    and "0 \<le> S" "S \<le> R"
  shows "\<exists>e1 e2 e3.
    evstate_usr2em env ev h op =
      (if S < R then Inr (hdr_at env op h (nextgen g) R (S + 1)) else Inl e1) \<and>
    evstate_free env ev h op =
      (if S < R then Inr (hdr_at env op h (nextgen g) (R - 1) S) else Inl e2) \<and>
    evstate_em2usr env ev h op =
      (if 0 < S then Inr (ev, hdr_at env op h g R (S - 1)) else Inl e3) \<and>
    evstate_ref env ev h = Inr (ev, hdr_at env EVSTATE__EVENT_REF h g (R + 1) S)"
proof -
  have eh: "em2usr_hdr h ev g = h" "em2usr_hdl h ev g = ev"
    using assms(3) by (simp_all add: em2usr_hdr_def em2usr_hdl_def)
  obtain e1 where 1: "evstate_usr2em env ev h op =
      (if S < R then Inr (hdr_at env op h (nextgen g) R (S + 1)) else Inl e1)"
    using esv_send_at [OF assms(1,2), of env ev op] assms(3-6)
    by (cases "S < R") (auto simp: evstate_usr2em_def)
  obtain e2 where 2: "evstate_free env ev h op =
      (if S < R then Inr (hdr_at env op h (nextgen g) (R - 1) S) else Inl e2)"
    using esv_free_at [OF assms(1,2), of env ev op] assms(3-6)
    by (cases "S < R") (auto simp: evstate_free_def)
  obtain e3 where 3: "evstate_em2usr env ev h op =
      (if 0 < S then Inr (ev, hdr_at env op h g R (S - 1)) else Inl e3)"
    using esv_dispatch_at [OF assms(1,2), of env ev op] assms(3-6) eh
    by (cases "0 < S") (auto simp: evstate_em2usr_def)
  have 4: "evstate_ref env ev h = Inr (ev, hdr_at env EVSTATE__EVENT_REF h g (R + 1) S)"
    using esv_alloc_at [OF assms(1,2), of env ev EVSTATE__EVENT_REF] assms(3-6) eh
    by (auto simp: evstate_ref_def)
  show ?thesis using 1 2 3 4 by blast
qed

definition demo_ref_hdr :: event_hdr where
  "demo_ref_hdr = (demo_hdr 0 2 1 EVSTATE__EVENT_REF)\<lparr>refs_used := True\<rparr>"

theorem esv_reference_counts_witness:
  "\<exists>e1 e2 e3.
    evstate_usr2em demo_env 0x1234 demo_ref_hdr EVSTATE__SEND =
      (if (1::int) < 2 then Inr (hdr_at demo_env EVSTATE__SEND demo_ref_hdr (nextgen 0) 2 (1 + 1)) else Inl e1) \<and>
    evstate_free demo_env 0x1234 demo_ref_hdr EVSTATE__SEND =
      (if (1::int) < 2 then Inr (hdr_at demo_env EVSTATE__SEND demo_ref_hdr (nextgen 0) (2 - 1) 1) else Inl e2) \<and>
    evstate_em2usr demo_env 0x1234 demo_ref_hdr EVSTATE__SEND =
      (if 0 < (1::int) then Inr (0x1234, hdr_at demo_env EVSTATE__SEND demo_ref_hdr 0 2 (1 - 1)) else Inl e3) \<and>
    evstate_ref demo_env 0x1234 demo_ref_hdr =
      Inr (0x1234, hdr_at demo_env EVSTATE__EVENT_REF demo_ref_hdr 0 (2 + 1) 1)"
  by (rule esv_reference_counts)
    (simp_all add: demo_ref_hdr_def demo_hdr_def esv_at_def EM_EVENT_TYPE_ODP_def cnt_ok_def)

lemma cnt_u64_u64_cnt: "cnt_u64 (u64_cnt u) = u"
proof -
  define n where "n = unat u"
  have c: "n div 4294967296 = n div 65536 div 65536"
    "n div 281474976710656 = n div 65536 div 65536 div 65536"
    by (simp_all add: div_mult2_eq [symmetric])
  have p: "(2::nat) ^ 16 = 65536" "(2::nat) ^ 32 = 4294967296" "(2::nat) ^ 48 = 281474976710656"
    by simp_all
  have "n = n mod 65536 + 65536 * (n div 65536)"
    "n div 65536 = n div 65536 mod 65536 + 65536 * (n div 65536 div 65536)"
    "n div 65536 div 65536 = n div 65536 div 65536 mod 65536 + 65536 * (n div 65536 div 65536 div 65536)"
    by (simp_all only: mod_mult_div_eq)
  then have e: "cnt_nat (n mod 65536) (n div 65536 mod 65536) (n div 4294967296 mod 65536)
      (n div 281474976710656) = n"
    unfolding cnt_nat_def p c by linarith
  have "n div 281474976710656 < 65536"
    using unat_lt_len [of u] by (simp add: n_def less_mult_imp_div_less)
  then have "unat (cnt_u64 (u64_cnt u)) = unat u"
    using e by (simp add: unat_cnt_u64 u64_cnt_def unat_drop_bit_div unat_ucast_mod n_def)
  then show ?thesis by (simp add: word_unat_eq_iff)
qed

text \<open>
  The packed forms lose nothing. Writing a generation into a handle and reading it back gives that
  generation and leaves the 48-bit event pointer alone, and the four 16-bit counters are recovered from
  the 64-bit word the header stores atomically, in both directions.
\<close>

theorem esv_packing_roundtrip:
  "hdl_evgen (hdl_set_evgen g event) = g \<and>
   hdl_evptr (hdl_set_evgen g event) = hdl_evptr event \<and>
   hdl_set_evgen (hdl_evgen event) event = event \<and>
   u64_cnt (cnt_u64 c) = c \<and>
   cnt_u64 (u64_cnt u) = u"
  by (simp add: hdl_roundtrip u64_cnt_cnt_u64 cnt_u64_u64_cnt)

definition usr2em_one ::
  "esv_env \<Rightarrow> evcnt \<Rightarrow> esv_apiop \<Rightarrow> bool \<Rightarrow> u64 \<times> event_hdr \<Rightarrow> event_hdr \<Rightarrow> bool" where
  "usr2em_one env cnt op rv ev h' \<longleftrightarrow>
     (if event_type (snd ev) = EM_EVENT_TYPE_ODP then h' = snd ev
      else esv_usr2em env (fst ev) (snd ev) cnt op rv = Inr h')"

lemma esv_usr2em_multi_Inr:
  "esv_usr2em_multi env evs cnt op rv = Inr hs \<longleftrightarrow> list_all2 (usr2em_one env cnt op rv) evs hs"
proof (induction evs arbitrary: hs)
  case Nil
  then show ?case by auto
next
  case (Cons ev evs)
  obtain e h where ev: "ev = (e, h)" by (cases ev)
  have "esv_usr2em_multi env (ev # evs) cnt op rv = Inr hs \<longleftrightarrow>
      (\<exists>h' hs'. hs = h' # hs' \<and> usr2em_one env cnt op rv ev h' \<and>
         esv_usr2em_multi env evs cnt op rv = Inr hs')"
    unfolding ev usr2em_one_def
    by (cases "event_type h = EM_EVENT_TYPE_ODP") (auto split: sum.splits)
  also have "\<dots> \<longleftrightarrow> list_all2 (usr2em_one env cnt op rv) (ev # evs) hs"
    unfolding Cons.IH by (auto simp: list_all2_Cons1)
  finally show ?case .
qed

text \<open>
  The bulk user-to-EM transition is the single one applied to each event: it succeeds with the
  headers \<^verbatim>\<open>hs\<close> exactly when every event of EM's own type passes the single check with that result,
  ODP events are left untouched, and the first failing event ends it.
\<close>

theorem esv_usr2em_multi_pointwise:
  "esv_usr2em_multi env evs cnt op rv = Inr hs \<longleftrightarrow>
     length hs = length evs \<and>
     (\<forall>i<length evs. if event_type (snd (evs ! i)) = EM_EVENT_TYPE_ODP then hs ! i = snd (evs ! i)
        else esv_usr2em env (fst (evs ! i)) (snd (evs ! i)) cnt op rv = Inr (hs ! i))"
  unfolding esv_usr2em_multi_Inr list_all2_conv_all_nth usr2em_one_def by metis

theorem esv_usr2em_multi_pointwise_witness:
  "esv_usr2em_multi demo_env [(0x1234, demo_ref_hdr)] (cnt_vec 1 0 1) EVSTATE__SEND False = Inr [] \<longleftrightarrow>
     length ([] :: event_hdr list) = length [(0x1234 :: u64, demo_ref_hdr)] \<and>
     (\<forall>i<length [(0x1234 :: u64, demo_ref_hdr)].
        if event_type (snd ([(0x1234 :: u64, demo_ref_hdr)] ! i)) = EM_EVENT_TYPE_ODP
        then [] ! i = snd ([(0x1234 :: u64, demo_ref_hdr)] ! i)
        else esv_usr2em demo_env (fst ([(0x1234, demo_ref_hdr)] ! i))
          (snd ([(0x1234 :: u64, demo_ref_hdr)] ! i)) (cnt_vec 1 0 1) EVSTATE__SEND False = Inr ([] ! i))"
  by (rule esv_usr2em_multi_pointwise)

lemma evstate_error_report:
  "er_status (evstate_error env cnt e h op) = EM_FATAL EM_ERR_EVENT_STATE"
  "er_escope (evstate_error env cnt e h op) = ei_escope (evstate_info_tbl (er_op (evstate_error env cnt e h op)))"
  "er_status (evstate_unmark_error env h op) = EM_FATAL EM_ERR_EVENT_STATE"
  "er_escope (evstate_unmark_error env h op) = ei_escope (evstate_info_tbl (er_op (evstate_unmark_error env h op)))"
  by (simp_all add: evstate_error_def evstate_unmark_error_def esv_error_def)

end
