(* ===== verification/TableIter.thy ===== *)
theory TableIter
  imports Prelude
begin

text \<open>
  The iteration contract of the API: \<^verbatim>\<open>em_..._first\<close> and \<^verbatim>\<open>em_..._next\<close> walk a table of elements with
  a core-local index and return the handle of the next allocated element, or the undefined handle.
  The locale states what one call does; its lemmas say what a whole iteration visits.
\<close>

text \<open>The handles a loop \<^verbatim>\<open>for (h = first(); h != UNDEF; h = next())\<close> sees, with at most \<^verbatim>\<open>k\<close> rounds.\<close>

fun iterate :: "('i \<Rightarrow> 'h option \<times> 'i) \<Rightarrow> nat \<Rightarrow> 'h option \<times> 'i \<Rightarrow> 'h list" where
  "iterate nxt 0 r = []"
| "iterate nxt (Suc k) r = (case fst r of None \<Rightarrow> [] | Some h \<Rightarrow> h # iterate nxt k (nxt (snd r)))"

lemma filter_first_idx:
  "filter P [i..<i + k] =
    (case first_idx P i k of None \<Rightarrow> [] | Some j \<Rightarrow> j # filter P [Suc j..<i + k])"
proof (induction P i k rule: first_idx.induct)
  case (2 P i k)
  then show ?case by (auto simp: upt_rec [of i] simp del: upt_Suc split: option.splits)
qed simp

locale table_iter =
  fixes size :: nat
    and count :: nat
    and alloc :: "nat \<Rightarrow> bool"
    and hdl :: "nat \<Rightarrow> 'h"
    and first :: "'h option \<times> nat"
    and nxt :: "nat \<Rightarrow> 'h option \<times> nat"
  assumes first_empty: "count = 0 \<Longrightarrow> fst first = None"
    and first_None: "first_idx alloc 0 size = None \<Longrightarrow> fst first = None"
    and first_Some: "count \<noteq> 0 \<Longrightarrow> first_idx alloc 0 size = Some i \<Longrightarrow> first = (Some (hdl i), i)"
    and next_None: "j < size \<Longrightarrow> first_idx alloc (Suc j) (size - Suc j) = None \<Longrightarrow> fst (nxt j) = None"
    and next_Some: "j < size \<Longrightarrow> first_idx alloc (Suc j) (size - Suc j) = Some i \<Longrightarrow> nxt j = (Some (hdl i), i)"
begin

lemma iterate_next:
  assumes "j < size" "length (filter alloc [Suc j..<size]) \<le> k"
  shows "iterate nxt k (nxt j) = map hdl (filter alloc [Suc j..<size])"
  using assms
proof (induction k arbitrary: j)
  case 0
  then show ?case by simp
next
  case (Suc k)
  have f: "filter alloc [Suc j..<size] =
      (case first_idx alloc (Suc j) (size - Suc j) of None \<Rightarrow> [] | Some i \<Rightarrow> i # filter alloc [Suc i..<size])"
    using filter_first_idx [of alloc "Suc j" "size - Suc j"] Suc.prems(1)
    by (simp only: le_add_diff_inverse Suc_le_eq)
  show ?case
  proof (cases "first_idx alloc (Suc j) (size - Suc j)")
    case None
    then show ?thesis using f next_None [OF Suc.prems(1)] by simp
  next
    case (Some i)
    then have "i < size" using first_idx_SomeD [OF Some] Suc.prems(1) by simp
    then show ?thesis using Suc.IH [of i] Suc.prems f next_Some [OF Suc.prems(1) Some] Some by simp
  qed
qed

lemma iterate_all:
  assumes "count = 0 \<longleftrightarrow> (\<forall>i < size. \<not> alloc i)"
  shows "iterate nxt size first = map hdl (filter alloc [0..<size])"
proof (cases "first_idx alloc 0 size")
  case None
  have "filter alloc [0..<size] = []" using filter_first_idx [of alloc 0 size] None by simp
  with first_None [OF None] show ?thesis by (cases size) simp_all
next
  case (Some i)
  have i: "i < size" using first_idx_SomeD [OF Some] by simp
  have f: "filter alloc [0..<size] = i # filter alloc [Suc i..<size]"
    using filter_first_idx [of alloc 0 size] Some by simp
  have "length (filter alloc [Suc i..<size]) \<le> length [Suc i..<size]" by (rule length_filter_le)
  then have "length (filter alloc [Suc i..<size]) \<le> size - 1" by simp
  moreover have "count \<noteq> 0" using assms i first_idx_SomeD [OF Some] by auto
  ultimately show ?thesis
    using iterate_next [OF i, of "size - 1"] i f first_Some [OF _ Some] by (cases size) simp_all
qed

end

end
