(* ===== verification/EventGroup.thy ===== *)
theory EventGroup
  imports TableIter
begin

text \<open>
  Event groups: \<^verbatim>\<open>src/src/em_event_group_types.h\<close>, \<^verbatim>\<open>em_event_group.h\<close>, \<^verbatim>\<open>em_event_group.c\<close> and
  \<^verbatim>\<open>event_machine_event_group.c\<close>. The counters of a group are one 64-bit word of bit fields that every
  operation changes with a compare-and-swap loop. A loop body is a function from the loaded counters
  to an error or the new counters (names ending in \<^verbatim>\<open>_body\<close>); the sequential operations apply it
  once, the theory EventGroupConc interleaves the load and the swap of several cores.
\<close>

unbundle bit_operations_syntax

section \<open>Counters\<close>

definition EM_MAX_EVENT_GROUPS :: nat where "EM_MAX_EVENT_GROUPS = 1024"
definition EM_EVENT_GROUP_MAX_NOTIF :: nat where "EM_EVENT_GROUP_MAX_NOTIF = 6"
definition EM_EVENT_GROUP_UNDEF :: u64 where "EM_EVENT_GROUP_UNDEF = 0"
definition EGRP_CNT_MAX :: nat where "EGRP_CNT_MAX = 2 ^ 24 - 1"

text \<open>The bit fields have 24, 24, 1 and 15 bits: arithmetic on them wraps at their width.\<close>

record egrp_counter =
  pre_cnt :: "24 word"
  post_cnt :: "24 word"
  applied :: bool
  gen :: "15 word"

definition all_u64 :: "egrp_counter \<Rightarrow> u64" where
  "all_u64 c = ucast (pre_cnt c) + push_bit 24 (ucast (post_cnt c)) + push_bit 48 (of_bool (applied c))
     + push_bit 49 (ucast (gen c))"

definition counter_of_u64 :: "u64 \<Rightarrow> egrp_counter" where
  "counter_of_u64 u = \<lparr>pre_cnt = ucast u, post_cnt = ucast (drop_bit 24 u), applied = bit u 48,
     gen = ucast (drop_bit 49 u)\<rparr>"

record em_notif =
  nt_event :: u64
  nt_queue :: u64
  nt_egroup :: u64

record event_group_elem =
  counts :: egrp_counter
  eg_hdl :: u64
  in_stash :: bool
  num_notif :: int
  notif_tbl :: "em_notif list"

record egrp_conf =
  check_level :: nat
  safe_mode :: bool

text \<open>
  The core-local state: the current event group element (an index of the table), the generation it
  was set with, the number of events of the current receive call, whether the core is in an
  EO-receive call, and the iteration index of \<^verbatim>\<open>em_event_group_next\<close>.
\<close>

record egrp_locm =
  cur_egrp :: "nat option"
  cur_gen :: u32
  rcv_multi_cnt :: int
  in_receive :: bool
  iter_idx :: nat

text \<open>
  The stash of free groups is an ODP object. Its operations are parameters: \<^verbatim>\<open>st_get\<close> returns the
  number of values read (0, 1 or an error) with the value, \<^verbatim>\<open>st_put\<close> the number written.
\<close>

record 's stash_ops =
  st_get :: "'s \<Rightarrow> (int \<times> u32) \<times> 's"
  st_put :: "u32 \<Rightarrow> 's \<Rightarrow> int \<times> 's"
  st_destroy :: "'s \<Rightarrow> int"

record 's egrp_shm =
  egrp_tbl :: "event_group_elem list"
  egrp_stash :: 's
  egrp_count :: u32

section \<open>Handles\<close>

definition egrp_hdl2idx :: "u64 \<Rightarrow> u32" where
  "egrp_hdl2idx egrp = ucast (egrp - 1)"

definition egrp_idx2hdl :: "u32 \<Rightarrow> u64" where
  "egrp_idx2hdl idx = scast (idx + 1)"

definition event_group_elem_get :: "u64 \<Rightarrow> nat option" where
  "event_group_elem_get egrp =
     (let idx = unat (egrp_hdl2idx egrp)
      in if idx > EM_MAX_EVENT_GROUPS - 1 then None else Some idx)"

definition invalid_egrp :: "u64 \<Rightarrow> bool" where
  "invalid_egrp egrp \<longleftrightarrow> unat (egrp_hdl2idx egrp) \<ge> EM_MAX_EVENT_GROUPS"

definition event_group_allocated :: "event_group_elem \<Rightarrow> bool" where
  "event_group_allocated e \<longleftrightarrow> \<not> in_stash e"

definition upd_elem ::
  "nat \<Rightarrow> (event_group_elem \<Rightarrow> event_group_elem) \<Rightarrow> 's egrp_shm \<Rightarrow> 's egrp_shm" where
  "upd_elem i f s = s\<lparr>egrp_tbl := (egrp_tbl s)[i := f (egrp_tbl s ! i)]\<rparr>"

section \<open>Loop bodies on the counters\<close>

definition valid_pre_cnt :: "egrp_counter \<Rightarrow> nat \<Rightarrow> u32 \<Rightarrow> unit reported" where
  "valid_pre_cnt c decr event_gen =
     (if unat (pre_cnt c) < decr \<or> \<not> applied c \<or> ucast (gen c) \<noteq> event_gen
      then Inl (EM_ERR_BAD_ID, ''EVENT_GROUP_UPDATE_PRECNT'') else Inr ())"

definition pre_count_body :: "nat \<Rightarrow> u32 \<Rightarrow> egrp_counter \<Rightarrow> egrp_counter reported" where
  "pre_count_body decr event_gen c =
     (case valid_pre_cnt c decr event_gen of
        Inl e \<Rightarrow> Inl e
      | Inr _ \<Rightarrow> Inr (c\<lparr>pre_cnt := pre_cnt c - of_nat decr\<rparr>))"

text \<open>
  \<^verbatim>\<open>valid_post_cnt\<close> reports only while the group is applied; otherwise it fails silently, which is
  the right value \<^const>\<open>False\<close>.
\<close>

definition valid_post_cnt :: "egrp_counter \<Rightarrow> nat \<Rightarrow> u32 \<Rightarrow> bool reported" where
  "valid_post_cnt c decr egrp_gen =
     (if unat (post_cnt c) < decr \<or> ucast (gen c) \<noteq> egrp_gen
      then (if applied c then Inl (EM_ERR_BAD_ID, ''EVENT_GROUP_UPDATE_POSTCNT'') else Inr False)
      else Inr True)"

text \<open>The new counters, and whether this was the last event of the group.\<close>

definition post_count_body :: "nat \<Rightarrow> u32 \<Rightarrow> egrp_counter \<Rightarrow> (egrp_counter \<times> bool) option reported" where
  "post_count_body decr egrp_gen c =
     (case valid_post_cnt c decr egrp_gen of
        Inl e \<Rightarrow> Inl e
      | Inr False \<Rightarrow> Inr None
      | Inr True \<Rightarrow>
          let c1 = c\<lparr>post_cnt := post_cnt c - of_nat decr\<rparr>
          in Inr (Some (if post_cnt c1 = 0 then (c1\<lparr>applied := False\<rparr>, True) else (c1, False))))"

definition apply_body :: "egrp_conf \<Rightarrow> int \<Rightarrow> egrp_counter \<Rightarrow> egrp_counter reported" where
  "apply_body conf count c =
     (if applied c then Inl (EM_ERR_BAD_STATE, ''EVENT_GROUP_APPLY'')
      else Inr (c\<lparr>pre_cnt := (if safe_mode conf then of_int count else pre_cnt c),
                  post_cnt := of_int count, applied := True, gen := gen c + 1\<rparr>))"

definition increment_body :: "egrp_conf \<Rightarrow> u32 \<Rightarrow> u32 \<Rightarrow> egrp_counter \<Rightarrow> egrp_counter reported" where
  "increment_body conf incr cur c =
     (if ucast (gen c) \<noteq> cur \<or> \<not> applied c then Inl (EM_ERR_BAD_STATE, ''EVENT_GROUP_INCREMENT'')
      else if (safe_mode conf \<and> unat (ucast (pre_cnt c) + incr) > EGRP_CNT_MAX) \<or>
              unat (ucast (post_cnt c) + incr) > EGRP_CNT_MAX
           then Inl (EM_ERR_BAD_ARG, ''EVENT_GROUP_INCREMENT'')
      else Inr (c\<lparr>pre_cnt := (if safe_mode conf then pre_cnt c + ucast incr else pre_cnt c),
                  post_cnt := post_cnt c + ucast incr\<rparr>))"

definition assign_body :: "int \<Rightarrow> egrp_counter \<Rightarrow> egrp_counter reported" where
  "assign_body num_events c =
     (if int (unat (pre_cnt c)) < num_events \<or> \<not> applied c
      then Inl (EM_ERR_BAD_STATE, ''EVENT_GROUP_ASSIGN'')
      else Inr (c\<lparr>pre_cnt := pre_cnt c - of_int num_events\<rparr>))"

text \<open>Aborting a group that is not applied is not reported: the status is just returned.\<close>

definition abort_body :: "egrp_counter \<Rightarrow> egrp_counter option" where
  "abort_body c = (if \<not> applied c then None else Some (c\<lparr>pre_cnt := 0, post_cnt := 0, applied := False\<rparr>))"

section \<open>Table initialisation, allocation and release\<close>

definition zero_counter :: egrp_counter where
  "zero_counter = \<lparr>pre_cnt = 0, post_cnt = 0, applied = False, gen = 0\<rparr>"

definition zero_notif :: em_notif where
  "zero_notif = \<lparr>nt_event = 0, nt_queue = 0, nt_egroup = 0\<rparr>"

definition zero_elem :: event_group_elem where
  "zero_elem = \<lparr>counts = zero_counter, eg_hdl = 0, in_stash = False, num_notif = 0,
     notif_tbl = replicate EM_EVENT_GROUP_MAX_NOTIF zero_notif\<rparr>"

text \<open>
  The loop over the table: the number \<^verbatim>\<open>idx\<close> of elements put into the stash (the index at which a
  failing put left the loop, or the table size), the table and the stash.
\<close>

fun event_group_init_loop ::
  "'s stash_ops \<Rightarrow> nat \<Rightarrow> nat \<Rightarrow> event_group_elem list \<Rightarrow> 's \<Rightarrow>
   bool \<times> nat \<times> event_group_elem list \<times> 's" where
  "event_group_init_loop ops idx 0 tbl st = (True, idx, tbl, st)"
| "event_group_init_loop ops idx (Suc k) tbl st =
     (let e = (tbl ! idx)\<lparr>counts := zero_counter, eg_hdl := egrp_idx2hdl (of_nat idx),
                num_notif := 0, in_stash := True\<rparr>;
          (n, st') = st_put ops (of_nat idx) st
      in if n \<noteq> 1 then (False, idx, tbl[idx := e\<lparr>in_stash := False\<rparr>], st')
         else event_group_init_loop ops (Suc idx) k (tbl[idx := e]) st')"

fun event_group_init_undo ::
  "'s stash_ops \<Rightarrow> nat \<Rightarrow> nat \<Rightarrow> event_group_elem list \<Rightarrow> 's \<Rightarrow> event_group_elem list \<times> 's" where
  "event_group_init_undo ops i 0 tbl st = (tbl, st)"
| "event_group_init_undo ops i (Suc k) tbl st =
     (let (_, st') = st_get ops st
      in event_group_init_undo ops (Suc i) k
           (tbl[i := (tbl ! i)\<lparr>eg_hdl := EM_EVENT_GROUP_UNDEF, in_stash := False\<rparr>]) st')"

text \<open>
  \<^verbatim>\<open>capability\<close> is the result of \<^verbatim>\<open>odp_stash_capability\<close> (the maximum number of 32-bit objects),
  \<^verbatim>\<open>create\<close> that of \<^verbatim>\<open>odp_stash_create\<close>.
\<close>

definition event_group_init ::
  "'s stash_ops \<Rightarrow> nat option \<Rightarrow> 's option \<Rightarrow> 's egrp_shm \<Rightarrow> em_status_t \<times> 's egrp_shm" where
  "event_group_init ops capability create s =
     (case capability of
        None \<Rightarrow> (EM_ERR_LIB_FAILED, s)
      | Some max_num \<Rightarrow>
          if max_num < EM_MAX_EVENT_GROUPS then (EM_ERR_TOO_LARGE, s)
          else (let s1 = s\<lparr>egrp_tbl := replicate EM_MAX_EVENT_GROUPS zero_elem, egrp_count := 0\<rparr>
                in case create of
                     None \<Rightarrow> (EM_ERR_LIB_FAILED, s1)
                   | Some st0 \<Rightarrow>
                       let (ok, idx, tbl, st) =
                         event_group_init_loop ops 0 EM_MAX_EVENT_GROUPS (egrp_tbl s1) st0
                       in if ok then (EM_OK, s1\<lparr>egrp_tbl := tbl, egrp_stash := st\<rparr>)
                          else (let (tbl', _) = event_group_init_undo ops 0 idx tbl st
                                in (EM_ERR_LIB_FAILED, s1\<lparr>egrp_tbl := tbl'\<rparr>))))"

text \<open>Emptying the stash: the loop ends when a read returns 0 values or an error.\<close>

partial_function (option) stash_drain :: "('s \<Rightarrow> (int \<times> u32) \<times> 's) \<Rightarrow> 's \<Rightarrow> (int \<times> 's) option" where
  "stash_drain get st =
     (let ((num, tmp), st') = get st
      in if num = 1 then stash_drain get st' else Some (num, st'))"

definition event_group_term :: "'s stash_ops \<Rightarrow> 's egrp_shm \<Rightarrow> (em_status_t \<times> 's egrp_shm) option" where
  "event_group_term ops s =
     (case stash_drain (st_get ops) (egrp_stash s) of
        None \<Rightarrow> None
      | Some (num, st) \<Rightarrow>
          Some (if num \<noteq> 0 then EM_ERR_LIB_FAILED
                else if st_destroy ops st \<noteq> 0 then EM_ERR_LIB_FAILED else EM_OK,
                s\<lparr>egrp_stash := st\<rparr>))"

definition event_group_alloc :: "'s stash_ops \<Rightarrow> 's egrp_shm \<Rightarrow> u64 \<times> 's egrp_shm" where
  "event_group_alloc ops s =
     (let ((num, idx), st) = st_get ops (egrp_stash s);
          s1 = s\<lparr>egrp_stash := st\<rparr>
      in if num \<noteq> 1 then (EM_EVENT_GROUP_UNDEF, s1)
         else if unat idx \<ge> EM_MAX_EVENT_GROUPS then (EM_EVENT_GROUP_UNDEF, s1)
         else (egrp_idx2hdl idx,
               (upd_elem (unat idx) (\<lambda>e. e\<lparr>in_stash := False\<rparr>) s1)\<lparr>egrp_count := egrp_count s1 + 1\<rparr>))"

definition event_group_free :: "'s stash_ops \<Rightarrow> u64 \<Rightarrow> 's egrp_shm \<Rightarrow> em_status_t \<times> 's egrp_shm" where
  "event_group_free ops egrp s =
     (case event_group_elem_get egrp of
        None \<Rightarrow> (EM_ERR_BAD_ID, s)
      | Some i \<Rightarrow>
          if in_stash (egrp_tbl s ! i) then (EM_ERR_BAD_STATE, s)
          else (let s1 = upd_elem i (\<lambda>e. e\<lparr>in_stash := True\<rparr>) s;
                    (num, st) = st_put ops (egrp_hdl2idx egrp) (egrp_stash s1);
                    s2 = s1\<lparr>egrp_stash := st\<rparr>
                in if num \<noteq> 1 then (EM_ERR_LIB_FAILED, upd_elem i (\<lambda>e. e\<lparr>in_stash := False\<rparr>) s2)
                   else (EM_OK, s2\<lparr>egrp_count := egrp_count s2 - 1\<rparr>)))"

definition event_group_count :: "'s egrp_shm \<Rightarrow> u32" where
  "event_group_count s = egrp_count s"

section \<open>Iteration\<close>

definition em_event_group_first :: "'s egrp_shm \<Rightarrow> egrp_locm \<Rightarrow> (u64 \<times> u32) \<times> egrp_locm" where
  "em_event_group_first s l =
     (let num = event_group_count s
      in if num = 0 then ((EM_EVENT_GROUP_UNDEF, num), l\<lparr>iter_idx := EM_MAX_EVENT_GROUPS\<rparr>)
         else case first_idx (\<lambda>i. event_group_allocated (egrp_tbl s ! i)) 0 EM_MAX_EVENT_GROUPS of
                None \<Rightarrow> ((EM_EVENT_GROUP_UNDEF, num), l\<lparr>iter_idx := EM_MAX_EVENT_GROUPS\<rparr>)
              | Some i \<Rightarrow> ((egrp_idx2hdl (of_nat i), num), l\<lparr>iter_idx := i\<rparr>))"

definition em_event_group_next :: "'s egrp_shm \<Rightarrow> egrp_locm \<Rightarrow> u64 \<times> egrp_locm" where
  "em_event_group_next s l =
     (if iter_idx l \<ge> EM_MAX_EVENT_GROUPS - 1 then (EM_EVENT_GROUP_UNDEF, l)
      else (let i0 = Suc (iter_idx l)
            in case first_idx (\<lambda>i. event_group_allocated (egrp_tbl s ! i)) i0 (EM_MAX_EVENT_GROUPS - i0) of
                 None \<Rightarrow> (EM_EVENT_GROUP_UNDEF, l\<lparr>iter_idx := EM_MAX_EVENT_GROUPS\<rparr>)
               | Some i \<Rightarrow> (egrp_idx2hdl (of_nat i), l\<lparr>iter_idx := i\<rparr>)))"

definition em_event_group_to_u64 :: "u64 \<Rightarrow> u64" where
  "em_event_group_to_u64 egrp = egrp"

section \<open>The core-local current event group\<close>

definition em_event_group_current :: "'s egrp_shm \<Rightarrow> egrp_locm \<Rightarrow> u64" where
  "em_event_group_current s l =
     (case cur_egrp l of None \<Rightarrow> EM_EVENT_GROUP_UNDEF | Some i \<Rightarrow> eg_hdl (egrp_tbl s ! i))"

definition save_current_evgrp :: "egrp_locm \<Rightarrow> nat option \<times> u32" where
  "save_current_evgrp l = (cur_egrp l, cur_gen l)"

definition restore_current_evgrp :: "nat option \<times> u32 \<Rightarrow> egrp_locm \<Rightarrow> egrp_locm" where
  "restore_current_evgrp saved l = l\<lparr>cur_egrp := fst saved, cur_gen := snd saved\<rparr>"

definition event_group_set_local ::
  "egrp_conf \<Rightarrow> u64 \<Rightarrow> u32 \<Rightarrow> nat \<Rightarrow> 's egrp_shm \<Rightarrow> egrp_locm \<Rightarrow>
   unit reported \<times> 's egrp_shm \<times> egrp_locm" where
  "event_group_set_local conf egrp event_gen decr s l =
     (if egrp = EM_EVENT_GROUP_UNDEF then (Inr (), s, l)
      else case event_group_elem_get egrp of
        None \<Rightarrow> (Inr (), s, l)
      | Some i \<Rightarrow>
          let l' = l\<lparr>cur_egrp := Some i, cur_gen := event_gen\<rparr>
          in if safe_mode conf
             then (case pre_count_body decr event_gen (counts (egrp_tbl s ! i)) of
                     Inl e \<Rightarrow> (Inl e, s, l\<lparr>cur_egrp := None\<rparr>)
                   | Inr c \<Rightarrow> (Inr (), upd_elem i (\<lambda>e. e\<lparr>counts := c\<rparr>) s, l'))
             else (Inr (), s, l'))"

section \<open>Notifications\<close>

datatype notif_action = ActSend u64 u64 | ActSendGroup u64 u64 u64 | ActFree u64

text \<open>
  \<^verbatim>\<open>send_notifs\<close>: \<^verbatim>\<open>snd_status\<close> gives the status \<^verbatim>\<open>em_send\<close> or \<^verbatim>\<open>em_send_group\<close> returns for a
  notification. The result is the first error, and the calls made in order.
\<close>

fun send_notifs_loop ::
  "(em_notif \<Rightarrow> em_status_t) \<Rightarrow> em_notif list \<Rightarrow> em_status_t \<Rightarrow> em_status_t \<times> notif_action list" where
  "send_notifs_loop snd_status [] ret = (ret, [])"
| "send_notifs_loop snd_status (n # ns) ret =
     (let send = (if invalid_egrp (nt_egroup n) then ActSend (nt_event n) (nt_queue n)
                  else ActSendGroup (nt_event n) (nt_queue n) (nt_egroup n));
          err = snd_status n;
          ret' = (if err \<noteq> EM_OK \<and> ret = EM_OK then err else ret);
          (r, acts) = send_notifs_loop snd_status ns ret'
      in (r, send # (if err \<noteq> EM_OK then [ActFree (nt_event n)] else []) @ acts))"

definition send_notifs ::
  "(em_notif \<Rightarrow> em_status_t) \<Rightarrow> em_notif list \<Rightarrow> em_status_t \<times> notif_action list" where
  "send_notifs snd_status ns = send_notifs_loop snd_status ns EM_OK"

text \<open>
  \<^verbatim>\<open>check_notif\<close>: \<^verbatim>\<open>q_external\<close> and \<^verbatim>\<open>q_allocated\<close> are the queue look-ups of \<^verbatim>\<open>em_queue_inline.h\<close>
  (the second is false for a NULL queue element).
\<close>

definition check_notif ::
  "(u64 \<Rightarrow> bool) \<Rightarrow> (u64 \<Rightarrow> bool) \<Rightarrow> 's egrp_shm \<Rightarrow> em_notif \<Rightarrow> em_status_t" where
  "check_notif q_external q_allocated s n =
     (if nt_event n = 0 then EM_ERR_BAD_POINTER
      else if \<not> q_external (nt_queue n) \<and> \<not> q_allocated (nt_queue n) then EM_ERR_NOT_FOUND
      else if nt_egroup n \<noteq> EM_EVENT_GROUP_UNDEF
      then (case event_group_elem_get (nt_egroup n) of
              None \<Rightarrow> EM_ERR_BAD_ID
            | Some i \<Rightarrow> if \<not> event_group_allocated (egrp_tbl s ! i) then EM_ERR_BAD_ID else EM_OK)
      else EM_OK)"

fun check_notif_loop :: "(em_notif \<Rightarrow> em_status_t) \<Rightarrow> em_notif list \<Rightarrow> em_status_t" where
  "check_notif_loop chk [] = EM_OK"
| "check_notif_loop chk (n # ns) =
     (let err = chk n in if err \<noteq> EM_OK then err else check_notif_loop chk ns)"

definition check_notif_tbl ::
  "(u64 \<Rightarrow> bool) \<Rightarrow> (u64 \<Rightarrow> bool) \<Rightarrow> 's egrp_shm \<Rightarrow> int \<Rightarrow> em_notif list option \<Rightarrow> em_status_t" where
  "check_notif_tbl q_external q_allocated s n tbl =
     (if unat (word_of_int n :: u32) > EM_EVENT_GROUP_MAX_NOTIF then EM_ERR_TOO_LARGE
      else case tbl of
        None \<Rightarrow> if n > 0 then EM_ERR_BAD_POINTER else EM_OK
      | Some ns \<Rightarrow> check_notif_loop (check_notif q_external q_allocated s) (take (nat n) ns))"

definition post_count_decrement ::
  "nat \<Rightarrow> nat \<Rightarrow> 's egrp_shm \<Rightarrow> egrp_locm \<Rightarrow> em_notif list reported \<times> 's egrp_shm" where
  "post_count_decrement i decr s l =
     (let e = egrp_tbl s ! i
      in case post_count_body decr (cur_gen l) (counts e) of
           Inl r \<Rightarrow> (Inl r, s)
         | Inr None \<Rightarrow> (Inr [], s)
         | Inr (Some (c, is_last)) \<Rightarrow>
             (Inr (if is_last then take (nat (min (num_notif e) (int EM_EVENT_GROUP_MAX_NOTIF))) (notif_tbl e)
                   else []),
              upd_elem i (\<lambda>e. e\<lparr>counts := c\<rparr>) s))"

definition event_group_count_decrement ::
  "(em_notif \<Rightarrow> em_status_t) \<Rightarrow> nat \<Rightarrow> nat \<Rightarrow> 's egrp_shm \<Rightarrow> egrp_locm \<Rightarrow>
   unit reported \<times> notif_action list \<times> 's egrp_shm" where
  "event_group_count_decrement snd_status decr i s l =
     (case post_count_decrement i decr s l of
        (Inl r, s') \<Rightarrow> (Inl r, [], s')
      | (Inr ns, s') \<Rightarrow>
          if ns \<noteq> []
          then (let (ret, acts) = send_notifs snd_status ns
                in (if ret \<noteq> EM_OK then Inl (ret, ''EVENT_GROUP_UPDATE'') else Inr (), acts, s'))
          else (Inr (), [], s'))"

section \<open>The API\<close>

definition em_event_group_create ::
  "'s stash_ops \<Rightarrow> 's egrp_shm \<Rightarrow> egrp_locm \<Rightarrow> u64 reported \<times> 's egrp_shm \<times> egrp_locm" where
  "em_event_group_create ops s l =
     (let (egrp, s1) = event_group_alloc ops s
      in if egrp = EM_EVENT_GROUP_UNDEF
         then (Inl (EM_ERR_ALLOC_FAILED, ''EVENT_GROUP_CREATE''), s1, snd (em_event_group_first s1 l))
         else case event_group_elem_get egrp of
                None \<Rightarrow> (Inl null_deref, s1, l)
              | Some i \<Rightarrow>
                  (Inr egrp,
                   upd_elem i (\<lambda>e. e\<lparr>counts := (counts e)\<lparr>pre_cnt := 0, post_cnt := 0, applied := False\<rparr>\<rparr>) s1,
                   l))"

definition em_event_group_delete ::
  "'s stash_ops \<Rightarrow> u64 \<Rightarrow> 's egrp_shm \<Rightarrow> em_status_t reported \<times> 's egrp_shm" where
  "em_event_group_delete ops egrp s =
     (let bad_arg = (Inl (EM_ERR_BAD_ARG, ''EVENT_GROUP_DELETE''), s)
      in case event_group_elem_get egrp of
        None \<Rightarrow> bad_arg
      | Some i \<Rightarrow>
          if \<not> event_group_allocated (egrp_tbl s ! i) then bad_arg
          else if applied (counts (egrp_tbl s ! i)) then (Inl (EM_ERR_BAD_STATE, ''EVENT_GROUP_DELETE''), s)
          else (let (status, s2) = event_group_free ops egrp (upd_elem i (\<lambda>e. e\<lparr>num_notif := 0\<rparr>) s)
                in (if status \<noteq> EM_OK then Inl (status, ''EVENT_GROUP_DELETE'') else Inr EM_OK, s2)))"

text \<open>
  The checks of \<^verbatim>\<open>em_event_group_apply\<close> in the order of the source; \<^const>\<open>None\<close> when all pass. The
  check of \<^verbatim>\<open>count\<close> belongs to level 1, of the allocation to level 2, of the table to level 3.
\<close>

definition apply_checks ::
  "egrp_conf \<Rightarrow> (int \<Rightarrow> em_notif list option \<Rightarrow> em_status_t) \<Rightarrow> u64 \<Rightarrow> int \<Rightarrow> int \<Rightarrow> em_notif list option \<Rightarrow>
   's egrp_shm \<Rightarrow> (em_status_t \<times> em_escope_t) option" where
  "apply_checks conf chk_tbl egrp count n tbl s =
     (let elem = event_group_elem_get egrp
      in if check_level conf > 0 \<and> (elem = None \<or> count \<le> 0 \<or> count > int EGRP_CNT_MAX)
         then Some (EM_ERR_BAD_ARG, ''EVENT_GROUP_APPLY'')
         else if check_level conf \<ge> 2 \<and> (case elem of None \<Rightarrow> False | Some i \<Rightarrow>
                   \<not> event_group_allocated (egrp_tbl s ! i))
         then Some (EM_ERR_NOT_CREATED, ''EVENT_GROUP_APPLY'')
         else if check_level conf \<ge> 3 \<and> chk_tbl n tbl \<noteq> EM_OK
         then Some (chk_tbl n tbl, ''EVENT_GROUP_APPLY'')
         else None)"

text \<open>The copy into the fixed-size table; reading or writing past a table is undefined.\<close>

definition copy_notifs :: "int \<Rightarrow> em_notif list option \<Rightarrow> em_notif list \<Rightarrow> em_notif list option" where
  "copy_notifs n src dst =
     (if n \<le> 0 then Some dst
      else case src of
        None \<Rightarrow> None
      | Some ns \<Rightarrow>
          if nat n \<le> length ns \<and> nat n \<le> length dst then Some (take (nat n) ns @ drop (nat n) dst) else None)"

definition em_event_group_apply ::
  "egrp_conf \<Rightarrow> (int \<Rightarrow> em_notif list option \<Rightarrow> em_status_t) \<Rightarrow> u64 \<Rightarrow> int \<Rightarrow> int \<Rightarrow> em_notif list option \<Rightarrow>
   's egrp_shm \<Rightarrow> em_status_t reported \<times> 's egrp_shm" where
  "em_event_group_apply conf chk_tbl egrp count n tbl s =
     (case apply_checks conf chk_tbl egrp count n tbl s of
        Some e \<Rightarrow> (Inl e, s)
      | None \<Rightarrow>
        (case event_group_elem_get egrp of
           None \<Rightarrow> (Inl null_deref, s)
         | Some i \<Rightarrow>
           (case apply_body conf count (counts (egrp_tbl s ! i)) of
              Inl e \<Rightarrow> (Inl e, s)
            | Inr c \<Rightarrow>
              (case copy_notifs n tbl (notif_tbl (egrp_tbl s ! i)) of
                 None \<Rightarrow> (Inl table_overrun, s)
               | Some nt \<Rightarrow>
                   (Inr EM_OK, upd_elem i (\<lambda>e. e\<lparr>num_notif := n, notif_tbl := nt, counts := c\<rparr>) s)))))"

definition em_event_group_increment ::
  "egrp_conf \<Rightarrow> int \<Rightarrow> 's egrp_shm \<Rightarrow> egrp_locm \<Rightarrow> em_status_t reported \<times> 's egrp_shm" where
  "em_event_group_increment conf count s l =
     (let egrp = em_event_group_current s l;
          elem = (if egrp \<noteq> EM_EVENT_GROUP_UNDEF then cur_egrp l else None)
      in case elem of
           None \<Rightarrow> (Inl (EM_ERR_BAD_ID, ''EVENT_GROUP_INCREMENT''), s)
         | Some i \<Rightarrow>
             if count \<le> 0 \<or> count > int EGRP_CNT_MAX - 1
             then (Inl (EM_ERR_BAD_ARG, ''EVENT_GROUP_INCREMENT''), s)
             else if check_level conf \<ge> 2 \<and> \<not> event_group_allocated (egrp_tbl s ! i)
             then (Inl (EM_ERR_BAD_STATE, ''EVENT_GROUP_INCREMENT''), s)
             else case increment_body conf (word_of_int count) (cur_gen l) (counts (egrp_tbl s ! i)) of
                    Inl e \<Rightarrow> (Inl e, s)
                  | Inr c \<Rightarrow> (Inr EM_OK, upd_elem i (\<lambda>e. e\<lparr>counts := c\<rparr>) s))"

definition em_event_group_is_ready :: "egrp_conf \<Rightarrow> u64 \<Rightarrow> 's egrp_shm \<Rightarrow> bool reported" where
  "em_event_group_is_ready conf egrp s =
     (case event_group_elem_get egrp of
        None \<Rightarrow> if check_level conf > 0 then Inl (EM_ERR_BAD_ARG, ''EVENT_GROUP_IS_READY'') else Inl null_deref
      | Some i \<Rightarrow>
          if check_level conf \<ge> 2 \<and> \<not> event_group_allocated (egrp_tbl s ! i)
          then Inl (EM_ERR_NOT_CREATED, ''EVENT_GROUP_IS_READY'')
          else Inr (\<not> applied (counts (egrp_tbl s ! i))))"

definition em_event_group_processing_end ::
  "(em_notif \<Rightarrow> em_status_t) \<Rightarrow> 's egrp_shm \<Rightarrow> egrp_locm \<Rightarrow>
   unit reported \<times> notif_action list \<times> 's egrp_shm \<times> egrp_locm" where
  "em_event_group_processing_end snd_status s l =
     (case cur_egrp l of
        None \<Rightarrow> (Inr (), [], s, l)
      | Some i \<Rightarrow>
          let (r, acts, s') =
            event_group_count_decrement snd_status (unat (word_of_int (rcv_multi_cnt l) :: u32)) i s l
          in (r, acts, s', l\<lparr>cur_egrp := None\<rparr>))"

definition em_event_group_assign ::
  "egrp_conf \<Rightarrow> u64 \<Rightarrow> 's egrp_shm \<Rightarrow> egrp_locm \<Rightarrow> em_status_t reported \<times> 's egrp_shm \<times> egrp_locm" where
  "em_event_group_assign conf egrp s l =
     (let num_events = rcv_multi_cnt l; elem = event_group_elem_get egrp;
          err = (\<lambda>st. (Inl (st, ''EVENT_GROUP_ASSIGN''), s, l))
      in if check_level conf > 0 \<and> elem = None then err EM_ERR_BAD_ARG
         else if check_level conf \<ge> 2 \<and> (case elem of None \<Rightarrow> False | Some i \<Rightarrow>
                   \<not> event_group_allocated (egrp_tbl s ! i)) then err EM_ERR_NOT_CREATED
         else if check_level conf \<ge> 2 \<and> (\<not> in_receive l \<or> num_events \<le> 0) then err EM_ERR_TOO_SMALL
         else if cur_egrp l \<noteq> None then err EM_ERR_BAD_CONTEXT
         else case elem of
           None \<Rightarrow> (Inl null_deref, s, l)
         | Some i \<Rightarrow>
             (let c = counts (egrp_tbl s ! i)
              in if \<not> safe_mode conf
                 then (if \<not> applied c then err EM_ERR_BAD_STATE
                       else (Inr EM_OK, s, l\<lparr>cur_egrp := Some i, cur_gen := ucast (gen c)\<rparr>))
                 else case assign_body num_events c of
                        Inl e \<Rightarrow> (Inl e, s, l)
                      | Inr c' \<Rightarrow> (Inr EM_OK, upd_elem i (\<lambda>e. e\<lparr>counts := c'\<rparr>) s,
                                  l\<lparr>cur_egrp := Some i, cur_gen := ucast (gen c')\<rparr>)))"

definition em_event_group_abort ::
  "egrp_conf \<Rightarrow> u64 \<Rightarrow> 's egrp_shm \<Rightarrow> egrp_locm \<Rightarrow> em_status_t reported \<times> 's egrp_shm \<times> egrp_locm" where
  "em_event_group_abort conf egrp s l =
     (case event_group_elem_get egrp of
        None \<Rightarrow> (Inl (if check_level conf > 0 then (EM_ERR_BAD_ARG, ''EVENT_GROUP_ABORT'') else null_deref), s, l)
      | Some i \<Rightarrow>
          if check_level conf \<ge> 2 \<and> \<not> event_group_allocated (egrp_tbl s ! i)
          then (Inl (EM_ERR_NOT_CREATED, ''EVENT_GROUP_ABORT''), s, l)
          else case abort_body (counts (egrp_tbl s ! i)) of
                 None \<Rightarrow> (Inr EM_ERR_BAD_STATE, s, l)
               | Some c \<Rightarrow> (Inr EM_OK, upd_elem i (\<lambda>e. e\<lparr>counts := c\<rparr>) s,
                           if cur_egrp l = Some i then l\<lparr>cur_egrp := None\<rparr> else l))"

text \<open>\<^verbatim>\<open>tbl_given\<close> is false for a NULL \<^verbatim>\<open>notif_tbl\<close>; the result is what was written to it.\<close>

definition em_event_group_notif ::
  "egrp_conf \<Rightarrow> u64 \<Rightarrow> int \<Rightarrow> bool \<Rightarrow> 's egrp_shm \<Rightarrow> em_notif list reported" where
  "em_event_group_notif conf egrp max_notif tbl_given s =
     (let elem = event_group_elem_get egrp
      in if check_level conf > 0 \<and> (elem = None \<or> max_notif < 0)
         then Inl (EM_ERR_BAD_ARG, ''EVENT_GROUP_NOTIF'')
         else if check_level conf \<ge> 2 \<and> (case elem of None \<Rightarrow> False | Some i \<Rightarrow>
                   \<not> event_group_allocated (egrp_tbl s ! i)) then Inl (EM_ERR_NOT_CREATED, ''EVENT_GROUP_NOTIF'')
         else if max_notif = 0 then Inr []
         else if \<not> tbl_given then Inl (EM_ERR_BAD_POINTER, ''EVENT_GROUP_NOTIF'')
         else case elem of
           None \<Rightarrow> Inl null_deref
         | Some i \<Rightarrow>
             (let e = egrp_tbl s ! i
              in if applied (counts e)
                 then Inr (take (nat (if max_notif < num_notif e then max_notif else num_notif e)) (notif_tbl e))
                 else Inr []))"

section \<open>Tagging events\<close>

definition egrp_tag_event :: "nat option \<Rightarrow> 's egrp_shm \<Rightarrow> u64 \<times> u32 \<Rightarrow> u64 \<times> u32" where
  "egrp_tag_event elem s hdr =
     (case elem of
        Some i \<Rightarrow> (eg_hdl (egrp_tbl s ! i), ucast (gen (counts (egrp_tbl s ! i))))
      | None \<Rightarrow> (EM_EVENT_GROUP_UNDEF, snd hdr))"

definition egrp_tag_events_multi ::
  "u64 \<Rightarrow> nat option \<Rightarrow> 's egrp_shm \<Rightarrow> (u64 \<times> u32) list \<Rightarrow> (u64 \<times> u32) list" where
  "egrp_tag_events_multi egrp elem s hdrs =
     (let hdrs1 = map (\<lambda>(_, g). (egrp, g)) hdrs
      in case elem of
           None \<Rightarrow> hdrs1
         | Some i \<Rightarrow> map (\<lambda>(e, _). (e, ucast (gen (counts (egrp_tbl s ! i))))) hdrs1)"

section \<open>Counter arithmetic\<close>

lemma unat_sub24: "unat b \<le> unat a \<Longrightarrow> unat ((a :: 24 word) - b) = unat a - unat b"
  by (simp add: unat_sub word_le_nat_alt)

lemma unat_of_nat24: "n < 2 ^ 24 \<Longrightarrow> unat (of_nat n :: 24 word) = n"
  by (simp add: unat_of_nat_small)

lemma unat_24_lt: "unat (a :: 24 word) < 16777216"
  using unat_lt_len [of a] by simp

lemma unat_sub_decr:
  "decr \<le> unat a \<Longrightarrow> unat ((a :: 24 word) - of_nat decr) = unat a - decr"
  using unat_24_lt [of a] by (subst unat_sub24) (simp_all add: unat_of_nat24)

lemma post_count_body_cases:
  "post_count_body decr g c =
    (if unat (post_cnt c) < decr \<or> ucast (gen c) \<noteq> g
     then (if applied c then Inl (EM_ERR_BAD_ID, ''EVENT_GROUP_UPDATE_POSTCNT'') else Inr None)
     else if unat (post_cnt c) = decr
     then Inr (Some (c\<lparr>post_cnt := 0, applied := False\<rparr>, True))
     else Inr (Some (c\<lparr>post_cnt := post_cnt c - of_nat decr\<rparr>, False)))"
proof (cases "unat (post_cnt c) < decr \<or> ucast (gen c) \<noteq> g")
  case True
  then show ?thesis by (auto simp: post_count_body_def valid_post_cnt_def)
next
  case False
  then have "unat (post_cnt c - of_nat decr) = unat (post_cnt c) - decr"
    by (simp add: unat_sub_decr)
  then have "post_cnt c - of_nat decr = 0 \<longleftrightarrow> unat (post_cnt c) = decr"
    using False by (subst unat_zero_iff [symmetric]) auto
  with False show ?thesis
    by (auto simp: post_count_body_def valid_post_cnt_def Let_def)
qed

lemma add24_no_wrap:
  fixes x :: "24 word" and incr :: u32
  assumes "unat (ucast x + incr) \<le> EGRP_CNT_MAX" "unat incr \<le> EGRP_CNT_MAX"
  shows "unat (x + ucast incr) = unat x + unat incr"
proof -
  have x: "unat (ucast x :: u32) = unat x" by (rule unat_ucast_up) simp
  have "unat (ucast x + incr) = unat x + unat incr"
    using unat_24_lt [of x] assms(2) x by (subst unat_add_no_wrap) (simp_all add: EGRP_CNT_MAX_def)
  then have le: "unat x + unat incr < 2 ^ 24" using assms(1) by (simp add: EGRP_CNT_MAX_def)
  have i: "unat (ucast incr :: 24 word) = unat incr"
    unfolding ucast_of_nat by (rule unat_of_nat_small) (use le in simp)
  show ?thesis using le i by (subst unat_add_no_wrap) simp_all
qed

lemma increment_body_Inr:
  assumes "increment_body conf incr cur c = Inr c'" "unat incr \<le> EGRP_CNT_MAX"
  shows "unat (post_cnt c') = unat (post_cnt c) + unat incr"
    and "safe_mode conf \<Longrightarrow> unat (pre_cnt c') = unat (pre_cnt c) + unat incr"
    and "\<not> safe_mode conf \<Longrightarrow> pre_cnt c' = pre_cnt c"
    and "applied c \<and> applied c' \<and> gen c' = gen c \<and> ucast (gen c) = cur"
  using assms add24_no_wrap [of "post_cnt c" incr] add24_no_wrap [of "pre_cnt c" incr]
  by (auto simp: increment_body_def split: if_splits)

lemma count_word:
  assumes "0 < count" "count \<le> int EGRP_CNT_MAX"
  shows "unat (of_int count :: 24 word) = nat count" "(of_int count :: 24 word) \<noteq> 0"
    "unat (word_of_int count :: u32) = nat count"
proof -
  have c: "int (nat count) = count" "nat count < 2 ^ 24"
    using assms by (simp_all add: EGRP_CNT_MAX_def)
  have "(of_int count :: 24 word) = of_nat (nat count)" "(word_of_int count :: u32) = of_nat (nat count)"
    using c(1) by (metis of_int_of_nat_eq)+
  then show "unat (of_int count :: 24 word) = nat count" "unat (word_of_int count :: u32) = nat count"
    using c(2) by (simp_all add: unat_of_nat_small)
  then show "(of_int count :: 24 word) \<noteq> 0"
    using assms(1) by (metis nat_0_iff not_le unsigned_0)
qed

section \<open>Well-formed tables\<close>

definition cnt_wf :: "egrp_counter \<Rightarrow> bool" where
  "cnt_wf c \<longleftrightarrow> (applied c \<longleftrightarrow> post_cnt c \<noteq> 0)"

definition elem_wf :: "nat \<Rightarrow> event_group_elem \<Rightarrow> bool" where
  "elem_wf i e \<longleftrightarrow> cnt_wf (counts e) \<and> eg_hdl e = egrp_idx2hdl (of_nat i) \<and>
     length (notif_tbl e) = EM_EVENT_GROUP_MAX_NOTIF \<and> num_notif e \<le> int EM_EVENT_GROUP_MAX_NOTIF"

definition tbl_wf :: "'s egrp_shm \<Rightarrow> bool" where
  "tbl_wf s \<longleftrightarrow> length (egrp_tbl s) = EM_MAX_EVENT_GROUPS \<and>
     (\<forall>i<EM_MAX_EVENT_GROUPS. elem_wf i (egrp_tbl s ! i))"

definition locm_wf :: "egrp_locm \<Rightarrow> bool" where
  "locm_wf l \<longleftrightarrow> (case cur_egrp l of None \<Rightarrow> True | Some i \<Rightarrow> i < EM_MAX_EVENT_GROUPS)"

lemma elem_get_lt: "event_group_elem_get egrp = Some i \<Longrightarrow> i < EM_MAX_EVENT_GROUPS"
  by (auto simp: event_group_elem_get_def Let_def EM_MAX_EVENT_GROUPS_def split: if_splits)

lemma upd_elem_sel [simp]:
  "egrp_stash (upd_elem i f s) = egrp_stash s"
  "egrp_count (upd_elem i f s) = egrp_count s"
  "egrp_tbl (upd_elem i f s) = (egrp_tbl s)[i := f (egrp_tbl s ! i)]"
  by (simp_all add: upd_elem_def)

lemma tbl_wf_elem: "tbl_wf s \<Longrightarrow> i < EM_MAX_EVENT_GROUPS \<Longrightarrow> elem_wf i (egrp_tbl s ! i)"
  by (simp add: tbl_wf_def)

lemma tbl_wf_upd:
  "tbl_wf s \<Longrightarrow> (\<And>e. elem_wf i e \<Longrightarrow> elem_wf i (f e)) \<Longrightarrow> tbl_wf (upd_elem i f s)"
  by (cases "i < length (egrp_tbl s)") (auto simp: tbl_wf_def nth_list_update list_update_beyond)

lemma elem_wf_simps [simp]:
  "elem_wf i (e\<lparr>in_stash := b\<rparr>) = elem_wf i e"
  "elem_wf i e \<Longrightarrow> elem_wf i (e\<lparr>num_notif := 0\<rparr>)"
  by (simp_all add: elem_wf_def)

lemma tbl_wf_counts:
  assumes "tbl_wf s" "cnt_wf c"
  shows "tbl_wf (upd_elem i (\<lambda>e. e\<lparr>counts := c\<rparr>) s)"
  by (rule tbl_wf_upd [OF assms(1)]) (simp add: elem_wf_def assms(2))

lemma tbl_wf_cnt: "tbl_wf s \<Longrightarrow> i < EM_MAX_EVENT_GROUPS \<Longrightarrow> cnt_wf (counts (egrp_tbl s ! i))"
  by (simp add: tbl_wf_def elem_wf_def)

lemma tbl_wf_other [simp]:
  "tbl_wf (s\<lparr>egrp_stash := st\<rparr>) = tbl_wf s" "tbl_wf (s\<lparr>egrp_count := n\<rparr>) = tbl_wf s"
  by (simp_all add: tbl_wf_def)

lemma elem_wf_counts:
  "elem_wf i e \<Longrightarrow> cnt_wf c \<Longrightarrow> elem_wf i (e\<lparr>counts := c\<rparr>)"
  by (simp add: elem_wf_def)

lemma post_count_wf:
  "cnt_wf c \<Longrightarrow> 0 < decr \<Longrightarrow> post_count_body decr g c = Inr (Some (c', is_last)) \<Longrightarrow> cnt_wf c'"
proof -
  assume a: "cnt_wf c" "0 < decr" "post_count_body decr g c = Inr (Some (c', is_last))"
  have "post_cnt c - of_nat decr \<noteq> 0" if "\<not> unat (post_cnt c) < decr" "unat (post_cnt c) \<noteq> decr"
    using that unat_sub_decr [of decr "post_cnt c"] by (subst unat_zero_iff [symmetric]) simp
  moreover have "post_cnt c \<noteq> 0" if "\<not> unat (post_cnt c) < decr"
    using that a(2) by (metis not_less_eq_eq not_less_zero unsigned_0 linorder_not_less)
  ultimately show "cnt_wf c'"
    using a by (auto simp: post_count_body_cases cnt_wf_def split: if_splits)
qed

lemma bodies_wf:
  "cnt_wf c \<Longrightarrow> pre_count_body decr g c = Inr c' \<Longrightarrow> cnt_wf c'"
  "cnt_wf c \<Longrightarrow> assign_body n c = Inr c' \<Longrightarrow> cnt_wf c'"
  "cnt_wf c \<Longrightarrow> abort_body c = Some c' \<Longrightarrow> cnt_wf c'"
  "0 < count \<Longrightarrow> count \<le> int EGRP_CNT_MAX \<Longrightarrow> apply_body conf count c = Inr c' \<Longrightarrow> cnt_wf c'"
  using count_word(2) [of count]
  by (auto simp: cnt_wf_def pre_count_body_def valid_pre_cnt_def assign_body_def abort_body_def
      apply_body_def split: if_splits)

lemma increment_wf:
  assumes "increment_body conf incr cur c = Inr c'" "unat incr \<le> EGRP_CNT_MAX" "0 < incr"
  shows "cnt_wf c'"
proof -
  have "0 < unat incr" using assms(3) by (simp add: word_less_nat_alt)
  then have "unat (post_cnt c') \<noteq> 0" using increment_body_Inr(1) [OF assms(1,2)] by simp
  then show ?thesis using increment_body_Inr(4) [OF assms(1,2)] by (auto simp: cnt_wf_def)
qed

section \<open>Calls of several cores\<close>

text \<open>
  The operations as calls by a core; the cores share the table and have their own local state. The
  check level is at least 1, so that \<^verbatim>\<open>em_event_group_apply\<close> rejects a count outside
  \<^verbatim>\<open>1 .. EGRP_CNT_MAX\<close>; decrements are positive, as in a receive call with events.
\<close>

datatype egrp_call =
    EgCreate
  | EgDelete u64
  | EgApply u64 int int "em_notif list option"
  | EgIncrement int
  | EgSetLocal u64 u32 nat
  | EgProcessingEnd
  | EgAssign u64
  | EgAbort u64

record 's egrp_env =
  env_stash :: "'s stash_ops"
  env_conf :: egrp_conf
  env_send :: "em_notif \<Rightarrow> em_status_t"
  env_chk :: "int \<Rightarrow> em_notif list option \<Rightarrow> em_status_t"

fun egrp_do ::
  "'s egrp_env \<Rightarrow> egrp_call \<Rightarrow> 's egrp_shm \<times> egrp_locm \<Rightarrow> notif_action list \<times> 's egrp_shm \<times> egrp_locm" where
  "egrp_do env EgCreate (s, l) = (let (r, s', l') = em_event_group_create (env_stash env) s l in ([], s', l'))"
| "egrp_do env (EgDelete g) (s, l) = (let (r, s') = em_event_group_delete (env_stash env) g s in ([], s', l))"
| "egrp_do env (EgApply g c n t) (s, l) =
     (let (r, s') = em_event_group_apply (env_conf env) (env_chk env) g c n t s in ([], s', l))"
| "egrp_do env (EgIncrement c) (s, l) =
     (let (r, s') = em_event_group_increment (env_conf env) c s l in ([], s', l))"
| "egrp_do env (EgSetLocal g eg d) (s, l) =
     (let (r, s', l') = event_group_set_local (env_conf env) g eg d s l in ([], s', l'))"
| "egrp_do env EgProcessingEnd (s, l) =
     (let (r, acts, s', l') = em_event_group_processing_end (env_send env) s l in (acts, s', l'))"
| "egrp_do env (EgAssign g) (s, l) =
     (let (r, s', l') = em_event_group_assign (env_conf env) g s l in ([], s', l'))"
| "egrp_do env (EgAbort g) (s, l) =
     (let (r, s', l') = em_event_group_abort (env_conf env) g s l in ([], s', l'))"

fun egrp_run ::
  "'s egrp_env \<Rightarrow> (nat \<times> egrp_call) list \<Rightarrow> 's egrp_shm \<times> (nat \<Rightarrow> egrp_locm) \<Rightarrow>
   notif_action list \<times> 's egrp_shm \<times> (nat \<Rightarrow> egrp_locm)" where
  "egrp_run env [] (s, ls) = ([], s, ls)"
| "egrp_run env ((core, c) # cs) (s, ls) =
     (let (acts, s', l') = egrp_do env c (s, ls core);
          (acts', r) = egrp_run env cs (s', ls(core := l'))
      in (acts @ acts', r))"

definition core_wf :: "egrp_locm \<Rightarrow> bool" where
  "core_wf l \<longleftrightarrow> locm_wf l \<and> 0 < rcv_multi_cnt l \<and> rcv_multi_cnt l < 2 ^ 31"

lemma alloc_wf:
  "tbl_wf s \<Longrightarrow> tbl_wf (snd (event_group_alloc ops s))"
  by (auto simp: event_group_alloc_def Let_def intro!: tbl_wf_upd split: prod.splits)

lemma free_wf:
  "tbl_wf s \<Longrightarrow> tbl_wf (snd (event_group_free ops g s))"
  by (auto simp: event_group_free_def Let_def intro!: tbl_wf_upd split: prod.splits option.splits)

lemma create_wf:
  "tbl_wf s \<Longrightarrow> core_wf l \<Longrightarrow>
   case em_event_group_create ops s l of (r, s', l') \<Rightarrow> tbl_wf s' \<and> core_wf l'"
  using alloc_wf [of s ops]
  by (auto simp: em_event_group_create_def Let_def core_wf_def locm_wf_def em_event_group_first_def
      elem_wf_def cnt_wf_def intro!: tbl_wf_upd split: prod.splits option.splits)

lemma delete_wf:
  assumes "tbl_wf s"
  shows "tbl_wf (snd (em_event_group_delete ops g s))"
proof -
  have "tbl_wf (upd_elem i (\<lambda>e. e\<lparr>num_notif := 0\<rparr>) s)" for i
    by (rule tbl_wf_upd [OF assms]) simp
  note free_wf [OF this, of ops g]
  with assms show ?thesis
    by (auto simp: em_event_group_delete_def Let_def case_prod_beta split: option.splits)
qed

lemma copy_notifs_length:
  "copy_notifs n src dst = Some nt \<Longrightarrow> length nt = length dst \<and> n \<le> int (length dst)"
  by (auto simp: copy_notifs_def split: if_splits option.splits)

lemma apply_wf:
  assumes "tbl_wf s" "0 < check_level conf"
  shows "tbl_wf (snd (em_event_group_apply conf chk g c n t s))"
proof -
  have c: "0 < c \<and> c \<le> int EGRP_CNT_MAX" if "apply_checks conf chk g c n t s = None"
    using that assms(2) by (auto simp: apply_checks_def Let_def split: if_splits)
  have "tbl_wf (upd_elem i (\<lambda>e. e\<lparr>num_notif := n, notif_tbl := nt, counts := c'\<rparr>) s)"
    if "event_group_elem_get g = Some i" "cnt_wf c'"
      "copy_notifs n t (notif_tbl (egrp_tbl s ! i)) = Some nt" for i c' nt
    by (rule tbl_wf_upd [OF assms(1)])
      (use copy_notifs_length [OF that(3)] tbl_wf_elem [OF assms(1) elem_get_lt [OF that(1)]] that(2)
        in \<open>auto simp: elem_wf_def\<close>)
  then show ?thesis
    using c bodies_wf(4) [of c conf] assms(1)
    by (auto simp: em_event_group_apply_def split: option.splits sum.splits)
qed

lemma increment_api_wf:
  assumes "tbl_wf s" "core_wf l"
  shows "tbl_wf (snd (em_event_group_increment conf c s l))"
proof -
  have "cnt_wf c'" if "\<not> c \<le> 0" "\<not> c > int EGRP_CNT_MAX - 1"
      "increment_body conf (word_of_int c) g x = Inr c'" for x c' g
    by (rule increment_wf [OF that(3)])
      (use count_word(3) [of c] that(1,2) in \<open>auto simp: word_less_nat_alt EGRP_CNT_MAX_def\<close>)
  then show ?thesis
    using assms by (auto simp: em_event_group_increment_def Let_def intro!: tbl_wf_counts
        split: option.splits sum.splits)
qed

lemma set_local_wf:
  assumes "tbl_wf s" "core_wf l"
  shows "case event_group_set_local conf g eg d s l of (r, s', l') \<Rightarrow> tbl_wf s' \<and> core_wf l'"
  using assms bodies_wf(1) [OF tbl_wf_cnt [OF assms(1)]] elem_get_lt [of g]
  by (auto simp: event_group_set_local_def Let_def core_wf_def locm_wf_def intro!: tbl_wf_counts
      split: option.splits sum.splits)

lemma assign_wf:
  assumes "tbl_wf s" "core_wf l"
  shows "case em_event_group_assign conf g s l of (r, s', l') \<Rightarrow> tbl_wf s' \<and> core_wf l'"
  using assms bodies_wf(2) [OF tbl_wf_cnt [OF assms(1)]] elem_get_lt [of g]
  by (auto simp: em_event_group_assign_def Let_def core_wf_def locm_wf_def intro!: tbl_wf_counts
      split: option.splits sum.splits)

lemma abort_wf:
  assumes "tbl_wf s" "core_wf l"
  shows "case em_event_group_abort conf g s l of (r, s', l') \<Rightarrow> tbl_wf s' \<and> core_wf l'"
  using assms bodies_wf(3) [OF tbl_wf_cnt [OF assms(1)]] elem_get_lt [of g]
  by (auto simp: em_event_group_abort_def Let_def core_wf_def locm_wf_def intro!: tbl_wf_counts
      split: option.splits)

lemma post_count_decrement_wf:
  assumes "tbl_wf s" "i < EM_MAX_EVENT_GROUPS" "0 < decr"
  shows "tbl_wf (snd (post_count_decrement i decr s l))"
  using assms post_count_wf [OF tbl_wf_cnt [OF assms(1,2)] assms(3)]
  by (auto simp: post_count_decrement_def Let_def intro!: tbl_wf_counts split: sum.splits option.splits)

lemma count_decrement_shm:
  "snd (snd (event_group_count_decrement snd_status decr i s l)) = snd (post_count_decrement i decr s l)"
  by (simp add: event_group_count_decrement_def split: prod.splits sum.splits)

lemma processing_end_wf:
  assumes "tbl_wf s" "core_wf l"
  shows "case em_event_group_processing_end snd_status s l of (r, a, s', l') \<Rightarrow> tbl_wf s' \<and> core_wf l'"
proof -
  have d: "0 < unat (word_of_int (rcv_multi_cnt l) :: u32)"
    using assms(2) by (subst unat_word_of_int_small) (auto simp: core_wf_def)
  show ?thesis
  proof (cases "cur_egrp l")
    case None
    with assms show ?thesis by (simp add: em_event_group_processing_end_def)
  next
    case (Some i)
    then have "tbl_wf (snd (post_count_decrement i (unat (word_of_int (rcv_multi_cnt l) :: u32)) s l))"
      using post_count_decrement_wf [OF assms(1) _ d] assms(2) by (simp add: core_wf_def locm_wf_def)
    with Some assms(2) show ?thesis
      by (simp add: em_event_group_processing_end_def count_decrement_shm case_prod_beta
          core_wf_def locm_wf_def)
  qed
qed


section \<open>Handles of table elements\<close>

lemma egrp_idx2hdl_nat:
  assumes "i < EM_MAX_EVENT_GROUPS"
  shows "egrp_idx2hdl (of_nat i) = of_nat (Suc i)"
proof -
  have "(of_nat i + 1 :: u32) = of_nat (Suc i)" by simp
  then show ?thesis
    using assms unfolding egrp_idx2hdl_def EM_MAX_EVENT_GROUPS_def
    by (simp only:) (rule scast_of_nat_small, simp)
qed

lemma egrp_hdl_get [handle_simps]:
  assumes "i < EM_MAX_EVENT_GROUPS"
  shows "event_group_elem_get (egrp_idx2hdl (of_nat i)) = Some i"
    and "egrp_hdl2idx (egrp_idx2hdl (of_nat i)) = of_nat i"
    and "egrp_idx2hdl (of_nat i) \<noteq> EM_EVENT_GROUP_UNDEF"
proof -
  have i: "i < 1024" using assms by (simp add: EM_MAX_EVENT_GROUPS_def)
  have h: "egrp_hdl2idx (egrp_idx2hdl (of_nat i)) = of_nat i"
    unfolding egrp_idx2hdl_nat [OF assms] egrp_hdl2idx_def using i
    by (simp add: ucast_of_nat [of "word_of_nat i :: u64"] unat_of_nat_small del: of_nat_unat)
  then show "egrp_hdl2idx (egrp_idx2hdl (of_nat i)) = of_nat i" .
  have u: "unat (of_nat i :: u32) = i" using i by (simp add: unat_of_nat_small)
  show "event_group_elem_get (egrp_idx2hdl (of_nat i)) = Some i"
    unfolding event_group_elem_get_def h Let_def u using i by (simp add: EM_MAX_EVENT_GROUPS_def)
  have "unat (of_nat (Suc i) :: u64) = Suc i" 
    by (rule unat_of_nat_small) (use i in simp)
  then show "egrp_idx2hdl (of_nat i) \<noteq> EM_EVENT_GROUP_UNDEF"
    unfolding egrp_idx2hdl_nat [OF assms] EM_EVENT_GROUP_UNDEF_def
    by (metis nat.distinct(1) unsigned_0)
qed

section \<open>The pool of free groups\<close>

text \<open>
  What the code relies on from an ODP stash of type FIFO: reads return the values in the order they
  were written, one at a time, and none when it is empty; a write succeeds while the stash holds
  fewer than its configured number of objects.
\<close>

definition stash_laws :: "'s stash_ops \<Rightarrow> ('s \<Rightarrow> u32 list) \<Rightarrow> nat \<Rightarrow> bool" where
  "stash_laws ops cont cap \<longleftrightarrow>
     (\<forall>st. case cont st of
        [] \<Rightarrow> fst (fst (st_get ops st)) = 0 \<and> cont (snd (st_get ops st)) = []
      | x # xs \<Rightarrow> fst (st_get ops st) = (1, x) \<and> cont (snd (st_get ops st)) = xs) \<and>
     (\<forall>st x. length (cont st) < cap \<longrightarrow>
        fst (st_put ops x st) = 1 \<and> cont (snd (st_put ops x st)) = cont st @ [x])"

lemma stash_get_Nil:
  "stash_laws ops cont cap \<Longrightarrow> cont st = [] \<Longrightarrow>
   fst (fst (st_get ops st)) = 0 \<and> cont (snd (st_get ops st)) = []"
  unfolding stash_laws_def by (drule conjunct1, drule spec [of _ st]) simp

lemma stash_get_Cons:
  "stash_laws ops cont cap \<Longrightarrow> cont st = x # xs \<Longrightarrow>
   fst (st_get ops st) = (1, x) \<and> cont (snd (st_get ops st)) = xs"
  unfolding stash_laws_def by (drule conjunct1, drule spec [of _ st]) simp

lemma stash_put:
  "stash_laws ops cont cap \<Longrightarrow> length (cont st) < cap \<Longrightarrow>
   fst (st_put ops x st) = 1 \<and> cont (snd (st_put ops x st)) = cont st @ [x]"
  unfolding stash_laws_def by blast

definition free_groups :: "'s egrp_shm \<Rightarrow> nat set" where
  "free_groups s = {i. i < EM_MAX_EVENT_GROUPS \<and> in_stash (egrp_tbl s ! i)}"

text \<open>
  The stash holds exactly the indices of the elements marked \<^verbatim>\<open>in_stash\<close>, each once, and the count
  is the number of the others.
\<close>

definition pool_wf :: "('s \<Rightarrow> u32 list) \<Rightarrow> 's egrp_shm \<Rightarrow> bool" where
  "pool_wf cont s \<longleftrightarrow> tbl_wf s \<and> distinct (cont (egrp_stash s)) \<and>
     set (cont (egrp_stash s)) = of_nat ` free_groups s \<and>
     egrp_count s = of_nat (EM_MAX_EVENT_GROUPS - card (free_groups s))"

lemma free_groups_fin: "finite (free_groups s)" "card (free_groups s) \<le> EM_MAX_EVENT_GROUPS"
proof -
  have "free_groups s \<subseteq> {0..<EM_MAX_EVENT_GROUPS}" by (auto simp: free_groups_def)
  from finite_subset [OF this] card_mono [OF _ this]
  show "finite (free_groups s)" "card (free_groups s) \<le> EM_MAX_EVENT_GROUPS" by simp_all
qed

lemma of_nat_idx_inj: "inj_on (of_nat :: nat \<Rightarrow> u32) {i. i < EM_MAX_EVENT_GROUPS}"
proof (rule inj_onI)
  fix x y assume a: "x \<in> {i. i < EM_MAX_EVENT_GROUPS}" "y \<in> {i. i < EM_MAX_EVENT_GROUPS}"
    and e: "(of_nat x :: u32) = of_nat y"
  have "unat (of_nat x :: u32) = x" "unat (of_nat y :: u32) = y"
    using a by (simp_all only: EM_MAX_EVENT_GROUPS_def mem_Collect_eq) (simp_all add: unat_of_nat_small)
  with e show "x = y" by metis
qed

lemma pool_wf_length:
  assumes "pool_wf cont s"
  shows "length (cont (egrp_stash s)) = card (free_groups s)"
proof -
  have "inj_on (of_nat :: nat \<Rightarrow> u32) (free_groups s)"
    by (rule inj_on_subset [OF of_nat_idx_inj]) (auto simp: free_groups_def)
  then show ?thesis
    using assms distinct_card [of "cont (egrp_stash s)"] by (simp add: pool_wf_def card_image)
qed

lemma free_groups_upd:
  assumes "tbl_wf s" "i < EM_MAX_EVENT_GROUPS"
  shows "free_groups (upd_elem i (\<lambda>e. e\<lparr>in_stash := b\<rparr>) s) =
    (if b then insert i (free_groups s) else free_groups s - {i})"
  using assms by (auto simp: free_groups_def tbl_wf_def nth_list_update split: if_splits)

lemma free_groups_same [simp]:
  "free_groups (s\<lparr>egrp_stash := st\<rparr>) = free_groups s"
  "free_groups (s\<lparr>egrp_count := n\<rparr>) = free_groups s"
  by (simp_all add: free_groups_def)

text \<open>Allocation: the oldest free group, or none exactly when all are in use.\<close>

lemma event_group_alloc_pool:
  assumes l: "stash_laws ops cont EM_MAX_EVENT_GROUPS" and w: "pool_wf cont s"
  shows "if free_groups s = {} then fst (event_group_alloc ops s) = EM_EVENT_GROUP_UNDEF \<and>
      pool_wf cont (snd (event_group_alloc ops s)) \<and>
      egrp_tbl (snd (event_group_alloc ops s)) = egrp_tbl s
    else \<exists>i \<in> free_groups s. fst (event_group_alloc ops s) = egrp_idx2hdl (of_nat i) \<and>
      pool_wf cont (snd (event_group_alloc ops s)) \<and>
      free_groups (snd (event_group_alloc ops s)) = free_groups s - {i} \<and>
      egrp_tbl (snd (event_group_alloc ops s)) = (egrp_tbl s)[i := (egrp_tbl s ! i)\<lparr>in_stash := False\<rparr>]"
proof (cases "cont (egrp_stash s)")
  case Nil
  then have "free_groups s = {}" using w by (auto simp: pool_wf_def)
  moreover obtain n x st where "st_get ops (egrp_stash s) = ((n, x), st)" by (metis surj_pair)
  moreover have "n = 0" "cont st = []" using stash_get_Nil [OF l Nil] calculation by auto
  ultimately show ?thesis using w Nil by (simp add: event_group_alloc_def pool_wf_def)
next
  case (Cons x xs)
  then obtain i where i: "i \<in> free_groups s" "x = of_nat i" using w by (auto simp: pool_wf_def)
  have lt: "i < EM_MAX_EVENT_GROUPS" using i(1) by (simp add: free_groups_def)
  have u: "unat x = i" using lt i(2) by (simp add: unat_of_nat_small EM_MAX_EVENT_GROUPS_def)
  obtain st where st: "st_get ops (egrp_stash s) = ((1, x), st)" "cont st = xs"
    using stash_get_Cons [OF l Cons] by (metis prod.collapse)
  let ?s = "(upd_elem i (\<lambda>e. e\<lparr>in_stash := False\<rparr>) (s\<lparr>egrp_stash := st\<rparr>))\<lparr>egrp_count := egrp_count s + 1\<rparr>"
  have a: "event_group_alloc ops s = (egrp_idx2hdl x, ?s)"
    using st lt u by (simp add: event_group_alloc_def)
  have tw: "tbl_wf s" using w by (simp add: pool_wf_def)
  have fg: "free_groups ?s = free_groups s - {i}"
    using free_groups_upd [of "s\<lparr>egrp_stash := st\<rparr>" i False] tw lt by simp
  have "set xs = of_nat ` (free_groups s - {i})"
  proof -
    have "of_nat ` free_groups s = insert x (set xs)" "x \<notin> set xs"
      using w Cons by (auto simp: pool_wf_def)
    moreover have "of_nat ` (free_groups s - {i}) = of_nat ` free_groups s - {of_nat i :: u32}"
      by (subst inj_on_image_set_diff [OF of_nat_idx_inj]) (auto simp: free_groups_def lt)
    ultimately show ?thesis using i(2) by auto
  qed
  moreover have "tbl_wf ?s" using tw by (auto intro!: tbl_wf_upd)
  moreover have "egrp_count s + 1 = of_nat (EM_MAX_EVENT_GROUPS - card (free_groups s - {i}))"
  proof -
    have "card (free_groups s) > 0" using i(1) free_groups_fin(1) [of s] by (auto simp: card_gt_0_iff)
    then have "EM_MAX_EVENT_GROUPS - card (free_groups s - {i}) = Suc (EM_MAX_EVENT_GROUPS - card (free_groups s))"
      using i(1) free_groups_fin [of s] by (simp add: card_Diff_singleton)
    then show ?thesis using w by (simp add: pool_wf_def)
  qed
  ultimately have "pool_wf cont ?s"
    using fg w Cons st(2) by (simp add: pool_wf_def)
  with a fg i show ?thesis by auto
qed

lemma event_group_free_pool:
  assumes l: "stash_laws ops cont EM_MAX_EVENT_GROUPS" and w: "pool_wf cont s"
    and i: "i < EM_MAX_EVENT_GROUPS" "i \<notin> free_groups s"
  shows "\<exists>s'. event_group_free ops (egrp_idx2hdl (of_nat i)) s = (EM_OK, s') \<and> pool_wf cont s' \<and>
    free_groups s' = insert i (free_groups s)"
proof -
  let ?s1 = "upd_elem i (\<lambda>e. e\<lparr>in_stash := True\<rparr>) s"
  have tw: "tbl_wf s" using w by (simp add: pool_wf_def)
  have "card (insert i (free_groups s)) \<le> card {0..<EM_MAX_EVENT_GROUPS}"
    using i(1) by (intro card_mono) (auto simp: free_groups_def)
  then have len: "card (free_groups s) < EM_MAX_EVENT_GROUPS"
    using i(2) free_groups_fin(1) [of s] by simp
  then obtain st where st: "st_put ops (of_nat i) (egrp_stash s) = (1, st)"
      "cont st = cont (egrp_stash s) @ [of_nat i]"
    using stash_put [OF l, of "egrp_stash s" "of_nat i"] pool_wf_length [OF w] by (metis prod.collapse)
  let ?s' = "?s1\<lparr>egrp_stash := st, egrp_count := egrp_count s - 1\<rparr>"
  have "\<not> in_stash (egrp_tbl s ! i)" using i by (simp add: free_groups_def)
  then have a: "event_group_free ops (egrp_idx2hdl (of_nat i)) s = (EM_OK, ?s')"
    using st(1) by (simp add: event_group_free_def egrp_hdl_get [OF i(1)] Let_def)
  have fg: "free_groups ?s' = insert i (free_groups s)"
    using free_groups_upd [OF tw i(1), of True] by simp
  have "(of_nat i :: u32) \<notin> of_nat ` free_groups s"
    using inj_on_image_mem_iff [OF of_nat_idx_inj, of i "free_groups s"] i by (auto simp: free_groups_def)
  moreover have "tbl_wf ?s'" using tw by (auto intro!: tbl_wf_upd)
  moreover have "egrp_count s - 1 = of_nat (EM_MAX_EVENT_GROUPS - card (insert i (free_groups s)))"
  proof -
    have "EM_MAX_EVENT_GROUPS - card (free_groups s) = Suc (EM_MAX_EVENT_GROUPS - card (insert i (free_groups s)))"
      using i(2) free_groups_fin(1) [of s] len by simp
    then show ?thesis using w by (simp add: pool_wf_def)
  qed
  ultimately have "pool_wf cont ?s'" using fg w st(2) by (simp add: pool_wf_def)
  with a fg show ?thesis by blast
qed

text \<open>Changing a group without touching \<^verbatim>\<open>in_stash\<close> keeps the pool.\<close>

lemma pool_wf_elem:
  assumes "pool_wf cont s" "\<And>e. elem_wf i e \<Longrightarrow> elem_wf i (f e)" "\<And>e. in_stash (f e) = in_stash e"
  shows "pool_wf cont (upd_elem i f s)" "free_groups (upd_elem i f s) = free_groups s"
proof -
  show fg: "free_groups (upd_elem i f s) = free_groups s"
    using assms(3) by (cases "i < length (egrp_tbl s)")
      (auto simp: free_groups_def nth_list_update list_update_beyond)
  have "tbl_wf (upd_elem i f s)" using assms(1,2) by (intro tbl_wf_upd) (auto simp: pool_wf_def)
  then show "pool_wf cont (upd_elem i f s)" using assms(1) fg by (simp add: pool_wf_def)
qed

lemma event_group_init_loop_ok:
  assumes l: "stash_laws ops cont EM_MAX_EVENT_GROUPS"
    and k: "idx + k = EM_MAX_EVENT_GROUPS" "length tbl = EM_MAX_EVENT_GROUPS"
    and st: "cont st = map of_nat [0..<idx]"
    and dn: "\<forall>i<idx. elem_wf i (tbl ! i) \<and> in_stash (tbl ! i)"
    and rest: "\<forall>i<EM_MAX_EVENT_GROUPS. length (notif_tbl (tbl ! i)) = EM_EVENT_GROUP_MAX_NOTIF"
  shows "\<exists>tbl' st'. event_group_init_loop ops idx k tbl st = (True, EM_MAX_EVENT_GROUPS, tbl', st') \<and>
    length tbl' = EM_MAX_EVENT_GROUPS \<and> cont st' = map of_nat [0..<EM_MAX_EVENT_GROUPS] \<and>
    (\<forall>i<EM_MAX_EVENT_GROUPS. elem_wf i (tbl' ! i) \<and> in_stash (tbl' ! i))"
  using k st dn rest
proof (induction k arbitrary: idx tbl st)
  case 0
  then show ?case by simp
next
  case (Suc k)
  have lt: "idx < EM_MAX_EVENT_GROUPS" using Suc.prems(1) by simp
  let ?e = "(tbl ! idx)\<lparr>counts := zero_counter, eg_hdl := egrp_idx2hdl (of_nat idx),
                num_notif := 0, in_stash := True\<rparr>"
  obtain st' where st': "st_put ops (of_nat idx) st = (1, st')" "cont st' = cont st @ [of_nat idx]"
    using stash_put [OF l, of st "of_nat idx"] Suc.prems(3) lt by (metis length_map length_upt minus_nat.diff_0 prod.collapse)
  have e: "elem_wf idx ?e" using Suc.prems(5) lt
    by (simp add: elem_wf_def cnt_wf_def zero_counter_def)
  have "\<exists>tbl' stf. event_group_init_loop ops (Suc idx) k (tbl[idx := ?e]) st' = (True, EM_MAX_EVENT_GROUPS, tbl', stf) \<and>
    length tbl' = EM_MAX_EVENT_GROUPS \<and> cont stf = map of_nat [0..<EM_MAX_EVENT_GROUPS] \<and>
    (\<forall>i<EM_MAX_EVENT_GROUPS. elem_wf i (tbl' ! i) \<and> in_stash (tbl' ! i))"
  proof (rule Suc.IH)
    show "\<forall>i<Suc idx. elem_wf i (tbl[idx := ?e] ! i) \<and> in_stash (tbl[idx := ?e] ! i)"
      using Suc.prems(2,4) lt e by (auto simp: less_Suc_eq nth_list_update)
    show "\<forall>i<EM_MAX_EVENT_GROUPS. length (notif_tbl (tbl[idx := ?e] ! i)) = EM_EVENT_GROUP_MAX_NOTIF"
      using Suc.prems(2,5) lt by (auto simp: nth_list_update)
  qed (use Suc.prems st' in simp_all)
  then show ?case using st'(1) by (simp add: Let_def)
qed

section \<open>Iteration as an instance of the contract\<close>

definition egrp_first_opt :: "'s egrp_shm \<Rightarrow> egrp_locm \<Rightarrow> u64 option \<times> nat" where
  "egrp_first_opt s l =
     (let ((h, num), l') = em_event_group_first s l
      in (if h = EM_EVENT_GROUP_UNDEF then None else Some h, iter_idx l'))"

definition egrp_next_opt :: "'s egrp_shm \<Rightarrow> egrp_locm \<Rightarrow> nat \<Rightarrow> u64 option \<times> nat" where
  "egrp_next_opt s l j =
     (let (h, l') = em_event_group_next s (l\<lparr>iter_idx := j\<rparr>)
      in (if h = EM_EVENT_GROUP_UNDEF then None else Some h, iter_idx l'))"

interpretation egrp_iter: table_iter EM_MAX_EVENT_GROUPS "unat (egrp_count s)"
    "\<lambda>i. event_group_allocated (egrp_tbl s ! i)" "\<lambda>i. egrp_idx2hdl (of_nat i)"
    "egrp_first_opt s l" "egrp_next_opt s l"
  for s l
proof (unfold_locales, goal_cases)
  case 1
  then show ?case by (simp add: egrp_first_opt_def em_event_group_first_def event_group_count_def unat_zero_iff)
next
  case 2
  then show ?case by (simp add: egrp_first_opt_def em_event_group_first_def Let_def)
next
  case (3 i)
  then show ?case using egrp_hdl_get(3) [of i] first_idx_SomeD [OF 3(2)]
    by (simp add: egrp_first_opt_def em_event_group_first_def event_group_count_def unat_zero_iff)
next
  case (4 j)
  then show ?case by (auto simp: egrp_next_opt_def em_event_group_next_def Let_def)
next
  case (5 j i)
  then have "Suc j \<le> i" "i < EM_MAX_EVENT_GROUPS" using first_idx_SomeD [OF 5(2)] by auto
  with 5 egrp_hdl_get(3) [of i] show ?case
    by (auto simp: egrp_next_opt_def em_event_group_next_def Let_def)
qed

lemma event_group_init_pool:
  assumes "stash_laws ops cont EM_MAX_EVENT_GROUPS" "cont st0 = []" "EM_MAX_EVENT_GROUPS \<le> capa"
  shows "\<exists>s'. event_group_init ops (Some capa) (Some st0) s = (EM_OK, s') \<and> pool_wf cont s' \<and>
    cont (egrp_stash s') = map of_nat [0..<EM_MAX_EVENT_GROUPS] \<and>
    free_groups s' = {0..<EM_MAX_EVENT_GROUPS} \<and> event_group_count s' = 0"
proof -
  let ?tbl = "replicate EM_MAX_EVENT_GROUPS zero_elem"
  obtain tbl st where r: "event_group_init_loop ops 0 EM_MAX_EVENT_GROUPS ?tbl st0
        = (True, EM_MAX_EVENT_GROUPS, tbl, st)"
      "length tbl = EM_MAX_EVENT_GROUPS" "cont st = map of_nat [0..<EM_MAX_EVENT_GROUPS]"
      "\<forall>i<EM_MAX_EVENT_GROUPS. elem_wf i (tbl ! i) \<and> in_stash (tbl ! i)"
    using event_group_init_loop_ok [OF assms(1), of 0 EM_MAX_EVENT_GROUPS ?tbl st0] assms(2)
    by (auto simp: zero_elem_def)
  let ?s = "s\<lparr>egrp_tbl := tbl, egrp_count := 0, egrp_stash := st\<rparr>"
  have fg: "free_groups ?s = {0..<EM_MAX_EVENT_GROUPS}" using r(4) by (auto simp: free_groups_def)
  have "distinct (map (of_nat :: nat \<Rightarrow> u32) [0..<EM_MAX_EVENT_GROUPS])"
    by (simp add: distinct_map) (rule inj_on_subset [OF of_nat_idx_inj], auto)
  then have "pool_wf cont ?s" using r fg by (simp add: pool_wf_def tbl_wf_def)
  moreover have "event_group_init ops (Some capa) (Some st0) s = (EM_OK, ?s)"
    using r(1) assms(3) by (simp add: event_group_init_def Let_def)
  ultimately show ?thesis using fg r(3) by (auto simp: event_group_count_def)
qed

section \<open>A concrete system for the witnesses\<close>

definition list_stash :: "u32 list stash_ops" where
  "list_stash = \<lparr>st_get = (\<lambda>st. case st of [] \<Rightarrow> ((0, 0), []) | x # xs \<Rightarrow> ((1, x), xs)),
     st_put = (\<lambda>x st. (1, st @ [x])), st_destroy = (\<lambda>_. 0)\<rparr>"

lemma list_stash_laws: "stash_laws list_stash id n"
  by (auto simp: stash_laws_def list_stash_def split: list.splits)

definition demo_conf :: egrp_conf where
  "demo_conf = \<lparr>check_level = 3, safe_mode = True\<rparr>"

definition demo_locm :: egrp_locm where
  "demo_locm = \<lparr>cur_egrp = None, cur_gen = 0, rcv_multi_cnt = 1, in_receive = True, iter_idx = 0\<rparr>"

definition demo_egrp_env :: "u32 list egrp_env" where
  "demo_egrp_env = \<lparr>env_stash = list_stash, env_conf = demo_conf, env_send = (\<lambda>_. EM_OK),
     env_chk = (\<lambda>_ _. EM_OK)\<rparr>"

definition demo_shm0 :: "u32 list egrp_shm" where
  "demo_shm0 = \<lparr>egrp_tbl = [], egrp_stash = [], egrp_count = 0\<rparr>"

definition demo_shm :: "u32 list egrp_shm" where
  "demo_shm = snd (event_group_init list_stash (Some EM_MAX_EVENT_GROUPS) (Some []) demo_shm0)"

lemma demo_shm_wf: "pool_wf id demo_shm" "free_groups demo_shm = {0..<EM_MAX_EVENT_GROUPS}"
proof -
  obtain s' where s': "event_group_init list_stash (Some EM_MAX_EVENT_GROUPS) (Some []) demo_shm0 = (EM_OK, s')"
      "pool_wf id s'" "free_groups s' = {0..<EM_MAX_EVENT_GROUPS}"
    using event_group_init_pool [OF list_stash_laws, of "[]" EM_MAX_EVENT_GROUPS demo_shm0] by auto
  then have "demo_shm = s'" by (simp add: demo_shm_def)
  with s' show "pool_wf id demo_shm" "free_groups demo_shm = {0..<EM_MAX_EVENT_GROUPS}" by simp_all
qed

section \<open>Properties of the table\<close>

text \<open>
  Initialisation succeeds and frees every group. With a stash that can hold all groups,
  \<^verbatim>\<open>event_group_init\<close> returns EM_OK with a well-formed table in which every group is free with zero
  counters, the stash holds every index once in order, and the count is zero.
\<close>

theorem event_group_init_correct:
  assumes "stash_laws ops cont EM_MAX_EVENT_GROUPS" "cont st0 = []" "EM_MAX_EVENT_GROUPS \<le> capa"
  shows "\<exists>s'. event_group_init ops (Some capa) (Some st0) s = (EM_OK, s') \<and> pool_wf cont s' \<and>
    cont (egrp_stash s') = map of_nat [0..<EM_MAX_EVENT_GROUPS] \<and>
    free_groups s' = {0..<EM_MAX_EVENT_GROUPS} \<and> event_group_count s' = 0"
  using event_group_init_pool [OF assms] .

theorem event_group_init_correct_witness:
  "\<exists>s'. event_group_init list_stash (Some 1024) (Some []) demo_shm0 = (EM_OK, s') \<and> pool_wf id s' \<and>
    id (egrp_stash s') = map of_nat [0..<EM_MAX_EVENT_GROUPS] \<and>
    free_groups s' = {0..<EM_MAX_EVENT_GROUPS} \<and> event_group_count s' = 0"
  by (rule event_group_init_correct [OF list_stash_laws]) (simp_all add: EM_MAX_EVENT_GROUPS_def)

text \<open>
  C31: Creation never returns a group in use. As long as a group is free, \<^verbatim>\<open>em_event_group_create\<close>
  returns the handle of a group that was free, takes exactly that group out of the pool and clears its
  counters but keeps its generation; otherwise it reports EM_ERR_ALLOC_FAILED.
\<close>

theorem em_event_group_create_correct:
  assumes "stash_laws ops cont EM_MAX_EVENT_GROUPS" "pool_wf cont s"
  shows "case em_event_group_create ops s l of (r, s', l') \<Rightarrow>
    pool_wf cont s' \<and>
    (if free_groups s = {} then r = Inl (EM_ERR_ALLOC_FAILED, ''EVENT_GROUP_CREATE'') \<and> free_groups s' = {}
     else \<exists>i \<in> free_groups s. r = Inr (egrp_idx2hdl (of_nat i)) \<and> free_groups s' = free_groups s - {i} \<and>
       \<not> applied (counts (egrp_tbl s' ! i)) \<and> gen (counts (egrp_tbl s' ! i)) = gen (counts (egrp_tbl s ! i)))"
proof -
  obtain g s1 where a: "event_group_alloc ops s = (g, s1)" by (metis surj_pair)
  note al = event_group_alloc_pool [OF assms]
  show ?thesis
  proof (cases "free_groups s = {}")
    case True
    then have g: "g = EM_EVENT_GROUP_UNDEF" "pool_wf cont s1" "egrp_tbl s1 = egrp_tbl s" using al a by auto
    have "free_groups s1 = free_groups s" using g(3) by (simp add: free_groups_def)
    then show ?thesis using True a g by (simp add: em_event_group_create_def Let_def)
  next
    case False
    then obtain i where i: "i \<in> free_groups s" "g = egrp_idx2hdl (of_nat i)" "pool_wf cont s1"
        "free_groups s1 = free_groups s - {i}"
        "egrp_tbl s1 = (egrp_tbl s)[i := (egrp_tbl s ! i)\<lparr>in_stash := False\<rparr>]" using al a by auto
    have lt: "i < EM_MAX_EVENT_GROUPS" using i(1) by (simp add: free_groups_def)
    have len: "i < length (egrp_tbl s)" using assms(2) lt by (simp add: pool_wf_def tbl_wf_def)
    let ?f = "\<lambda>e. e\<lparr>counts := (counts e)\<lparr>pre_cnt := 0, post_cnt := 0, applied := False\<rparr>\<rparr>"
    have pw: "pool_wf cont (upd_elem i ?f s1)" "free_groups (upd_elem i ?f s1) = free_groups s1"
      by (rule pool_wf_elem [OF i(3)]; simp add: elem_wf_def cnt_wf_def)+
    have "em_event_group_create ops s l = (Inr g, upd_elem i ?f s1, l)"
      unfolding em_event_group_create_def a Let_def prod.case i(2) using egrp_hdl_get [OF lt] by simp
    moreover have "\<not> applied (counts (egrp_tbl (upd_elem i ?f s1) ! i)) \<and>
        gen (counts (egrp_tbl (upd_elem i ?f s1) ! i)) = gen (counts (egrp_tbl s ! i))"
      by (simp add: i(5) len)
    ultimately show ?thesis
      using i(1,2,4) pw by (simp only: prod.case if_not_P [OF False] simp_thms) blast
  qed
qed

theorem em_event_group_create_correct_witness:
  "case em_event_group_create list_stash demo_shm demo_locm of (r, s', l') \<Rightarrow>
    pool_wf id s' \<and>
    (if free_groups demo_shm = {}
     then r = Inl (EM_ERR_ALLOC_FAILED, ''EVENT_GROUP_CREATE'') \<and> free_groups s' = {}
     else \<exists>i \<in> free_groups demo_shm. r = Inr (egrp_idx2hdl (of_nat i)) \<and>
       free_groups s' = free_groups demo_shm - {i} \<and>
       \<not> applied (counts (egrp_tbl s' ! i)) \<and>
       gen (counts (egrp_tbl s' ! i)) = gen (counts (egrp_tbl demo_shm ! i)))"
  by (rule em_event_group_create_correct [OF list_stash_laws demo_shm_wf(1)])

text \<open>
  C32: Deletion returns exactly a created group that is not in use. For a handle of the table,
  \<^verbatim>\<open>em_event_group_delete\<close> puts the group back into the pool when it is allocated and not applied;
  deleting it again, or deleting a free group, reports EM_ERR_BAD_ARG, deleting an applied group
  EM_ERR_BAD_STATE, and the table is then unchanged.
\<close>

theorem em_event_group_delete_correct:
  assumes "stash_laws ops cont EM_MAX_EVENT_GROUPS" "pool_wf cont s" "i < EM_MAX_EVENT_GROUPS"
  defines "g \<equiv> egrp_idx2hdl (of_nat i)"
  shows "if i \<in> free_groups s
    then em_event_group_delete ops g s = (Inl (EM_ERR_BAD_ARG, ''EVENT_GROUP_DELETE''), s)
    else if applied (counts (egrp_tbl s ! i))
    then em_event_group_delete ops g s = (Inl (EM_ERR_BAD_STATE, ''EVENT_GROUP_DELETE''), s)
    else \<exists>s'. em_event_group_delete ops g s = (Inr EM_OK, s') \<and> pool_wf cont s' \<and>
      free_groups s' = insert i (free_groups s) \<and>
      em_event_group_delete ops g s' = (Inl (EM_ERR_BAD_ARG, ''EVENT_GROUP_DELETE''), s')"
proof -
  note get = egrp_hdl_get [OF assms(3)]
  have bad: "em_event_group_delete ops g s' = (Inl (EM_ERR_BAD_ARG, ''EVENT_GROUP_DELETE''), s')"
    if "i \<in> free_groups s'" for s' :: "'a egrp_shm"
    using that get by (simp add: em_event_group_delete_def g_def event_group_allocated_def free_groups_def)
  show ?thesis
  proof (cases "i \<in> free_groups s \<or> applied (counts (egrp_tbl s ! i))")
    case True
    then show ?thesis using bad get assms(3)
      by (auto simp: em_event_group_delete_def g_def event_group_allocated_def free_groups_def Let_def)
  next
    case False
    let ?s = "upd_elem i (\<lambda>e. e\<lparr>num_notif := 0\<rparr>) s"
    have pw: "pool_wf cont ?s" "free_groups ?s = free_groups s"
      by (rule pool_wf_elem [OF assms(2)]; simp)+
    obtain s' where s': "event_group_free ops g ?s = (EM_OK, s')" "pool_wf cont s'"
        "free_groups s' = insert i (free_groups s)"
      using event_group_free_pool [OF assms(1) pw(1) assms(3)] pw(2) False by (auto simp: g_def)
    have "em_event_group_delete ops g s = (Inr EM_OK, s')"
      using False s' get assms(3)
      by (simp add: em_event_group_delete_def g_def event_group_allocated_def free_groups_def)
    with False s' bad show ?thesis by auto
  qed
qed

theorem em_event_group_delete_correct_witness:
  "if 5 \<in> free_groups demo_shm
    then em_event_group_delete list_stash (egrp_idx2hdl (of_nat 5)) demo_shm =
      (Inl (EM_ERR_BAD_ARG, ''EVENT_GROUP_DELETE''), demo_shm)
    else if applied (counts (egrp_tbl demo_shm ! 5))
    then em_event_group_delete list_stash (egrp_idx2hdl (of_nat 5)) demo_shm =
      (Inl (EM_ERR_BAD_STATE, ''EVENT_GROUP_DELETE''), demo_shm)
    else \<exists>s'. em_event_group_delete list_stash (egrp_idx2hdl (of_nat 5)) demo_shm = (Inr EM_OK, s') \<and>
      pool_wf id s' \<and> free_groups s' = insert 5 (free_groups demo_shm) \<and>
      em_event_group_delete list_stash (egrp_idx2hdl (of_nat 5)) s' =
        (Inl (EM_ERR_BAD_ARG, ''EVENT_GROUP_DELETE''), s')"
  by (rule em_event_group_delete_correct [OF list_stash_laws demo_shm_wf(1)])
    (simp add: EM_MAX_EVENT_GROUPS_def)

text \<open>
  Iterating with first and next visits every created group exactly once, in handle order, and
  nothing else.
\<close>

theorem em_event_group_iterate:
  assumes "pool_wf cont s"
  shows "iterate (egrp_next_opt s l) EM_MAX_EVENT_GROUPS (egrp_first_opt s l) =
    map (\<lambda>i. egrp_idx2hdl (of_nat i)) (filter (\<lambda>i. i \<notin> free_groups s) [0..<EM_MAX_EVENT_GROUPS])"
proof -
  have "unat (egrp_count s) = EM_MAX_EVENT_GROUPS - card (free_groups s)"
  proof -
    have "unat (of_nat (EM_MAX_EVENT_GROUPS - card (free_groups s)) :: u32)
        = EM_MAX_EVENT_GROUPS - card (free_groups s)"
      by (rule unat_of_nat_small) (simp add: EM_MAX_EVENT_GROUPS_def)
    with assms show ?thesis by (simp only: pool_wf_def)
  qed
  moreover have "card (free_groups s) = EM_MAX_EVENT_GROUPS \<longleftrightarrow> free_groups s = {0..<EM_MAX_EVENT_GROUPS}"
    by (rule iffI, rule card_subset_eq) (auto simp: free_groups_def)
  moreover have "free_groups s = {0..<EM_MAX_EVENT_GROUPS} \<longleftrightarrow>
      (\<forall>i < EM_MAX_EVENT_GROUPS. \<not> event_group_allocated (egrp_tbl s ! i))"
    unfolding free_groups_def event_group_allocated_def set_eq_iff mem_Collect_eq atLeastLessThan_iff not_not
    by blast
  ultimately have c: "unat (egrp_count s) = 0 \<longleftrightarrow>
      (\<forall>i < EM_MAX_EVENT_GROUPS. \<not> event_group_allocated (egrp_tbl s ! i))"
    using free_groups_fin(2) [of s] by (metis diff_is_0_eq le_antisym le_refl)
  have f: "filter (\<lambda>i. event_group_allocated (egrp_tbl s ! i)) [0..<EM_MAX_EVENT_GROUPS] =
      filter (\<lambda>i. i \<notin> free_groups s) [0..<EM_MAX_EVENT_GROUPS]"
    by (rule filter_cong) (auto simp: free_groups_def event_group_allocated_def)
  show ?thesis using egrp_iter.iterate_all [OF c] unfolding f .
qed

theorem em_event_group_iterate_witness:
  "iterate (egrp_next_opt demo_shm demo_locm) EM_MAX_EVENT_GROUPS (egrp_first_opt demo_shm demo_locm) =
    map (\<lambda>i. egrp_idx2hdl (of_nat i)) (filter (\<lambda>i. i \<notin> free_groups demo_shm) [0..<EM_MAX_EVENT_GROUPS])"
  by (rule em_event_group_iterate [OF demo_shm_wf(1)])

text \<open>
  C33: Termination empties the stash and returns. The unbounded loop of \<^verbatim>\<open>event_group_term\<close> ends for
  every stash content; the result is EM_OK exactly when destroying the emptied stash succeeds.
\<close>

theorem event_group_term_returns:
  assumes "stash_laws ops cont cap"
  shows "\<exists>st s'. event_group_term ops s = Some (if st_destroy ops st = 0 then EM_OK else EM_ERR_LIB_FAILED, s') \<and>
    cont st = [] \<and> egrp_stash s' = st"
proof -
  have "\<exists>st'. stash_drain (st_get ops) st = Some (0, st') \<and> cont st' = []" for st
  proof (induction "cont st" arbitrary: st)
    case Nil
    then obtain x st' where "st_get ops st = ((0, x), st')" "cont st' = []"
      using stash_get_Nil [OF assms, of st] by (metis prod.collapse)
    then show ?case by (subst stash_drain.simps) simp
  next
    case (Cons y ys)
    then obtain st' where "st_get ops st = ((1, y), st')" "cont st' = ys"
      using stash_get_Cons [OF assms, of st y ys] by (metis prod.collapse)
    with Cons(1) [of st'] show ?case by (subst stash_drain.simps) simp
  qed
  then obtain st' where "stash_drain (st_get ops) (egrp_stash s) = Some (0, st')" "cont st' = []" by blast
  then show ?thesis by (intro exI [of _ st'] exI) (auto simp: event_group_term_def)
qed

theorem event_group_term_returns_witness:
  "\<exists>st s'. event_group_term list_stash demo_shm =
      Some (if st_destroy list_stash st = 0 then EM_OK else EM_ERR_LIB_FAILED, s') \<and>
    id st = [] \<and> egrp_stash s' = st"
  by (rule event_group_term_returns [OF list_stash_laws])

section \<open>The life of an event group\<close>

text \<open>One event of a group: the dispatcher sets the group before the receive call and ends it after.\<close>

definition egrp_round :: "u64 \<Rightarrow> u32 \<Rightarrow> nat \<Rightarrow> (nat \<times> egrp_call) list" where
  "egrp_round egrp eg k = [(k, EgSetLocal egrp eg 1), (k, EgProcessingEnd)]"

lemma elem_get_not_undef: "event_group_elem_get egrp = Some i \<Longrightarrow> egrp \<noteq> EM_EVENT_GROUP_UNDEF"
proof
  assume a: "event_group_elem_get egrp = Some i" and e: "egrp = EM_EVENT_GROUP_UNDEF"
  have m: "(0 - 1 :: u64) = 0xFFFFFFFFFFFFFFFF" by simp
  have "egrp_hdl2idx EM_EVENT_GROUP_UNDEF = 0xFFFFFFFF"
    unfolding egrp_hdl2idx_def EM_EVENT_GROUP_UNDEF_def m by simp
  with a show False by (simp add: e event_group_elem_get_def EM_MAX_EVENT_GROUPS_def)
qed

definition elem_notifs :: "event_group_elem \<Rightarrow> em_notif list" where
  "elem_notifs e = take (nat (min (num_notif e) (int EM_EVENT_GROUP_MAX_NOTIF))) (notif_tbl e)"

definition round_counts :: "egrp_conf \<Rightarrow> egrp_counter \<Rightarrow> egrp_counter" where
  "round_counts conf c = c\<lparr>pre_cnt := (if safe_mode conf then pre_cnt c - 1 else pre_cnt c),
     post_cnt := post_cnt c - 1, applied := unat (post_cnt c) \<noteq> 1\<rparr>"

lemma egrp_run_append:
  "egrp_run env (cs @ ds) (s, ls) =
    (case egrp_run env cs (s, ls) of (a, s', ls') \<Rightarrow>
      case egrp_run env ds (s', ls') of (b, r) \<Rightarrow> (a @ b, r))"
proof (induction cs arbitrary: s ls)
  case Nil
  then show ?case by (simp add: case_prod_beta)
next
  case (Cons kc cs)
  then show ?case by (cases kc) (simp add: case_prod_beta)
qed

lemma post_count_body_one:
  assumes "applied c" "1 \<le> unat (post_cnt c)"
  shows "post_count_body 1 (ucast (gen c)) c =
    Inr (Some (c\<lparr>post_cnt := post_cnt c - 1, applied := unat (post_cnt c) \<noteq> 1\<rparr>, unat (post_cnt c) = 1))"
proof (cases "unat (post_cnt c) = 1")
  case True
  then have "post_cnt c = 1" by (metis unsigned_1 word_unat_eq_iff)
  with True show ?thesis by (simp add: post_count_body_cases)
next
  case False
  with assms show ?thesis by (simp add: post_count_body_cases)
qed

lemma egrp_round_step:
  assumes i: "event_group_elem_get g = Some i" "i < length (egrp_tbl s)"
    and c: "applied (counts (egrp_tbl s ! i))" "1 \<le> unat (post_cnt (counts (egrp_tbl s ! i)))"
      "safe_mode (env_conf env) \<Longrightarrow> 1 \<le> unat (pre_cnt (counts (egrp_tbl s ! i)))"
    and eg: "eg = ucast (gen (counts (egrp_tbl s ! i)))"
    and rcv: "\<forall>k. rcv_multi_cnt (ls k) = 1"
  shows "\<exists>acts ls' s'. egrp_run env (egrp_round g eg k) (s, ls) = (acts, s', ls') \<and>
    (\<forall>k. rcv_multi_cnt (ls' k) = 1) \<and>
    egrp_tbl s' = (egrp_tbl s)[i := (egrp_tbl s ! i)\<lparr>counts := round_counts (env_conf env) (counts (egrp_tbl s ! i))\<rparr>] \<and>
    acts = (if unat (post_cnt (counts (egrp_tbl s ! i))) = 1
            then snd (send_notifs (env_send env) (elem_notifs (egrp_tbl s ! i))) else [])"
proof -
  define e c conf where "e = egrp_tbl s ! i" and "c = counts e" and "conf = env_conf env"
  define c1 where "c1 = (if safe_mode conf then c\<lparr>pre_cnt := pre_cnt c - 1\<rparr> else c)"
  define s1 where "s1 = (if safe_mode conf then upd_elem i (\<lambda>e. e\<lparr>counts := c1\<rparr>) s else s)"
  define l where "l = (ls k)\<lparr>cur_egrp := Some i, cur_gen := eg\<rparr>"
  define c2 where "c2 = round_counts conf c"
  define s2 where "s2 = upd_elem i (\<lambda>e. e\<lparr>counts := c2\<rparr>) s1"
  define ns where "ns = (if unat (post_cnt c) = 1 then elem_notifs e else [])"
  note cc = c [folded conf_def, folded e_def, folded c_def]
  have st1: "egrp_do env (EgSetLocal g eg 1) (s, ls k) = ([], s1, l)"
    using i cc eg elem_get_not_undef [OF i(1)]
    by (auto simp: event_group_set_local_def pre_count_body_def valid_pre_cnt_def Let_def s1_def c1_def
        l_def conf_def c_def e_def)
  have e1: "egrp_tbl s1 ! i = e\<lparr>counts := c1\<rparr>" using i(2) by (simp add: s1_def c1_def e_def c_def)
  have c1: "applied c1" "post_cnt c1 = post_cnt c" "gen c1 = gen c"
    "c1\<lparr>post_cnt := post_cnt c - 1, applied := unat (post_cnt c) \<noteq> 1\<rparr> = c2"
    using cc(1) by (simp_all add: c1_def c2_def round_counts_def)
  have "post_count_body 1 eg c1 = Inr (Some (c2, unat (post_cnt c) = 1))"
    using post_count_body_one [OF c1(1)] cc(2) c1(2-4) eg by (simp add: c_def e_def)
  then have pd: "post_count_decrement i 1 s1 l = (Inr ns, s2)"
    unfolding post_count_decrement_def Let_def e1
    by (simp add: l_def s2_def ns_def elem_notifs_def del: One_nat_def)
  have d: "unat (word_of_int (rcv_multi_cnt l) :: u32) = 1" using rcv by (simp add: l_def)
  have ne: "send_notifs snd_status [] = (EM_OK, [])" for snd_status by (simp add: send_notifs_def)
  have "\<exists>r. event_group_count_decrement (env_send env) 1 i s1 l =
      (r, snd (send_notifs (env_send env) ns), s2)"
    unfolding event_group_count_decrement_def pd by (cases "ns = []") (simp_all add: ne case_prod_beta)
  then obtain r where pe: "em_event_group_processing_end (env_send env) s1 l =
      (r, snd (send_notifs (env_send env) ns), s2, l\<lparr>cur_egrp := None\<rparr>)"
    unfolding em_event_group_processing_end_def d by (auto simp: l_def Let_def)
  have tbl: "egrp_tbl s2 = (egrp_tbl s)[i := e\<lparr>counts := c2\<rparr>]"
    using i(2) by (auto simp: s2_def s1_def e_def)
  have "egrp_run env (egrp_round g eg k) (s, ls) =
      (snd (send_notifs (env_send env) ns), s2, (ls(k := l))(k := l\<lparr>cur_egrp := None\<rparr>))"
    unfolding egrp_round_def using st1 pe by simp
  moreover have "\<forall>j. rcv_multi_cnt (((ls(k := l))(k := l\<lparr>cur_egrp := None\<rparr>)) j) = 1"
    using rcv by (simp add: l_def)
  ultimately show ?thesis
    using tbl ne unfolding ns_def c2_def conf_def c_def e_def by auto
qed

fun egrp_rounds :: "u64 \<Rightarrow> u32 \<Rightarrow> nat list \<Rightarrow> (nat \<times> egrp_call) list" where
  "egrp_rounds g eg [] = []"
| "egrp_rounds g eg (k # ks) = egrp_round g eg k @ egrp_rounds g eg ks"

lemma unat_minus_one24: "1 \<le> unat (x :: 24 word) \<Longrightarrow> unat (x - 1) = unat x - 1"
  using unat_sub24 [of 1 x] by simp

lemma egrp_rounds_run:
  assumes "event_group_elem_get g = Some i" "i < length (egrp_tbl s)"
    and "p = unat (post_cnt (counts (egrp_tbl s ! i)))" "length ks \<le> p"
    and "applied (counts (egrp_tbl s ! i)) \<longleftrightarrow> p \<noteq> 0"
    and "safe_mode (env_conf env) \<Longrightarrow> p \<le> unat (pre_cnt (counts (egrp_tbl s ! i)))"
    and "eg = ucast (gen (counts (egrp_tbl s ! i)))"
    and "\<forall>k. rcv_multi_cnt (ls k) = 1"
  shows "\<exists>acts ls' s'. egrp_run env (egrp_rounds g eg ks) (s, ls) = (acts, s', ls') \<and>
    acts = (if ks \<noteq> [] \<and> length ks = p
            then snd (send_notifs (env_send env) (elem_notifs (egrp_tbl s ! i))) else []) \<and>
    unat (post_cnt (counts (egrp_tbl s' ! i))) = p - length ks \<and>
    (applied (counts (egrp_tbl s' ! i)) \<longleftrightarrow> length ks < p)"
  using assms
proof (induction ks arbitrary: s ls p)
  case Nil
  then show ?case by auto
next
  case (Cons k ks)
  have p: "1 \<le> p" "applied (counts (egrp_tbl s ! i))" using Cons.prems by auto
  have sp: "safe_mode (env_conf env) \<Longrightarrow> 1 \<le> unat (pre_cnt (counts (egrp_tbl s ! i)))"
    using Cons.prems(6) p(1) by linarith
  obtain acts ls1 s1 where st: "egrp_run env (egrp_round g eg k) (s, ls) = (acts, s1, ls1)"
      "\<forall>k. rcv_multi_cnt (ls1 k) = 1"
      "egrp_tbl s1 = (egrp_tbl s)[i := (egrp_tbl s ! i)\<lparr>counts := round_counts (env_conf env) (counts (egrp_tbl s ! i))\<rparr>]"
      "acts = (if p = 1 then snd (send_notifs (env_send env) (elem_notifs (egrp_tbl s ! i))) else [])"
    using egrp_round_step [OF Cons.prems(1,2) p(2) _ sp Cons.prems(7,8), where k = k and env = env] p(1) Cons.prems(3) by auto
  have e1: "egrp_tbl s1 ! i = (egrp_tbl s ! i)\<lparr>counts := round_counts (env_conf env) (counts (egrp_tbl s ! i))\<rparr>"
    using st(3) Cons.prems(2) by simp
  have n1: "elem_notifs (egrp_tbl s1 ! i) = elem_notifs (egrp_tbl s ! i)" by (simp add: e1 elem_notifs_def)
  have q: "unat (post_cnt (counts (egrp_tbl s1 ! i))) = p - 1"
    using p(1) Cons.prems(3) by (simp add: e1 round_counts_def unat_minus_one24)
  have "\<exists>acts ls' s'. egrp_run env (egrp_rounds g eg ks) (s1, ls1) = (acts, s', ls') \<and>
    acts = (if ks \<noteq> [] \<and> length ks = p - 1
            then snd (send_notifs (env_send env) (elem_notifs (egrp_tbl s1 ! i))) else []) \<and>
    unat (post_cnt (counts (egrp_tbl s' ! i))) = (p - 1) - length ks \<and>
    (applied (counts (egrp_tbl s' ! i)) \<longleftrightarrow> length ks < p - 1)"
  proof (rule Cons.IH)
    show "applied (counts (egrp_tbl s1 ! i)) \<longleftrightarrow> p - 1 \<noteq> 0"
      using p(1) Cons.prems(3) by (auto simp: e1 round_counts_def)
    show "p - 1 \<le> unat (pre_cnt (counts (egrp_tbl s1 ! i)))" if "safe_mode (env_conf env)"
      using Cons.prems(6) [OF that] sp [OF that] that by (simp add: e1 round_counts_def unat_minus_one24)
    show "eg = ucast (gen (counts (egrp_tbl s1 ! i)))"
      using Cons.prems(7) by (simp add: e1 round_counts_def)
  qed (use Cons.prems q st in auto)
  then obtain acts2 ls' s' where r: "egrp_run env (egrp_rounds g eg ks) (s1, ls1) = (acts2, s', ls')"
    "acts2 = (if ks \<noteq> [] \<and> length ks = p - 1
            then snd (send_notifs (env_send env) (elem_notifs (egrp_tbl s ! i))) else [])"
    "unat (post_cnt (counts (egrp_tbl s' ! i))) = (p - 1) - length ks"
    "applied (counts (egrp_tbl s' ! i)) \<longleftrightarrow> length ks < p - 1" unfolding n1 by blast
  have "egrp_run env (egrp_rounds g eg (k # ks)) (s, ls) = (acts @ acts2, s', ls')"
    using st(1) r(1) by (simp add: egrp_run_append)
  moreover have "acts @ acts2 = (if k # ks \<noteq> [] \<and> length (k # ks) = p
            then snd (send_notifs (env_send env) (elem_notifs (egrp_tbl s ! i))) else [])"
    using st(4) r(2) p(1) Cons.prems(4) by (cases "p = 1") auto
  ultimately show ?case using r(3,4) p(1) by auto
qed

lemma apply_ok_elem:
  assumes "em_event_group_apply conf chk g count n (Some ns) s = (Inr EM_OK, s1)"
    and "tbl_wf s" "0 < check_level conf" "0 \<le> n"
  obtains i where "event_group_elem_get g = Some i" "i < length (egrp_tbl s1)"
    "unat (post_cnt (counts (egrp_tbl s1 ! i))) = nat count" "0 < count"
    "applied (counts (egrp_tbl s1 ! i))"
    "safe_mode conf \<Longrightarrow> unat (pre_cnt (counts (egrp_tbl s1 ! i))) = nat count"
    "elem_notifs (egrp_tbl s1 ! i) = take (nat n) ns"
proof -
  have c: "0 < count \<and> count \<le> int EGRP_CNT_MAX" if "apply_checks conf chk g count n (Some ns) s = None"
    using that assms(3) by (auto simp: apply_checks_def Let_def split: if_splits)
  obtain i c' nt where i: "event_group_elem_get g = Some i"
      "apply_body conf count (counts (egrp_tbl s ! i)) = Inr c'"
      "copy_notifs n (Some ns) (notif_tbl (egrp_tbl s ! i)) = Some nt"
      "s1 = upd_elem i (\<lambda>e. e\<lparr>num_notif := n, notif_tbl := nt, counts := c'\<rparr>) s"
      "0 < count" "count \<le> int EGRP_CNT_MAX"
    using assms(1) c by (auto simp: em_event_group_apply_def split: option.splits sum.splits)
  have lt: "i < length (egrp_tbl s)" using elem_get_lt [OF i(1)] assms(2) by (simp add: tbl_wf_def)
  have len: "length (notif_tbl (egrp_tbl s ! i)) = EM_EVENT_GROUP_MAX_NOTIF"
    using tbl_wf_elem [OF assms(2) elem_get_lt [OF i(1)]] by (simp add: elem_wf_def)
  have nt: "take (nat n) nt = take (nat n) ns" "nat n \<le> EM_EVENT_GROUP_MAX_NOTIF"
    using i(3) len assms(4) by (auto simp: copy_notifs_def split: if_splits)
  have "nat (min n (int EM_EVENT_GROUP_MAX_NOTIF)) = nat n" using nt(2) assms(4) by simp
  then have "elem_notifs (egrp_tbl s1 ! i) = take (nat n) ns"
    using i(4) lt nt(1) by (simp add: elem_notifs_def)
  moreover have "unat (post_cnt c') = nat count" "applied c'" "safe_mode conf \<Longrightarrow> unat (pre_cnt c') = nat count"
    using i(2) count_word(1) [OF i(5,6)] by (auto simp: apply_body_def split: if_splits)
  ultimately show thesis using that [OF i(1)] i(4,5) lt by simp
qed

text \<open>
  C6: An applied event group notifies exactly once, when its last event has been processed. After a
  successful apply with count \<^verbatim>\<open>n\<close>, events of the group processed one after the other, by any cores
  in any order, send nothing before the \<^verbatim>\<open>n\<close>-th; the \<^verbatim>\<open>n\<close>-th sends exactly the notifications given
  to apply, in order, and makes the group ready for the next apply.
\<close>

theorem event_group_lifecycle:
  assumes "em_event_group_apply (env_conf env) (env_chk env) g count n (Some ns) s = (Inr EM_OK, s1)"
    and "tbl_wf s" "0 < check_level (env_conf env)" "0 \<le> n"
    and "event_group_elem_get g = Some i" "eg = ucast (gen (counts (egrp_tbl s1 ! i)))"
    and "\<forall>k. rcv_multi_cnt (ls k) = 1" "length ks \<le> nat count"
  shows "\<exists>ls' s'. egrp_run env (egrp_rounds g eg ks) (s1, ls) =
      ((if length ks = nat count then snd (send_notifs (env_send env) (take (nat n) ns)) else []), s', ls') \<and>
    unat (post_cnt (counts (egrp_tbl s' ! i))) = nat count - length ks \<and>
    (applied (counts (egrp_tbl s' ! i)) \<longleftrightarrow> length ks < nat count)"
proof -
  obtain j where "event_group_elem_get g = Some j" and j: "j < length (egrp_tbl s1)"
    "unat (post_cnt (counts (egrp_tbl s1 ! j))) = nat count" "0 < count"
    "applied (counts (egrp_tbl s1 ! j))"
    "safe_mode (env_conf env) \<Longrightarrow> unat (pre_cnt (counts (egrp_tbl s1 ! j))) = nat count"
    "elem_notifs (egrp_tbl s1 ! j) = take (nat n) ns"
    by (rule apply_ok_elem [OF assms(1-4)]) blast
  with assms(5) have "j = i" by simp
  with j show ?thesis
    using egrp_rounds_run [OF assms(5), of s1 "nat count" ks env eg ls] assms(6,7,8) by auto
qed

text \<open>A group created and applied with two events and one notification.\<close>

definition demo_applied :: "u32 list egrp_shm" where
  "demo_applied = demo_shm\<lparr>egrp_tbl := map (\<lambda>i. zero_elem\<lparr>eg_hdl := egrp_idx2hdl (of_nat i)\<rparr>)
     [0..<EM_MAX_EVENT_GROUPS]\<rparr>"

lemma demo_applied_wf: "tbl_wf demo_applied"
  by (simp add: tbl_wf_def demo_applied_def elem_wf_def zero_elem_def cnt_wf_def zero_counter_def)

definition demo_notif :: em_notif where
  "demo_notif = \<lparr>nt_event = 77, nt_queue = 5, nt_egroup = 0\<rparr>"

lemma demo_apply:
  "\<exists>s1. em_event_group_apply (env_conf demo_egrp_env) (env_chk demo_egrp_env) 1 2 1 (Some [demo_notif])
      demo_applied = (Inr EM_OK, s1)" "event_group_elem_get 1 = Some 0"
proof -
  show g: "event_group_elem_get 1 = Some 0"
    by (simp add: event_group_elem_get_def egrp_hdl2idx_def EM_MAX_EVENT_GROUPS_def)
  have e: "egrp_tbl demo_applied ! 0 = zero_elem\<lparr>eg_hdl := egrp_idx2hdl (of_nat 0)\<rparr>"
    by (simp add: demo_applied_def EM_MAX_EVENT_GROUPS_def del: upt_Suc)
  show "\<exists>s1. em_event_group_apply (env_conf demo_egrp_env) (env_chk demo_egrp_env) 1 2 1 (Some [demo_notif])
      demo_applied = (Inr EM_OK, s1)"
    unfolding em_event_group_apply_def apply_checks_def
    by (simp add: g e demo_egrp_env_def demo_conf_def EGRP_CNT_MAX_def event_group_allocated_def zero_elem_def
        apply_body_def zero_counter_def copy_notifs_def EM_EVENT_GROUP_MAX_NOTIF_def)
qed

theorem event_group_lifecycle_witness:
  "\<exists>s1 ls' s'. em_event_group_apply (env_conf demo_egrp_env) (env_chk demo_egrp_env) 1 2 1
      (Some [demo_notif]) demo_applied = (Inr EM_OK, s1) \<and>
    egrp_run demo_egrp_env (egrp_rounds 1 (ucast (gen (counts (egrp_tbl s1 ! 0)))) [3, 4])
      (s1, \<lambda>_. demo_locm) = (snd (send_notifs (env_send demo_egrp_env) [demo_notif]), s', ls') \<and>
    unat (post_cnt (counts (egrp_tbl s' ! 0))) = 0 \<and> \<not> applied (counts (egrp_tbl s' ! 0))"
proof -
  obtain s1 where s1: "em_event_group_apply (env_conf demo_egrp_env) (env_chk demo_egrp_env) 1 2 1
      (Some [demo_notif]) demo_applied = (Inr EM_OK, s1)" using demo_apply(1) by blast
  have "\<exists>ls' s'. egrp_run demo_egrp_env (egrp_rounds 1 (ucast (gen (counts (egrp_tbl s1 ! 0)))) [3, 4])
      (s1, \<lambda>_. demo_locm) =
      ((if length [3 :: nat, 4] = nat 2
        then snd (send_notifs (env_send demo_egrp_env) (take (nat 1) [demo_notif])) else []), s', ls') \<and>
    unat (post_cnt (counts (egrp_tbl s' ! 0))) = nat 2 - length [3 :: nat, 4] \<and>
    (applied (counts (egrp_tbl s' ! 0)) \<longleftrightarrow> length [3 :: nat, 4] < nat 2)"
    by (rule event_group_lifecycle [OF s1 demo_applied_wf _ _ demo_apply(2) refl])
      (simp_all add: demo_egrp_env_def demo_conf_def demo_locm_def)
  then show ?thesis using s1 by auto
qed


text \<open>
  C34: Events of an expired generation do not count. An event tagged with a generation other than the
  group's current one (it was sent before an abort or a re-apply) changes no counter and sends
  nothing when it is processed, with and without safe mode, and the core ends with no current group.
\<close>

theorem expired_event_no_effect:
  assumes "event_group_elem_get g = Some i" "eg \<noteq> ucast (gen (counts (egrp_tbl s ! i)))"
  shows "\<exists>ls'. egrp_run env (egrp_round g eg k) (s, ls) = ([], s, ls') \<and> cur_egrp (ls' k) = None"
proof (cases "safe_mode (env_conf env)")
  case True
  with assms elem_get_not_undef [OF assms(1)] show ?thesis
    by (auto simp: egrp_round_def event_group_set_local_def pre_count_body_def valid_pre_cnt_def Let_def
        em_event_group_processing_end_def)
next
  case False
  let ?l = "(ls k)\<lparr>cur_egrp := Some i, cur_gen := eg\<rparr>"
  have "egrp_do env (EgSetLocal g eg 1) (s, ls k) = ([], s, ?l)"
    using False assms(1) elem_get_not_undef [OF assms(1)]
    by (simp add: event_group_set_local_def Let_def)
  moreover have "egrp_do env EgProcessingEnd (s, ?l) = ([], s, ?l\<lparr>cur_egrp := None\<rparr>)"
    using assms(2) by (auto simp: em_event_group_processing_end_def event_group_count_decrement_def
        post_count_decrement_def post_count_body_cases Let_def)
  ultimately show ?thesis by (simp add: egrp_round_def)
qed

theorem expired_event_no_effect_witness:
  "\<exists>ls'. egrp_run demo_egrp_env (egrp_round 1 7 4) (demo_applied, \<lambda>_. demo_locm) = ([], demo_applied, ls') \<and>
    cur_egrp (ls' 4) = None"
  by (rule expired_event_no_effect [OF demo_apply(2)])
    (simp add: demo_applied_def EM_MAX_EVENT_GROUPS_def zero_elem_def zero_counter_def del: upt_Suc)

text \<open>
  Notifications are sent in order and no event is lost. \<^verbatim>\<open>send_notifs\<close> makes one send call per
  notification in table order, frees exactly the events whose send failed, and returns the first
  failing status, EM_OK when all succeed.
\<close>

theorem send_notifs_complete:
  "filter (\<lambda>a. case a of ActFree _ \<Rightarrow> False | _ \<Rightarrow> True) (snd (send_notifs st ns)) =
     map (\<lambda>n. if invalid_egrp (nt_egroup n) then ActSend (nt_event n) (nt_queue n)
              else ActSendGroup (nt_event n) (nt_queue n) (nt_egroup n)) ns \<and>
   filter (\<lambda>a. case a of ActFree _ \<Rightarrow> True | _ \<Rightarrow> False) (snd (send_notifs st ns)) =
     map (\<lambda>n. ActFree (nt_event n)) (filter (\<lambda>n. st n \<noteq> EM_OK) ns) \<and>
   fst (send_notifs st ns) = (case filter (\<lambda>n. st n \<noteq> EM_OK) ns of [] \<Rightarrow> EM_OK | n # _ \<Rightarrow> st n)"
proof -
  have "filter (\<lambda>a. case a of ActFree _ \<Rightarrow> False | _ \<Rightarrow> True) (snd (send_notifs_loop st ns ret)) =
     map (\<lambda>n. if invalid_egrp (nt_egroup n) then ActSend (nt_event n) (nt_queue n)
              else ActSendGroup (nt_event n) (nt_queue n) (nt_egroup n)) ns \<and>
   filter (\<lambda>a. case a of ActFree _ \<Rightarrow> True | _ \<Rightarrow> False) (snd (send_notifs_loop st ns ret)) =
     map (\<lambda>n. ActFree (nt_event n)) (filter (\<lambda>n. st n \<noteq> EM_OK) ns) \<and>
   fst (send_notifs_loop st ns ret) = (if ret \<noteq> EM_OK then ret else
     (case filter (\<lambda>n. st n \<noteq> EM_OK) ns of [] \<Rightarrow> EM_OK | n # _ \<Rightarrow> st n))" for ret
    by (induction st ns ret rule: send_notifs_loop.induct) (auto simp: Let_def case_prod_beta)
  then show ?thesis by (simp add: send_notifs_def)
qed

lemma all_u64_bits:
  "all_u64 c = ucast (pre_cnt c) OR push_bit 24 (ucast (post_cnt c)) OR push_bit 48 (of_bool (applied c))
     OR push_bit 49 (ucast (gen c))"
proof -
  have 1: "(ucast (pre_cnt c) :: u64) + push_bit 24 (ucast (post_cnt c)) =
      ucast (pre_cnt c) OR push_bit 24 (ucast (post_cnt c))"
    by (rule disjunctive_add) (auto simp: bit_simps dest: bit_imp_le_length)
  have 2: "(ucast (pre_cnt c) OR push_bit 24 (ucast (post_cnt c))) + push_bit 48 (of_bool (applied c) :: u64) =
      (ucast (pre_cnt c) OR push_bit 24 (ucast (post_cnt c))) OR push_bit 48 (of_bool (applied c))"
    by (rule disjunctive_add) (auto simp: bit_simps dest: bit_imp_le_length)
  have 3: "(ucast (pre_cnt c) OR push_bit 24 (ucast (post_cnt c)) OR push_bit 48 (of_bool (applied c) :: u64))
        + push_bit 49 (ucast (gen c)) =
      (ucast (pre_cnt c) OR push_bit 24 (ucast (post_cnt c)) OR push_bit 48 (of_bool (applied c)))
        OR push_bit 49 (ucast (gen c))"
    by (rule disjunctive_add) (auto simp: bit_simps dest: bit_imp_le_length)
  show ?thesis unfolding all_u64_def 1 2 [unfolded or.assoc] 3 [unfolded or.assoc] by (simp add: or.assoc)
qed

text \<open>
  The packed counter word determines the counters. Reading the bit fields back from the 64-bit
  word gives the counters it was built from, so two groups of counters are equal exactly when their
  words are: comparing the word in a compare-and-swap compares all four fields.
\<close>

theorem counter_word_exact:
  "counter_of_u64 (all_u64 c) = c \<and> (all_u64 c = all_u64 c' \<longleftrightarrow> c = c')"
proof -
  have r: "counter_of_u64 (all_u64 c) = c" for c
  proof -
    have "ucast (all_u64 c) = pre_cnt c"
      unfolding all_u64_bits by (rule bit_word_eqI) (auto simp: bit_simps dest: bit_imp_le_length)
    moreover have "ucast (drop_bit 24 (all_u64 c)) = post_cnt c"
      unfolding all_u64_bits by (rule bit_word_eqI) (auto simp: bit_simps dest: bit_imp_le_length)
    moreover have "bit (all_u64 c) 48 = applied c"
      unfolding all_u64_bits by (auto simp: bit_simps dest: bit_imp_le_length)
    moreover have "ucast (drop_bit 49 (all_u64 c)) = gen c"
      unfolding all_u64_bits by (rule bit_word_eqI) (auto simp: bit_simps dest: bit_imp_le_length)
    ultimately show ?thesis by (simp add: counter_of_u64_def)
  qed
  then show ?thesis by metis
qed

end
