(* ===== verification/EventGroupConc.thy ===== *)
theory EventGroupConc
  imports EventGroup
begin

text \<open>
  Event group counters under the interleaving of several cores. Every counter operation of
  \<^verbatim>\<open>em_event_group.h\<close> and \<^verbatim>\<open>event_machine_event_group.c\<close> is a loop: load the 64-bit word, leave
  if the loaded counters do not allow the operation, otherwise read or write the notification table
  where the operation does so, and try to swap in the new word; a failed swap repeats the loop. The
  step relation interleaves these four kinds of step of all cores on one group. The loop bodies are
  the ones of the theory EventGroup.
\<close>

section \<open>Operations and steps\<close>

datatype egrp_op =
    OpPre nat u32
  | OpPost nat u32
  | OpIncr u32 u32
  | OpAssign int
  | OpAbort
  | OpApply int "em_notif list"

text \<open>The new counters when the loaded ones allow the operation.\<close>

fun op_try :: "egrp_conf \<Rightarrow> egrp_op \<Rightarrow> egrp_counter \<Rightarrow> egrp_counter option" where
  "op_try conf (OpPre d g) c = (case pre_count_body d g c of Inl e \<Rightarrow> None | Inr c' \<Rightarrow> Some c')"
| "op_try conf (OpPost d g) c =
     (case post_count_body d g c of Inr (Some (c', l)) \<Rightarrow> Some c' | _ \<Rightarrow> None)"
| "op_try conf (OpIncr n g) c = (case increment_body conf n g c of Inl e \<Rightarrow> None | Inr c' \<Rightarrow> Some c')"
| "op_try conf (OpAssign n) c = (case assign_body n c of Inl e \<Rightarrow> None | Inr c' \<Rightarrow> Some c')"
| "op_try conf OpAbort c = abort_body c"
| "op_try conf (OpApply n ns) c = (case apply_body conf n c of Inl e \<Rightarrow> None | Inr c' \<Rightarrow> Some c')"

text \<open>Whether the operation, applied to these counters, is the last event of the group.\<close>

fun op_last :: "egrp_op \<Rightarrow> egrp_counter \<Rightarrow> bool" where
  "op_last (OpPost d g) c = (case post_count_body d g c of Inr (Some (c', l)) \<Rightarrow> l | _ \<Rightarrow> False)"
| "op_last _ c = False"

fun is_apply :: "egrp_op \<Rightarrow> bool" where
  "is_apply (OpApply n ns) = True" | "is_apply _ = False"

text \<open>
  Arguments the callers pass: positive counts and decrements within the counter range
  (\<^verbatim>\<open>em_event_group_apply\<close> and \<^verbatim>\<open>_increment\<close> check theirs).
\<close>

fun op_ok :: "egrp_op \<Rightarrow> bool" where
  "op_ok (OpPre d g) = (0 < d)"
| "op_ok (OpPost d g) = (0 < d)"
| "op_ok (OpIncr n g) = (0 < n \<and> unat n \<le> EGRP_CNT_MAX)"
| "op_ok (OpAssign n) = (0 < n)"
| "op_ok OpAbort = True"
| "op_ok (OpApply n ns) = (0 < n \<and> n \<le> int EGRP_CNT_MAX)"

text \<open>
  Where a core is: outside, about to load, with loaded counters, or ready to swap. A core ready to
  swap holds the copy of the notification table it made if its operation would be the last event.
\<close>

datatype egrp_pc =
    Idle
  | Start egrp_op
  | Loaded egrp_op egrp_counter
  | Ready egrp_op egrp_counter "em_notif list"

record egrp_sys =
  sy_counts :: egrp_counter
  sy_notifs :: "em_notif list"
  sy_pc :: "nat \<Rightarrow> egrp_pc"
  sy_log :: "(egrp_op \<times> em_notif list) list"

text \<open>The log, newest first, lists the successful swaps with the notifications sent after each.\<close>

definition sys_init :: egrp_sys where
  "sys_init = \<lparr>sy_counts = zero_counter, sy_notifs = [], sy_pc = (\<lambda>_. Idle), sy_log = []\<rparr>"

definition set_pc :: "nat \<Rightarrow> egrp_pc \<Rightarrow> egrp_sys \<Rightarrow> egrp_sys" where
  "set_pc k p s = s\<lparr>sy_pc := (sy_pc s)(k := p)\<rparr>"

inductive egrp_step :: "egrp_conf \<Rightarrow> egrp_sys \<Rightarrow> egrp_sys \<Rightarrow> bool" for conf where
  Begin: "sy_pc s k = Idle \<Longrightarrow> op_ok op \<Longrightarrow> egrp_step conf s (set_pc k (Start op) s)"
| Leave: "sy_pc s k = Start op \<Longrightarrow> op_try conf op (sy_counts s) = None \<Longrightarrow>
    egrp_step conf s (set_pc k Idle s)"
| Load: "sy_pc s k = Start op \<Longrightarrow> op_try conf op (sy_counts s) = Some c' \<Longrightarrow>
    egrp_step conf s (set_pc k (Loaded op (sy_counts s)) s)"
| Publish: "sy_pc s k = Loaded (OpApply n ns) c \<Longrightarrow>
    egrp_step conf s ((set_pc k (Ready (OpApply n ns) c []) s)\<lparr>sy_notifs := ns\<rparr>)"
| Copy: "sy_pc s k = Loaded op c \<Longrightarrow> \<not> is_apply op \<Longrightarrow>
    egrp_step conf s (set_pc k (Ready op c (if op_last op c then sy_notifs s else [])) s)"
| Swap: "sy_pc s k = Ready op (sy_counts s) ns \<Longrightarrow> op_try conf op (sy_counts s) = Some c' \<Longrightarrow>
    egrp_step conf s ((set_pc k Idle s)\<lparr>sy_counts := c', sy_log := (op, ns) # sy_log s\<rparr>)"
| Retry: "sy_pc s k = Ready op c ns \<Longrightarrow> sy_counts s \<noteq> c \<Longrightarrow> egrp_step conf s (set_pc k (Start op) s)"

inductive_cases egrp_stepE: "egrp_step conf s s'"

inductive egrp_reach :: "egrp_conf \<Rightarrow> egrp_sys \<Rightarrow> bool" for conf where
  reach_init: "egrp_reach conf sys_init"
| reach_step: "egrp_reach conf s \<Longrightarrow> egrp_step conf s s' \<Longrightarrow> egrp_reach conf s'"

section \<open>The atomic specification\<close>

text \<open>Replaying the log of committed operations, oldest last, on the counters alone.\<close>

fun replay :: "egrp_conf \<Rightarrow> (egrp_op \<times> em_notif list) list \<Rightarrow> egrp_counter option" where
  "replay conf [] = Some zero_counter"
| "replay conf ((op, ns) # log) =
     (case replay conf log of None \<Rightarrow> None | Some c \<Rightarrow> op_try conf op c)"

text \<open>The number of completions in a log: last events and aborts.\<close>

fun completions :: "egrp_conf \<Rightarrow> (egrp_op \<times> em_notif list) list \<Rightarrow> nat" where
  "completions conf [] = 0"
| "completions conf ((op, ns) # log) =
     completions conf log +
     (case replay conf log of None \<Rightarrow> 0
      | Some c \<Rightarrow> if op = OpAbort \<or> op_last op c then 1 else 0)"

definition applies :: "(egrp_op \<times> em_notif list) list \<Rightarrow> nat" where
  "applies log = length (filter (is_apply \<circ> fst) log)"

text \<open>The events still to be processed, counted from the log.\<close>

fun units :: "(egrp_op \<times> em_notif list) list \<Rightarrow> int" where
  "units [] = 0"
| "units ((OpApply n ns, x) # log) = n"
| "units ((OpIncr n g, x) # log) = units log + int (unat n)"
| "units ((OpPost d g, x) # log) = units log - int d"
| "units ((OpAbort, x) # log) = 0"
| "units ((_, x) # log) = units log"

lemma set_pc_sel [simp]:
  "sy_counts (set_pc k p s) = sy_counts s"
  "sy_notifs (set_pc k p s) = sy_notifs s"
  "sy_pc (set_pc k p s) = (sy_pc s)(k := p)"
  "sy_log (set_pc k p s) = sy_log s"
  by (simp_all add: set_pc_def)

lemma reach_replay:
  assumes "egrp_reach conf s"
  shows "replay conf (sy_log s) = Some (sy_counts s)"
  using assms
proof induction
  case reach_init
  then show ?case by (simp add: sys_init_def)
next
  case (reach_step s s')
  from reach_step.hyps(2) reach_step.IH show ?case by cases simp_all
qed

text \<open>Every operation a core is in was begun with legal arguments.\<close>

fun pc_ok :: "egrp_pc \<Rightarrow> bool" where
  "pc_ok Idle = True"
| "pc_ok (Start op) = op_ok op"
| "pc_ok (Loaded op c) = op_ok op"
| "pc_ok (Ready op c ns) = op_ok op"

lemma step_ops:
  assumes "egrp_step conf s s'" "\<And>k. pc_ok (sy_pc s k)"
  shows "pc_ok (sy_pc s' j)"
  using assms(1)
proof cases
  case (Leave k op)
  then show ?thesis using assms(2) [of j] by simp
next
  case (Load k op c')
  then show ?thesis using assms(2) [of j] assms(2) [of k] by auto
next
  case (Publish k n ns c)
  then show ?thesis using assms(2) [of j] assms(2) [of k] by auto
qed (use assms(2) in \<open>force dest: arg_cong [of _ _ pc_ok]\<close>)+

lemma step_log_ops:
  assumes "egrp_step conf s s'" "\<And>k. pc_ok (sy_pc s k)" "\<forall>e \<in> set (sy_log s). op_ok (fst e)"
  shows "\<forall>e \<in> set (sy_log s'). op_ok (fst e)"
  using assms(1)
proof cases
  case (Swap k op ns c')
  then show ?thesis using assms(2) [of k] assms(3) by auto
qed (use assms(3) in simp_all)

lemma reach_ops:
  assumes "egrp_reach conf s"
  shows "(\<forall>k. pc_ok (sy_pc s k)) \<and> (\<forall>e \<in> set (sy_log s). op_ok (fst e))"
  using assms
proof induction
  case reach_init
  then show ?case by (simp add: sys_init_def)
next
  case (reach_step s s')
  then show ?case using step_ops [of conf s s'] step_log_ops [of conf s s'] by blast
qed

section \<open>The counters of a log\<close>

lemma op_try_wf:
  assumes "op_try conf op c = Some c'" "op_ok op" "cnt_wf c"
  shows "cnt_wf c'"
proof (cases op)
  case (OpPre d g)
  then show ?thesis using assms bodies_wf(1) [of c d g c'] by (auto split: sum.splits)
next
  case (OpPost d g)
  then show ?thesis using assms post_count_wf [of c d g c']
    by (auto split: sum.splits option.splits)
next
  case (OpIncr n g)
  then show ?thesis using assms increment_wf [of conf n g c c'] by (auto split: sum.splits)
next
  case (OpAssign n)
  then show ?thesis using assms bodies_wf(2) [of c n c'] by (auto split: sum.splits)
next
  case OpAbort
  then show ?thesis using assms bodies_wf(3) [of c c'] by simp
next
  case (OpApply n ns)
  then show ?thesis using assms bodies_wf(4) [of n conf c c'] by (auto split: sum.splits)
qed

lemma replay_wf:
  assumes "replay conf log = Some c" "\<forall>e \<in> set log. op_ok (fst e)"
  shows "cnt_wf c"
  using assms
proof (induction log arbitrary: c)
  case Nil
  then show ?case by (auto simp: cnt_wf_def zero_counter_def)
next
  case (Cons e log)
  obtain op ns where e: "e = (op, ns)" by (cases e)
  then obtain c0 where "replay conf log = Some c0" "op_try conf op c0 = Some c"
    using Cons.prems(1) by (auto split: option.splits)
  then show ?case using op_try_wf Cons e by auto
qed

text \<open>What a committed operation does to the flag, to the generation and to the post count.\<close>

lemma op_try_effect:
  assumes "op_try conf op c = Some c'" "op_ok op" "cnt_wf c"
  shows "(if applied c' then 1 else 0 :: nat) + (if op = OpAbort \<or> op_last op c then 1 else 0)
       = (if applied c then 1 else 0) + (if is_apply op then 1 else 0)"
    "gen c' = (if is_apply op then gen c + 1 else gen c)"
    "is_apply op \<Longrightarrow> \<not> applied c"
    "\<not> is_apply op \<Longrightarrow> applied c' \<Longrightarrow> applied c"
  using assms
  by (cases op; auto simp: cnt_wf_def pre_count_body_def valid_pre_cnt_def increment_body_def assign_body_def
        abort_body_def apply_body_def post_count_body_cases
      split: sum.splits option.splits if_splits)+

lemma int_sub_decr:
  assumes "d \<le> unat (p :: 24 word)"
  shows "int (unat (p - of_nat d)) = int (unat p) - int d"
  using unat_sub_decr [of d p] assms by (simp only: of_nat_diff)

lemma op_try_post:
  assumes "op_try conf op c = Some c'" "op_ok op" "cnt_wf c"
  shows "int (unat (post_cnt c')) =
    (case op of OpApply n ns \<Rightarrow> n | OpIncr n g \<Rightarrow> int (unat (post_cnt c)) + int (unat n)
     | OpPost d g \<Rightarrow> int (unat (post_cnt c)) - int d | OpAbort \<Rightarrow> 0 | _ \<Rightarrow> int (unat (post_cnt c)))"
proof (cases op)
  case (OpPost d g)
  then show ?thesis using assms int_sub_decr [of d "post_cnt c"]
    by (auto simp: post_count_body_cases split: if_splits)
next
  case (OpIncr n g)
  then show ?thesis using assms increment_body_Inr(1) [of conf n g c c', THEN arg_cong [of _ _ int]]
    by (auto split: sum.splits)
next
  case (OpApply n ns)
  then show ?thesis using assms count_word(1) [of n, THEN arg_cong [of _ _ int]]
    by (auto simp: apply_body_def split: if_splits)
qed (use assms in \<open>auto simp: pre_count_body_def valid_pre_cnt_def assign_body_def abort_body_def
       split: sum.splits if_splits\<close>)

lemma replay_accounts:
  assumes "replay conf log = Some c" "\<forall>e \<in> set log. op_ok (fst e)"
  shows "applies log = completions conf log + (if applied c then 1 else 0)
       \<and> units log = int (unat (post_cnt c))
       \<and> gen c = of_nat (applies log)"
  using assms
proof (induction log arbitrary: c)
  case Nil
  then show ?case by (auto simp: applies_def zero_counter_def)
next
  case (Cons e log)
  obtain op ns where e: "e = (op, ns)" by (cases e)
  then obtain c0 where c0: "replay conf log = Some c0" "op_try conf op c0 = Some c"
    using Cons.prems(1) by (auto split: option.splits)
  have ok: "op_ok op" "\<forall>e \<in> set log. op_ok (fst e)" using Cons.prems(2) e by auto
  have wf: "cnt_wf c0" by (rule replay_wf [OF c0(1) ok(2)])
  note IH = Cons.IH [OF c0(1) ok(2)]
  note eff = op_try_effect [OF c0(2) ok(1) wf] op_try_post [OF c0(2) ok(1) wf]
  have apps: "applies (e # log) = applies log + (if is_apply op then 1 else 0)"
    by (simp add: applies_def e)
  have "completions conf (e # log) =
      completions conf log + (if op = OpAbort \<or> op_last op c0 then 1 else 0)"
    using c0 e by simp
  moreover have "units (e # log) = int (unat (post_cnt c))"
    using eff(5) IH e by (cases op) auto
  moreover have "gen c = of_nat (applies (e # log))"
    using eff(2) IH apps by (simp add: add.commute)
  ultimately show ?case using apps eff(1) IH by linarith
qed

section \<open>Exclusive applies\<close>

text \<open>At most one core is inside \<^verbatim>\<open>em_event_group_apply\<close> for the group.\<close>

fun in_apply :: "egrp_pc \<Rightarrow> bool" where
  "in_apply Idle = False"
| "in_apply (Start op) = is_apply op"
| "in_apply (Loaded op c) = is_apply op"
| "in_apply (Ready op c ns) = is_apply op"

definition one_apply :: "egrp_sys \<Rightarrow> bool" where
  "one_apply s \<longleftrightarrow> (\<forall>k j. in_apply (sy_pc s k) \<longrightarrow> in_apply (sy_pc s j) \<longrightarrow> k = j)"

inductive egrp_reach1 :: "egrp_conf \<Rightarrow> egrp_sys \<Rightarrow> bool" for conf where
  reach1_init: "egrp_reach1 conf sys_init"
| reach1_step: "egrp_reach1 conf s \<Longrightarrow> egrp_step conf s s' \<Longrightarrow> one_apply s' \<Longrightarrow> egrp_reach1 conf s'"

lemma reach1_reach: "egrp_reach1 conf s \<Longrightarrow> egrp_reach conf s"
  by (induction rule: egrp_reach1.induct) (auto intro: egrp_reach.intros)

lemma reach1_one: "egrp_reach1 conf s \<Longrightarrow> one_apply s"
  by (induction rule: egrp_reach1.induct) (auto simp: one_apply_def sys_init_def)

text \<open>The notifications of the latest committed apply.\<close>

fun latest_notifs :: "(egrp_op \<times> em_notif list) list \<Rightarrow> em_notif list" where
  "latest_notifs [] = []"
| "latest_notifs ((OpApply n ns, x) # log) = ns"
| "latest_notifs (e # log) = latest_notifs log"

text \<open>Every last event was committed with the notifications of the latest apply before it.\<close>

fun delivered_ok :: "egrp_conf \<Rightarrow> (egrp_op \<times> em_notif list) list \<Rightarrow> bool" where
  "delivered_ok conf [] = True"
| "delivered_ok conf ((op, x) # log) =
     (delivered_ok conf log \<and>
      (case replay conf log of None \<Rightarrow> True
       | Some c \<Rightarrow> op_last op c \<longrightarrow> x = latest_notifs log))"

lemma latest_notifs_Cons:
  "latest_notifs ((op, x) # log) = (case op of OpApply n ns \<Rightarrow> ns | _ \<Rightarrow> latest_notifs log)"
  by (cases op) simp_all

text \<open>The notification table holds what an apply wrote.\<close>

fun published :: "egrp_op \<Rightarrow> em_notif list \<Rightarrow> bool" where
  "published (OpApply n ns) tbl = (tbl = ns)"
| "published _ tbl = True"

lemma published_other [simp]: "\<not> is_apply op \<Longrightarrow> published op tbl"
  by (cases op) simp_all

text \<open>
  What each program counter guarantees. A generation that matches the current one means the loaded
  counters are of the current round, as long as the 15-bit generation has not wrapped.
\<close>

fun pc_inv :: "egrp_sys \<Rightarrow> egrp_pc \<Rightarrow> bool" where
  "pc_inv s Idle = True"
| "pc_inv s (Start op) = True"
| "pc_inv s (Loaded op c) =
     (unat (gen c) \<le> unat (gen (sy_counts s)) \<and> (is_apply op \<longrightarrow> \<not> applied (sy_counts s)))"
| "pc_inv s (Ready op c x) =
     (unat (gen c) \<le> unat (gen (sy_counts s)) \<and> (is_apply op \<longrightarrow> \<not> applied (sy_counts s)) \<and>
      published op (sy_notifs s) \<and>
      (op_last op c \<longrightarrow> gen c = gen (sy_counts s) \<longrightarrow> applied (sy_counts s) \<longrightarrow>
         x = latest_notifs (sy_log s)))"

definition sys_inv :: "egrp_conf \<Rightarrow> egrp_sys \<Rightarrow> bool" where
  "sys_inv conf s \<longleftrightarrow> (\<forall>k. pc_inv s (sy_pc s k)) \<and> delivered_ok conf (sy_log s) \<and>
     (applied (sy_counts s) \<longrightarrow> sy_notifs s = latest_notifs (sy_log s))"

lemma gen_step:
  fixes g :: "15 word"
  assumes "g = of_nat n" "n + 1 < 2 ^ 15"
  shows "unat (g + 1) = unat g + 1"
proof -
  have "unat g = n" using assms unat_of_nat_small [where 'a = 15, of n] by simp
  then show ?thesis using assms(2) by (subst unat_add_no_wrap) simp_all
qed

lemma op_last_applied:
  assumes "op_last op c" "op_ok op" "cnt_wf c"
  shows "applied c" "\<not> is_apply op"
  using assms by (cases op; auto simp: post_count_body_cases cnt_wf_def split: if_splits)+

lemma pc_inv_swap:
  assumes p: "pc_inv s p" "\<not> (in_apply p \<and> is_apply op)"
    and s': "sy_counts s' = c'" "sy_notifs s' = sy_notifs s" "sy_log s' = (op, ns) # sy_log s"
    and gen: "unat (gen c') = (if is_apply op then unat (gen (sy_counts s)) + 1 else unat (gen (sy_counts s)))"
    and keep: "\<not> is_apply op \<Longrightarrow> applied c' \<Longrightarrow> applied (sy_counts s)"
  shows "pc_inv s' p"
proof (cases p)
  case (Loaded op2 c2)
  then show ?thesis using p gen keep s'(1) by (auto split: if_splits)
next
  case (Ready op2 c2 x)
  have le: "unat (gen c2) \<le> unat (gen (sy_counts s))" using p Ready by simp
  have "latest_notifs ((op, ns) # sy_log s) = latest_notifs (sy_log s)" if "\<not> is_apply op"
    using that by (cases op) simp_all
  moreover have "gen c' = gen (sy_counts s)" if "\<not> is_apply op"
    using that gen by (simp add: word_unat_eq_iff)
  moreover have "gen c2 \<noteq> gen c'" if "is_apply op" using that gen le by auto
  ultimately show ?thesis using p gen keep s' Ready
    by (cases "is_apply op") auto
qed simp_all

lemma swap_inv:
  assumes r: "egrp_reach conf s" and one: "one_apply s" and inv: "sys_inv conf s"
    and pc: "sy_pc s k = Ready op (sy_counts s) ns"
    and try_op: "op_try conf op (sy_counts s) = Some c'"
    and s': "s' = (set_pc k Idle s)\<lparr>sy_counts := c', sy_log := (op, ns) # sy_log s\<rparr>"
    and bound: "applies (sy_log s') < 2 ^ 15"
  shows "sys_inv conf s'"
proof -
  have rep: "replay conf (sy_log s) = Some (sy_counts s)" by (rule reach_replay [OF r])
  have logs: "\<forall>e \<in> set (sy_log s). op_ok (fst e)" and ok: "op_ok op"
    using reach_ops [OF r] pc pc_ok.simps(4) by (blast, metis)
  note wf = replay_wf [OF rep logs]
  note eff = op_try_effect [OF try_op ok wf]
  have g: "gen (sy_counts s) = of_nat (applies (sy_log s))"
    using replay_accounts [OF rep logs] by blast
  have gen: "unat (gen c') =
      (if is_apply op then unat (gen (sy_counts s)) + 1 else unat (gen (sy_counts s)))"
  proof (cases "is_apply op")
    case True
    then have "applies (sy_log s) + 1 < 2 ^ 15" using bound by (simp add: s' applies_def)
    then show ?thesis using True eff(2) gen_step [OF g] by presburger
  qed (use eff(2) in simp)
  have pk: "pc_inv s (Ready op (sy_counts s) ns)" using inv pc by (metis sys_inv_def)
  have "pc_inv s' (sy_pc s' j)" for j
  proof (cases "j = k")
    case False
    then have n: "\<not> (in_apply (sy_pc s j) \<and> is_apply op)"
      using one pc by (metis one_apply_def in_apply.simps(4))
    have p: "pc_inv s (sy_pc s j)" using inv by (simp add: sys_inv_def)
    have "pc_inv s' (sy_pc s j)"
      by (rule pc_inv_swap [OF p n _ _ _ gen eff(4)]) (simp_all add: s')
    then show ?thesis using False by (simp add: s')
  qed (simp add: s')
  moreover have "delivered_ok conf (sy_log s')"
    using inv pk op_last_applied(1) [OF _ ok wf] by (simp add: s' sys_inv_def rep)
  moreover have "sy_notifs s' = latest_notifs (sy_log s')" if "applied c'"
  proof (cases "is_apply op")
    case True
    then show ?thesis using pk by (cases op) (simp_all add: s')
  next
    case False
    then have "latest_notifs ((op, ns) # sy_log s) = latest_notifs (sy_log s)"
      by (cases op) simp_all
    then show ?thesis using False that eff(4) inv by (simp add: s' sys_inv_def)
  qed
  ultimately show ?thesis by (simp add: sys_inv_def s')
qed

text \<open>The other steps keep the counters and the log.\<close>

lemma quiet_pc_inv:
  assumes "sy_counts s' = sy_counts s" "sy_log s' = sy_log s" "sy_notifs s' = sy_notifs s"
  shows "pc_inv s' p = pc_inv s p"
  by (cases p) (simp_all add: assms)

lemma step_inv:
  assumes r: "egrp_reach conf s" and one: "one_apply s" and inv: "sys_inv conf s"
    and step: "egrp_step conf s s'" and bound: "applies (sy_log s') < 2 ^ 15"
  shows "sys_inv conf s'"
  using step
proof cases
  case (Swap k op ns c')
  then show ?thesis using swap_inv [OF r one inv, of k op ns c' s'] bound by simp
next
  case (Load k op c')
  have "is_apply op \<longrightarrow> \<not> applied (sy_counts s)"
    using Load(3) by (cases op) (auto simp: apply_body_def split: if_splits)
  moreover have "pc_inv s' (sy_pc s j)" for j
    using inv quiet_pc_inv [of s' s] Load(1) by (simp add: sys_inv_def)
  ultimately show ?thesis using inv Load(1) by (simp add: sys_inv_def)
next
  case (Publish k n ns c)
  have na: "\<not> applied (sy_counts s)" "unat (gen c) \<le> unat (gen (sy_counts s))"
    using inv [unfolded sys_inv_def, THEN conjunct1, THEN spec [of _ k]] Publish(2) by simp_all
  have "pc_inv s' (sy_pc s j)" if "j \<noteq> k" for j
  proof -
    have "\<not> in_apply (sy_pc s j)"
      using one that Publish(2) by (metis one_apply_def in_apply.simps(3) is_apply.simps(1))
    moreover have "pc_inv s (sy_pc s j)" using inv by (simp add: sys_inv_def)
    ultimately show ?thesis using na(1) Publish(1)
      by (cases "sy_pc s j") auto
  qed
  then show ?thesis using inv na Publish(1) by (simp add: sys_inv_def)
next
  case (Copy k op c)
  define x where "x = (if op_last op c then sy_notifs s else [])"
  have s': "s' = set_pc k (Ready op c x) s" using Copy(1) by (simp add: x_def)
  have pk: "pc_inv s (Loaded op c)" using inv Copy(2) by (metis sys_inv_def)
  have "pc_inv s' (sy_pc s j)" for j
    using inv quiet_pc_inv [of s' s] s' by (simp add: sys_inv_def)
  moreover have "pc_inv s' (Ready op c x)"
    using pk inv s' Copy(3) by (auto simp: sys_inv_def x_def)
  ultimately show ?thesis using inv s' by (simp add: sys_inv_def del: pc_inv.simps)
qed (use inv quiet_pc_inv [of s' s] in \<open>simp_all add: sys_inv_def\<close>)

lemma reach1_inv:
  assumes "egrp_reach1 conf s" "applies (sy_log s) < 2 ^ 15"
  shows "sys_inv conf s"
  using assms
proof induction
  case reach1_init
  then show ?case by (simp add: sys_inv_def sys_init_def zero_counter_def)
next
  case (reach1_step s s')
  have "applies (sy_log s) \<le> applies (sy_log s')"
    using reach1_step.hyps(2) by cases (simp_all add: applies_def)
  then show ?case using reach1_step step_inv [of conf s s'] reach1_reach reach1_one by fastforce
qed

section \<open>Running a schedule\<close>

text \<open>
  A core's next step is determined by where it is, except for what it begins: a schedule lists which
  core moves, with the operation it begins if it is outside.
\<close>

definition egrp_move :: "egrp_conf \<Rightarrow> nat \<times> egrp_op \<Rightarrow> egrp_sys \<Rightarrow> egrp_sys option" where
  "egrp_move conf m s =
     (let (k, new) = m in
      case sy_pc s k of
        Idle \<Rightarrow> if op_ok new then Some (set_pc k (Start new) s) else None
      | Start op \<Rightarrow>
          (case op_try conf op (sy_counts s) of
             None \<Rightarrow> Some (set_pc k Idle s)
           | Some _ \<Rightarrow> Some (set_pc k (Loaded op (sy_counts s)) s))
      | Loaded op c \<Rightarrow>
          (case op of
             OpApply n ns \<Rightarrow> Some ((set_pc k (Ready op c []) s)\<lparr>sy_notifs := ns\<rparr>)
           | _ \<Rightarrow> Some (set_pc k (Ready op c (if op_last op c then sy_notifs s else [])) s))
      | Ready op c ns \<Rightarrow>
          if sy_counts s \<noteq> c then Some (set_pc k (Start op) s)
          else case op_try conf op c of
                 None \<Rightarrow> None
               | Some c' \<Rightarrow> Some ((set_pc k Idle s)\<lparr>sy_counts := c', sy_log := (op, ns) # sy_log s\<rparr>))"

fun egrp_sched :: "egrp_conf \<Rightarrow> (nat \<times> egrp_op) list \<Rightarrow> egrp_sys \<Rightarrow> egrp_sys option" where
  "egrp_sched conf [] s = Some s"
| "egrp_sched conf (m # ms) s =
     (case egrp_move conf m s of None \<Rightarrow> None | Some s' \<Rightarrow> egrp_sched conf ms s')"

lemma egrp_move_step:
  assumes "egrp_move conf (k, new) s = Some s'"
  shows "egrp_step conf s s'"
proof (cases "sy_pc s k")
  case Idle
  then show ?thesis using assms by (auto simp: egrp_move_def split: if_splits intro: egrp_step.intros)
next
  case (Start op)
  then show ?thesis using assms
    by (auto simp: egrp_move_def split: option.splits intro: egrp_step.intros)
next
  case (Loaded op c)
  then show ?thesis
  proof (cases "is_apply op")
    case True
    then show ?thesis using assms Loaded
      by (cases op) (auto simp: egrp_move_def intro: egrp_step.intros)
  next
    case False
    then have "s' = set_pc k (Ready op c (if op_last op c then sy_notifs s else [])) s"
      using assms Loaded by (cases op) (simp_all add: egrp_move_def)
    then show ?thesis using Copy [OF Loaded False] by simp
  qed
next
  case (Ready op c ns)
  then show ?thesis using assms
    by (auto simp: egrp_move_def split: option.splits if_splits intro: egrp_step.intros)
qed

lemma egrp_sched_reach:
  assumes "egrp_sched conf ms s = Some s'" "egrp_reach conf s"
  shows "egrp_reach conf s'"
  using assms
proof (induction ms arbitrary: s)
  case (Cons m ms)
  obtain k new where "m = (k, new)" by (cases m)
  then show ?case using Cons egrp_move_step [of conf k new s] reach_step
    by (auto split: option.splits)
qed simp

text \<open>The invariant of exclusive applies along a schedule.\<close>

fun sched_exclusive :: "egrp_conf \<Rightarrow> (nat \<times> egrp_op) list \<Rightarrow> egrp_sys \<Rightarrow> bool" where
  "sched_exclusive conf [] s = True"
| "sched_exclusive conf (m # ms) s =
     (case egrp_move conf m s of None \<Rightarrow> False | Some s' \<Rightarrow> one_apply s' \<and> sched_exclusive conf ms s')"

lemma egrp_sched_reach1:
  assumes "egrp_sched conf ms s = Some s'" "sched_exclusive conf ms s" "egrp_reach1 conf s"
  shows "egrp_reach1 conf s'"
  using assms
proof (induction ms arbitrary: s)
  case (Cons m ms)
  obtain k new where "m = (k, new)" by (cases m)
  then show ?case using Cons egrp_move_step [of conf k new s] reach1_step
    by (auto split: option.splits)
qed simp

text \<open>Core 0 applies a group of one event, then core 1 processes it.\<close>

definition demo_sched :: "(nat \<times> egrp_op) list" where
  "demo_sched =
     (let a = (0, OpApply 1 [demo_notif]); p = (1, OpPost 1 1) in [a, a, a, a, p, p, p, p])"

definition demo_end :: egrp_sys where
  "demo_end = \<lparr>sy_counts = \<lparr>pre_cnt = 1, post_cnt = 0, applied = False, gen = 1\<rparr>,
     sy_notifs = [demo_notif], sy_pc = (\<lambda>_. Idle),
     sy_log = [(OpPost 1 1, [demo_notif]), (OpApply 1 [demo_notif], [])]\<rparr>"

lemmas egrp_eval = egrp_move_def set_pc_def sys_init_def zero_counter_def
  apply_body_def post_count_body_cases EGRP_CNT_MAX_def

lemma demo_sched_run: "egrp_sched demo_conf demo_sched sys_init = Some demo_end"
  by (simp add: demo_sched_def demo_end_def egrp_eval demo_conf_def fun_eq_iff Let_def)

lemma demo_sched_exclusive: "sched_exclusive demo_conf demo_sched sys_init"
  by (simp add: demo_sched_def egrp_eval demo_conf_def Let_def one_apply_def)

section \<open>Properties of the interleaved operations\<close>

text \<open>
  C1: whatever the interleaving of the cores, the counter word is what the committed operations
  produce when run one after the other; every apply has completed exactly once, by its last event or
  an abort, unless the group is still applied; and the post count is the number of events applied
  and added minus those processed since the latest apply.
\<close>

theorem egrp_interleaving_exact:
  assumes "egrp_reach conf s"
  shows "replay conf (sy_log s) = Some (sy_counts s) \<and>
    applies (sy_log s) = completions conf (sy_log s) + (if applied (sy_counts s) then 1 else 0) \<and>
    units (sy_log s) = int (unat (post_cnt (sy_counts s)))"
  using reach_replay [OF assms] reach_ops [OF assms] replay_accounts by blast

theorem egrp_interleaving_exact_witness:
  "applies (sy_log demo_end) = completions demo_conf (sy_log demo_end) + 0"
  using egrp_interleaving_exact [OF egrp_sched_reach [OF demo_sched_run reach_init]]
  by (simp add: demo_end_def)

text \<open>
  C17: when only one core at a time is inside \<^verbatim>\<open>em_event_group_apply\<close> for the group, and the
  15-bit generation has not wrapped, every last event sends exactly the notifications given to the
  apply of its own round.
\<close>

theorem egrp_notifs_of_own_round:
  assumes "egrp_reach1 conf s" "applies (sy_log s) < 2 ^ 15"
  shows "delivered_ok conf (sy_log s)"
  using reach1_inv [OF assms] by (simp add: sys_inv_def)

theorem egrp_notifs_of_own_round_witness:
  "egrp_reach1 demo_conf demo_end \<and> delivered_ok demo_conf (sy_log demo_end)"
proof
  show r: "egrp_reach1 demo_conf demo_end"
    by (rule egrp_sched_reach1 [OF demo_sched_run demo_sched_exclusive reach1_init])
  show "delivered_ok demo_conf (sy_log demo_end)"
    by (rule egrp_notifs_of_own_round [OF r]) (simp add: demo_end_def applies_def)
qed

text \<open>
  C40: two cores that apply the same group at the same time can both write the notification table
  before one of them wins the counter update: the other gets an error, yet its notifications are
  the ones sent when the winner's round completes.
\<close>

theorem egrp_apply_race:
  "\<exists>s. egrp_reach conf s \<and> sy_log s = [(OpPost 1 1, loser), (OpApply 1 winner, [])] \<and>
       sy_pc s 1 = Idle"
proof -
  let ?w = "(0, OpApply 1 winner)" and ?l = "(1, OpApply 1 loser)" and ?p = "(2, OpPost 1 1)"
  obtain s where s: "egrp_sched conf [?w, ?l, ?w, ?l, ?w, ?l, ?w, ?l, ?l, ?p, ?p, ?p, ?p] sys_init = Some s"
    "sy_log s = [(OpPost 1 1, loser), (OpApply 1 winner, [])]" "sy_pc s 1 = Idle"
    by (simp add: egrp_eval)
  then show ?thesis using egrp_sched_reach [OF s(1) reach_init] by blast
qed

end
