(* ===== verification/CoreMask.thy ===== *)
theory CoreMask
  imports Prelude
begin

text \<open>
  Core masks (\<^verbatim>\<open>event_machine_core_mask.c\<close>). A mask wraps an \<^verbatim>\<open>odp_cpumask_t\<close>, which is ODP's: its
  operations are a record that the definitions take as an argument, and \<^verbatim>\<open>cpumask_laws\<close> states what
  the ODP documentation promises of them. The same record serves for \<^verbatim>\<open>odp_thrmask_t\<close>, whose API is
  the same.
\<close>

unbundle bit_operations_syntax

section \<open>The mask operations of ODP\<close>

record 'm cpumask_ops =
  cm_size :: nat
  cm_zero :: 'm
  cm_set :: "'m \<Rightarrow> int \<Rightarrow> 'm"
  cm_clr :: "'m \<Rightarrow> int \<Rightarrow> 'm"
  cm_isset :: "'m \<Rightarrow> int \<Rightarrow> bool"
  cm_equal :: "'m \<Rightarrow> 'm \<Rightarrow> bool"
  cm_count :: "'m \<Rightarrow> int"
  cm_first :: "'m \<Rightarrow> int"
  cm_last :: "'m \<Rightarrow> int"
  cm_next :: "'m \<Rightarrow> int \<Rightarrow> int"
  cm_and :: "'m \<Rightarrow> 'm \<Rightarrow> 'm"
  cm_or :: "'m \<Rightarrow> 'm \<Rightarrow> 'm"
  cm_xor :: "'m \<Rightarrow> 'm \<Rightarrow> 'm"
  cm_from_str :: "string \<Rightarrow> 'm"
  cm_to_str :: "'m \<Rightarrow> int \<Rightarrow> int \<times> string"

text \<open>
  \<^verbatim>\<open>S m\<close> is the set of ids in the mask. A negative result of first, last and next means that there is
  no such id.
\<close>

definition cpumask_laws :: "'m cpumask_ops \<Rightarrow> ('m \<Rightarrow> nat set) \<Rightarrow> bool" where
  "cpumask_laws ops S \<longleftrightarrow>
     (\<forall>m. S m \<subseteq> {..<cm_size ops}) \<and>
     S (cm_zero ops) = {} \<and>
     (\<forall>m c. c < cm_size ops \<longrightarrow> S (cm_set ops m (int c)) = insert c (S m)) \<and>
     (\<forall>m c. c < cm_size ops \<longrightarrow> S (cm_clr ops m (int c)) = S m - {c}) \<and>
     (\<forall>m c. c < cm_size ops \<longrightarrow> (cm_isset ops m (int c) \<longleftrightarrow> c \<in> S m)) \<and>
     (\<forall>m m'. cm_equal ops m m' \<longleftrightarrow> S m = S m') \<and>
     (\<forall>m. cm_count ops m = int (card (S m))) \<and>
     (\<forall>m. if S m = {} then cm_first ops m < 0 else cm_first ops m = int (Min (S m))) \<and>
     (\<forall>m. if S m = {} then cm_last ops m < 0 else cm_last ops m = int (Max (S m))) \<and>
     (\<forall>m c. let T = {x \<in> S m. c < x}
            in if T = {} then cm_next ops m (int c) < 0 else cm_next ops m (int c) = int (Min T)) \<and>
     (\<forall>m m'. S (cm_and ops m m') = S m \<inter> S m') \<and>
     (\<forall>m m'. S (cm_or ops m m') = S m \<union> S m') \<and>
     (\<forall>m m'. S (cm_xor ops m m') = (S m - S m') \<union> (S m' - S m))"

section \<open>The mask functions\<close>

definition em_core_mask_zero :: "'m cpumask_ops \<Rightarrow> 'm" where
  "em_core_mask_zero ops = cm_zero ops"

definition em_core_mask_set :: "'m cpumask_ops \<Rightarrow> int \<Rightarrow> 'm \<Rightarrow> 'm" where
  "em_core_mask_set ops core m = cm_set ops m core"

definition em_core_mask_clr :: "'m cpumask_ops \<Rightarrow> int \<Rightarrow> 'm \<Rightarrow> 'm" where
  "em_core_mask_clr ops core m = cm_clr ops m core"

definition em_core_mask_isset :: "'m cpumask_ops \<Rightarrow> int \<Rightarrow> 'm \<Rightarrow> bool" where
  "em_core_mask_isset ops core m = cm_isset ops m core"

definition em_core_mask_iszero :: "'m cpumask_ops \<Rightarrow> 'm \<Rightarrow> bool" where
  "em_core_mask_iszero ops m = cm_equal ops (cm_zero ops) m"

definition em_core_mask_equal :: "'m cpumask_ops \<Rightarrow> 'm \<Rightarrow> 'm \<Rightarrow> bool" where
  "em_core_mask_equal ops m1 m2 = cm_equal ops m1 m2"

fun set_count_loop :: "'m cpumask_ops \<Rightarrow> int \<Rightarrow> nat \<Rightarrow> 'm \<Rightarrow> 'm" where
  "set_count_loop ops i 0 m = m"
| "set_count_loop ops i (Suc k) m = set_count_loop ops (i + 1) k (cm_set ops m i)"

definition em_core_mask_set_count :: "'m cpumask_ops \<Rightarrow> int \<Rightarrow> 'm \<Rightarrow> 'm" where
  "em_core_mask_set_count ops count m = set_count_loop ops 0 (nat count) m"

definition em_core_mask_count :: "'m cpumask_ops \<Rightarrow> 'm \<Rightarrow> int" where
  "em_core_mask_count ops m = cm_count ops m"

text \<open>
  The inner loop over the bits of one word: \<^verbatim>\<open>k\<close> is \<^verbatim>\<open>64 - j\<close>. The first result says that the function
  returns from inside the loop.
\<close>

fun set_bits_word :: "'m cpumask_ops \<Rightarrow> nat \<Rightarrow> nat \<Rightarrow> nat \<Rightarrow> u64 \<Rightarrow> 'm \<Rightarrow> bool \<times> 'm" where
  "set_bits_word ops i j 0 mask64 m = (False, m)"
| "set_bits_word ops i j (Suc k) mask64 m =
     (if mask64 = 0 then (False, m)
      else let cpu = i * 64 + j
           in if int cpu > int (cm_size ops) - 1 then (True, m)
              else if mask64 AND push_bit j 1 \<noteq> 0
              then set_bits_word ops i (Suc j) k (mask64 AND (mask64 - 1)) (cm_set ops m (int cpu))
              else set_bits_word ops i (Suc j) k mask64 m)"

fun set_bits_words :: "'m cpumask_ops \<Rightarrow> nat \<Rightarrow> u64 list \<Rightarrow> 'm \<Rightarrow> 'm" where
  "set_bits_words ops i [] m = m"
| "set_bits_words ops i (w # ws) m =
     (let (ret, m') = set_bits_word ops i 0 64 w m
      in if ret then m' else set_bits_words ops (Suc i) ws m')"

definition em_core_mask_set_bits :: "'m cpumask_ops \<Rightarrow> u64 list \<Rightarrow> int \<Rightarrow> 'm \<Rightarrow> 'm" where
  "em_core_mask_set_bits ops bits len m =
     (let maxlen = int ((cm_size ops + 63) div 64);
          len' = (if len > maxlen then maxlen else len)
      in set_bits_words ops 0 (take (nat len') bits) m)"

text \<open>
  The loops \<^verbatim>\<open>cpu = first; while (cpu >= 0 && ...) { ...; cpu = next; }\<close>: the id at which the loop ended
  and the value computed.
\<close>

partial_function (option) mask_walk ::
  "'m cpumask_ops \<Rightarrow> 'm \<Rightarrow> (int \<Rightarrow> 'a \<Rightarrow> bool) \<Rightarrow> (int \<Rightarrow> 'a \<Rightarrow> 'a) \<Rightarrow> int \<Rightarrow> 'a \<Rightarrow> (int \<times> 'a) option" where
  "mask_walk ops m go body cpu acc =
     (if cpu \<ge> 0 \<and> go cpu acc then mask_walk ops m go body (cm_next ops m cpu) (body cpu acc)
      else Some (cpu, acc))"

text \<open>The number of words set and the words; the loop sets \<^verbatim>\<open>i\<close> to the last word touched.\<close>

definition em_core_mask_bits :: "'m cpumask_ops \<Rightarrow> u64 list \<Rightarrow> int \<Rightarrow> 'm \<Rightarrow> (int \<times> u64 list) option" where
  "em_core_mask_bits ops bits len m =
     (if len < 1 then Some (0, bits)
      else let maxcpu = (if int (cm_size ops) - 1 \<ge> len * 64 then len * 64 - 1 else int (cm_size ops) - 1);
               bits0 = replicate (nat len) 0 @ drop (nat len) bits
           in map_option (\<lambda>(_, i, bs). (i + 1, bs))
                (mask_walk ops m (\<lambda>cpu _. cpu \<le> maxcpu)
                   (\<lambda>cpu (_, bs). (cpu div 64,
                       bs[nat (cpu div 64) := bs ! nat (cpu div 64) OR push_bit (nat (cpu mod 64)) 1]))
                   (cm_first ops m) (- 1, bits0)))"

definition em_core_mask_set_str :: "'m cpumask_ops \<Rightarrow> string \<Rightarrow> 'm \<Rightarrow> int \<times> 'm" where
  "em_core_mask_set_str ops mask_str m = (0, cm_or ops m (cm_from_str ops mask_str))"

definition em_core_mask_tostr :: "'m cpumask_ops \<Rightarrow> int \<Rightarrow> 'm \<Rightarrow> string" where
  "em_core_mask_tostr ops len m =
     (let (ret, str) = cm_to_str ops m len in if ret \<le> 0 \<and> len > 0 then [] else str)"

definition EM_MAX_CORES :: nat where "EM_MAX_CORES = 64"

definition em_core_mask_idx :: "'m cpumask_ops \<Rightarrow> int \<Rightarrow> 'm \<Rightarrow> int option" where
  "em_core_mask_idx ops n m =
     (if unat (word_of_int (n - 1) :: u32) \<ge> EM_MAX_CORES then Some (- 1)
      else map_option fst
             (mask_walk ops m (\<lambda>_ i. i < n) (\<lambda>_ i. i + 1) (cm_first ops m) (1 :: int)))"

definition em_core_mask_first :: "'m cpumask_ops \<Rightarrow> 'm \<Rightarrow> int" where
  "em_core_mask_first ops m = cm_first ops m"

definition em_core_mask_last :: "'m cpumask_ops \<Rightarrow> 'm \<Rightarrow> int" where
  "em_core_mask_last ops m = cm_last ops m"

definition em_core_mask_next :: "'m cpumask_ops \<Rightarrow> 'm \<Rightarrow> int \<Rightarrow> int" where
  "em_core_mask_next ops m idx = cm_next ops m idx"

definition em_core_mask_and :: "'m cpumask_ops \<Rightarrow> 'm \<Rightarrow> 'm \<Rightarrow> 'm" where
  "em_core_mask_and ops m1 m2 = cm_and ops m1 m2"

definition em_core_mask_or :: "'m cpumask_ops \<Rightarrow> 'm \<Rightarrow> 'm \<Rightarrow> 'm" where
  "em_core_mask_or ops m1 m2 = cm_or ops m1 m2"

definition em_core_mask_xor :: "'m cpumask_ops \<Rightarrow> 'm \<Rightarrow> 'm \<Rightarrow> 'm" where
  "em_core_mask_xor ops m1 m2 = cm_xor ops m1 m2"

lemmas core_mask_defs = em_core_mask_zero_def em_core_mask_set_def em_core_mask_clr_def
  em_core_mask_isset_def em_core_mask_iszero_def em_core_mask_equal_def em_core_mask_count_def
  em_core_mask_first_def em_core_mask_last_def em_core_mask_next_def em_core_mask_and_def
  em_core_mask_or_def em_core_mask_xor_def

section \<open>Walking a mask\<close>

text \<open>The reference: the same loop over the ids in increasing order.\<close>

fun ids_walk :: "(int \<Rightarrow> 'a \<Rightarrow> bool) \<Rightarrow> (int \<Rightarrow> 'a \<Rightarrow> 'a) \<Rightarrow> nat list \<Rightarrow> 'a \<Rightarrow> nat option \<times> 'a" where
  "ids_walk go body [] acc = (None, acc)"
| "ids_walk go body (x # xs) acc =
     (if go (int x) acc then ids_walk go body xs (body (int x) acc) else (Some x, acc))"

definition mask_at :: "nat list \<Rightarrow> int \<Rightarrow> bool" where
  "mask_at xs cpu \<longleftrightarrow> (case xs of [] \<Rightarrow> cpu < 0 | x # _ \<Rightarrow> cpu = int x)"

lemma sorted_list_split:
  assumes "finite (S :: nat set)"
  shows "sorted_list_of_set S = (if S = {} then [] else Min S # sorted_list_of_set {x \<in> S. Min S < x})"
proof (cases "S = {}")
  case False
  have "S - {Min S} = {x \<in> S. Min S < x}" using assms by (auto simp: less_le)
  then show ?thesis using False assms by (simp add: sorted_list_of_set_nonempty)
qed simp

lemma laws_sub: "cpumask_laws ops S \<Longrightarrow> c \<in> S m \<Longrightarrow> c < cm_size ops"
  using cpumask_laws_def [of ops S] by (simp add: subset_iff)

lemma laws_set:
  "cpumask_laws ops S \<Longrightarrow> c < cm_size ops \<Longrightarrow> S (cm_set ops m (int c)) = insert c (S m)"
  by (simp add: cpumask_laws_def)

lemma laws_clr:
  "cpumask_laws ops S \<Longrightarrow> c < cm_size ops \<Longrightarrow> S (cm_clr ops m (int c)) = S m - {c}"
  by (simp add: cpumask_laws_def)

lemma laws_isset:
  "cpumask_laws ops S \<Longrightarrow> c < cm_size ops \<Longrightarrow> cm_isset ops m (int c) \<longleftrightarrow> c \<in> S m"
  by (simp add: cpumask_laws_def)

lemma laws_simps:
  "cpumask_laws ops S \<Longrightarrow> S (cm_zero ops) = {}"
  "cpumask_laws ops S \<Longrightarrow> cm_equal ops m m' \<longleftrightarrow> S m = S m'"
  "cpumask_laws ops S \<Longrightarrow> cm_count ops m = int (card (S m))"
  "cpumask_laws ops S \<Longrightarrow> S (cm_and ops m m') = S m \<inter> S m'"
  "cpumask_laws ops S \<Longrightarrow> S (cm_or ops m m') = S m \<union> S m'"
  "cpumask_laws ops S \<Longrightarrow> S (cm_xor ops m m') = (S m - S m') \<union> (S m' - S m)"
  by (simp_all add: cpumask_laws_def)

lemma laws_finite: "cpumask_laws ops S \<Longrightarrow> finite (S m)"
  unfolding cpumask_laws_def by (meson finite_lessThan finite_subset)

lemma laws_first:
  assumes "cpumask_laws ops S"
  shows "mask_at (sorted_list_of_set (S m)) (cm_first ops m)"
proof -
  have "if S m = {} then cm_first ops m < 0 else cm_first ops m = int (Min (S m))"
    using assms by (simp add: cpumask_laws_def)
  then show ?thesis
    by (subst sorted_list_split [OF laws_finite [OF assms]]) (auto simp: mask_at_def)
qed

lemma laws_next:
  assumes "cpumask_laws ops S"
  shows "mask_at (sorted_list_of_set {x \<in> S m. c < x}) (cm_next ops m (int c))"
proof -
  have "if {x \<in> S m. c < x} = {} then cm_next ops m (int c) < 0
        else cm_next ops m (int c) = int (Min {x \<in> S m. c < x})"
    using assms by (simp add: cpumask_laws_def Let_def)
  then show ?thesis using laws_finite [OF assms, of m]
    by (subst sorted_list_split) (auto simp: mask_at_def)
qed

lemma mask_walk_ids:
  assumes laws: "cpumask_laws ops S" and sub: "T = {x \<in> S m. P x}"
    and up: "\<And>x y. x \<in> T \<Longrightarrow> y \<in> S m \<Longrightarrow> x < y \<Longrightarrow> P y"
    and at: "mask_at (sorted_list_of_set T) cpu"
  shows "\<exists>c. mask_walk ops m go body cpu acc = Some (c, snd (ids_walk go body (sorted_list_of_set T) acc)) \<and>
    (case fst (ids_walk go body (sorted_list_of_set T) acc) of None \<Rightarrow> c < 0 | Some x \<Rightarrow> c = int x)"
  using sub up at
proof (induction "card T" arbitrary: T P cpu acc rule: less_induct)
  case less
  have fin: "finite T" using laws_finite [OF laws, of m] less.prems(1) by simp
  show ?case
  proof (cases "T = {}")
    case True
    then have "cpu < 0" using less.prems(3) by (simp add: mask_at_def)
    then show ?thesis using True by (subst mask_walk.simps) simp
  next
    case False
    let ?T = "{x \<in> T. Min T < x}"
    have l: "sorted_list_of_set T = Min T # sorted_list_of_set ?T"
      using sorted_list_split [OF fin] False by simp
    have cpu: "cpu = int (Min T)" using less.prems(3) l by (simp add: mask_at_def)
    have min: "Min T \<in> T" using fin False by simp
    have T: "?T = {x \<in> S m. Min T < x}" using less.prems(1,2) min by auto
    show ?thesis
    proof (cases "go cpu acc")
      case True
      have "card ?T < card T" using fin min by (intro psubset_card_mono) auto
      moreover have "mask_at (sorted_list_of_set ?T) (cm_next ops m cpu)"
        unfolding T cpu by (rule laws_next [OF laws])
      ultimately have "\<exists>c. mask_walk ops m go body (cm_next ops m cpu) (body cpu acc) =
          Some (c, snd (ids_walk go body (sorted_list_of_set ?T) (body cpu acc))) \<and>
        (case fst (ids_walk go body (sorted_list_of_set ?T) (body cpu acc)) of None \<Rightarrow> c < 0
         | Some x \<Rightarrow> c = int x)"
        by (intro less.hyps [OF _ T]) auto
      then show ?thesis using True cpu l by (subst mask_walk.simps) simp
    next
      case False
      then show ?thesis using cpu l by (subst mask_walk.simps) simp
    qed
  qed
qed

lemma mask_walk_first:
  assumes "cpumask_laws ops S"
  obtains c where
    "mask_walk ops m go body (cm_first ops m) acc =
       Some (c, snd (ids_walk go body (sorted_list_of_set (S m)) acc))"
    "case fst (ids_walk go body (sorted_list_of_set (S m)) acc) of None \<Rightarrow> c < 0 | Some x \<Rightarrow> c = int x"
  using mask_walk_ids [OF assms, of "S m" m "\<lambda>_. True" "cm_first ops m" go body acc]
    laws_first [OF assms, of m] by auto

lemma ids_walk_fold:
  "ids_walk (\<lambda>_ _. True) body xs acc = (None, fold (\<lambda>x. body (int x)) xs acc)"
  by (induction xs arbitrary: acc) simp_all

section \<open>Setting bits\<close>

lemma and_minus_one_unset:
  fixes w :: "'a::len word"
  assumes "bit w j" "\<And>i. i < j \<Longrightarrow> \<not> bit w i"
  shows "w AND (w - 1) = unset_bit j w"
proof -
  let ?r = "unset_bit j w"
  have j: "j < LENGTH('a)" using assms(1) by (rule bit_imp_le_length)
  have "push_bit j 1 AND ?r = 0" by (rule bit_word_eqI) (auto simp: bit_simps)
  then have "push_bit j 1 + ?r = push_bit j 1 OR ?r" by (rule disjunctive_add_eq_or)
  also have "\<dots> = w" using assms(1) j by (intro bit_word_eqI) (auto simp: bit_simps)
  finally have w: "w = push_bit j 1 + ?r" by simp
  have "mask j AND ?r = 0" using assms(2) by (intro bit_word_eqI) (auto simp: bit_simps)
  then have "mask j + ?r = mask j OR ?r" by (rule disjunctive_add_eq_or)
  moreover have "w - 1 = mask j + ?r" by (subst w) (simp add: mask_eq_exp_minus_1 push_bit_eq_mult)
  ultimately have m: "w - 1 = mask j OR ?r" by simp
  show ?thesis
    unfolding m using assms(2) by (intro bit_word_eqI) (auto simp: bit_simps)
qed

lemma and_bit_nonzero: "w AND 2 ^ j \<noteq> 0 \<longleftrightarrow> bit (w :: 'a::len word) j"
  by (simp add: bit_iff_and_push_bit_not_eq_0 push_bit_of_1)

lemma set_bits_word_sets:
  assumes laws: "cpumask_laws ops S" and "j + k = 64" "\<And>b. b < j \<Longrightarrow> \<not> bit w b"
    and r: "set_bits_word ops i j k w m = (ret, m')"
  shows "S m' = S m \<union> {c. c < cm_size ops \<and> c div 64 = i \<and> bit w (c mod 64)} \<and>
    (ret \<longrightarrow> cm_size ops \<le> i * 64 + 63)"
  using assms(2-)
proof (induction k arbitrary: j w m)
  case 0
  then show ?case by (auto simp: not_le)
next
  case (Suc k)
  let ?A = "\<lambda>w. {c. c < cm_size ops \<and> c div 64 = i \<and> bit w (c mod 64)}"
  consider "w = 0" | "w \<noteq> 0" "cm_size ops \<le> i * 64 + j"
    | "w \<noteq> 0" "i * 64 + j < cm_size ops" "bit w j"
    | "w \<noteq> 0" "i * 64 + j < cm_size ops" "\<not> bit w j" by linarith
  then show ?case
  proof cases
    case 1
    then show ?thesis using Suc.prems by simp
  next
    case 2
    have "\<not> bit w (c mod 64)" if "c < cm_size ops" "c div 64 = i" for c
    proof -
      have "c mod 64 < j" using that 2(2) by presburger
      then show ?thesis using Suc.prems(2) by simp
    qed
    then show ?thesis using 2 Suc.prems by (auto simp: Let_def)
  next
    case 3
    have u: "w AND (w - 1) = unset_bit j w" by (rule and_minus_one_unset) (use 3 Suc.prems in auto)
    have rec: "set_bits_word ops i (Suc j) k (unset_bit j w) (cm_set ops m (int (i * 64 + j))) = (ret, m')"
      using Suc.prems(3) 3 u by (simp add: Let_def and_bit_nonzero)
    have "S m' = S (cm_set ops m (int (i * 64 + j))) \<union> ?A (unset_bit j w) \<and>
        (ret \<longrightarrow> cm_size ops \<le> i * 64 + 63)"
      by (rule Suc.IH [OF _ _ rec]) (use Suc.prems 3 in \<open>auto simp: bit_simps less_Suc_eq\<close>)
    moreover have "S (cm_set ops m (int (i * 64 + j))) = insert (i * 64 + j) (S m)"
      by (rule laws_set [OF laws 3(2)])
    moreover have "?A w = insert (i * 64 + j) (?A (unset_bit j w))"
    proof -
      have "c = i * 64 + j" if "c div 64 = i" "c mod 64 = j" for c using that by presburger
      then show ?thesis using 3 Suc.prems(1) by (auto simp: bit_simps)
    qed
    ultimately show ?thesis by auto
  next
    case 4
    have rec: "set_bits_word ops i (Suc j) k w m = (ret, m')"
      using Suc.prems(3) 4 by (simp add: Let_def and_bit_nonzero)
    show ?thesis
      by (rule Suc.IH [OF _ _ rec]) (use Suc.prems 4 in \<open>auto simp: less_Suc_eq\<close>)
  qed
qed

lemma set_bits_words_sets:
  assumes laws: "cpumask_laws ops S"
  shows "S (set_bits_words ops i ws m) =
    S m \<union> {c. c < cm_size ops \<and> i \<le> c div 64 \<and> c div 64 < i + length ws \<and> bit (ws ! (c div 64 - i)) (c mod 64)}"
proof (induction ws arbitrary: i m)
  case Nil
  then show ?case by auto
next
  case (Cons w ws)
  obtain ret m' where r: "set_bits_word ops i 0 64 w m = (ret, m')" by fastforce
  have w: "S m' = S m \<union> {c. c < cm_size ops \<and> c div 64 = i \<and> bit w (c mod 64)}"
    "ret \<longrightarrow> cm_size ops \<le> i * 64 + 63"
    using set_bits_word_sets [OF laws _ _ r] by auto
  let ?B = "\<lambda>i ws. {c. c < cm_size ops \<and> i \<le> c div 64 \<and> c div 64 < i + length ws \<and>
      bit (ws ! (c div 64 - i)) (c mod 64)}"
  have split: "?B i (w # ws) = {c. c < cm_size ops \<and> c div 64 = i \<and> bit w (c mod 64)} \<union> ?B (Suc i) ws"
  proof -
    have "i \<le> d \<and> d < i + length (w # ws) \<and> bit ((w # ws) ! (d - i)) b \<longleftrightarrow>
        (d = i \<and> bit w b) \<or> (Suc i \<le> d \<and> d < Suc i + length ws \<and> bit (ws ! (d - Suc i)) b)" for d b
      by (cases "d = i") (auto simp: nth_Cons')
    then show ?thesis by blast
  qed
  show ?case
  proof (cases ret)
    case True
    then have "?B (Suc i) ws = {}" using w(2) by auto
    with split have "?B i (w # ws) = {c. c < cm_size ops \<and> c div 64 = i \<and> bit w (c mod 64)}"
      by (simp only: Un_empty_right)
    moreover have "set_bits_words ops i (w # ws) m = m'" using True r by simp
    ultimately show ?thesis using w(1) by (simp only:)
  next
    case False
    then show ?thesis using r w(1) split Cons.IH [of "Suc i" m'] by auto
  qed
qed

section \<open>Reading bits\<close>

lemma ids_walk_upto:
  "ids_walk (\<lambda>x _. x \<le> mx) body xs acc =
    (case dropWhile (\<lambda>x. int x \<le> mx) xs of [] \<Rightarrow> None | x # _ \<Rightarrow> Some x,
     fold (\<lambda>x. body (int x)) (takeWhile (\<lambda>x. int x \<le> mx) xs) acc)"
  by (induction xs arbitrary: acc) simp_all

lemma takeWhile_sorted_filter:
  "sorted (xs :: nat list) \<Longrightarrow> takeWhile (\<lambda>x. int x \<le> mx) xs = filter (\<lambda>x. int x \<le> mx) xs"
  by (induction xs) (auto simp: filter_empty_conv eq_commute [of "[]"])

definition set_word_bit :: "int \<Rightarrow> int \<times> u64 list \<Rightarrow> int \<times> u64 list" where
  "set_word_bit = (\<lambda>cpu (_, bs). (cpu div 64,
     bs[nat (cpu div 64) := bs ! nat (cpu div 64) OR push_bit (nat (cpu mod 64)) 1]))"

lemma sorted_le_last: "sorted xs \<Longrightarrow> x \<in> set xs \<Longrightarrow> (x :: nat) \<le> last xs"
  by (induction xs) auto

lemma set_word_bit_fold:
  assumes "\<forall>x \<in> set xs. x div 64 < length bs"
  shows "case fold (\<lambda>x. set_word_bit (int x)) xs (i, bs) of (i', bs') \<Rightarrow>
    length bs' = length bs \<and>
    i' = (if xs = [] then i else int (last xs div 64)) \<and>
    (\<forall>k<length bs. \<forall>b<64. bit (bs' ! k) b \<longleftrightarrow> bit (bs ! k) b \<or> k * 64 + b \<in> set xs)"
  using assms
proof (induction xs rule: rev_induct)
  case (snoc x xs)
  obtain i' bs' where f: "fold (\<lambda>x. set_word_bit (int x)) xs (i, bs) = (i', bs')" by fastforce
  have IH: "length bs' = length bs"
    "\<forall>k<length bs. \<forall>b<64. bit (bs' ! k) b \<longleftrightarrow> bit (bs ! k) b \<or> k * 64 + b \<in> set xs"
    using snoc f by auto
  have n: "nat (int x div 64) = x div 64" "nat (int x mod 64) = x mod 64"
    by (simp_all add: nat_div_distrib nat_mod_distrib)
  have x: "k * 64 + b = x \<longleftrightarrow> x div 64 = k \<and> x mod 64 = b" if "b < 64" for k b
    using that by auto
  have "bit (bs'[x div 64 := bs' ! (x div 64) OR push_bit (x mod 64) 1] ! k) b \<longleftrightarrow>
      bit (bs ! k) b \<or> k * 64 + b \<in> set (xs @ [x])" if "k < length bs" "b < 64" for k b
    using that IH snoc.prems x [OF that(2), of k]
    by (cases "k = x div 64") (auto simp: bit_simps nth_list_update)
  then show ?case using f IH(1) by (simp add: set_word_bit_def n zdiv_int del: push_bit_of_1)
qed simp

lemma core_mask_bits_walk:
  fixes m :: 'm
  assumes laws: "cpumask_laws ops S" and len: "1 \<le> len" "nat len \<le> length bits"
  defines "T \<equiv> {c \<in> S m. c < 64 * nat len}"
  shows "\<exists>bs. em_core_mask_bits ops bits len m =
      Some (if T = {} then 0 else int (Max T div 64) + 1, bs) \<and>
    length bs = length bits \<and> drop (nat len) bs = drop (nat len) bits \<and>
    (\<forall>k<nat len. \<forall>b<64. bit (bs ! k) b \<longleftrightarrow> k * 64 + b \<in> S m)"
proof -
  define mx where "mx = (if int (cm_size ops) - 1 \<ge> len * 64 then len * 64 - 1 else int (cm_size ops) - 1)"
  define bs0 where "bs0 = replicate (nat len) 0 @ drop (nat len) bits"
  define xs where "xs = takeWhile (\<lambda>x. int x \<le> mx) (sorted_list_of_set (S m))"
  have fin: "finite (S m)" by (rule laws_finite [OF laws])
  have mx: "int c \<le> mx \<longleftrightarrow> c < 64 * nat len" if "c \<in> S m" for c
  proof -
    have "c < cm_size ops" by (rule laws_sub [OF laws that])
    moreover have "int (nat len) = len" using len(1) by simp
    moreover have "mx = (if int (cm_size ops) - 1 \<ge> len * 64 then len * 64 - 1 else int (cm_size ops) - 1)"
      by (rule mx_def)
    ultimately show ?thesis by (simp split: if_splits; linarith)
  qed
  have "set xs = {c \<in> S m. int c \<le> mx}"
    unfolding xs_def using fin by (subst takeWhile_sorted_filter) auto
  also have "\<dots> = T" using mx by (auto simp: T_def)
  finally have set: "set xs = T" .
  have sorted: "sorted xs" unfolding xs_def by (simp add: takeWhile_sorted_filter sorted_wrt_filter)
  have len0: "length bs0 = length bits" using len by (simp add: bs0_def)
  have lt: "\<forall>x \<in> set xs. x div 64 < length bs0"
  proof
    fix x assume "x \<in> set xs"
    then have "x < nat len * 64" using set by (simp add: T_def)
    then have "x div 64 < nat len" by (simp add: div_less_iff_less_mult)
    then show "x div 64 < length bs0" using len(2) len0 by simp
  qed
  obtain i bs where f: "fold (\<lambda>x. set_word_bit (int x)) xs (- 1, bs0) = (i, bs)" by fastforce
  note r = set_word_bit_fold [OF lt, of "- 1", unfolded f, simplified]
  obtain c where w: "mask_walk ops m (\<lambda>x _. x \<le> mx) set_word_bit (cm_first ops m) (- 1, bs0) = Some (c, i, bs)"
    using mask_walk_first [OF laws, of m "\<lambda>x _. x \<le> mx" set_word_bit "(- 1, bs0)"] f
    by (auto simp: ids_walk_upto xs_def)
  have "em_core_mask_bits ops bits len m = Some (i + 1, bs)"
    using w len(1) by (simp add: em_core_mask_bits_def mx_def bs0_def set_word_bit_def)
  moreover have "i + 1 = (if T = {} then 0 else int (Max T div 64) + 1)"
  proof (cases "xs = []")
    case False
    have "last xs \<in> T" using False set last_in_set by blast
    moreover have "c \<le> last xs" if "c \<in> T" for c
      using sorted_le_last [OF sorted] that set by blast
    moreover have "finite T" using set List.finite_set by metis
    ultimately have "Max T = last xs" by (intro Max_eqI)
    then show ?thesis using False r set by auto
  qed (use r set in auto)
  moreover have "drop (nat len) bs = drop (nat len) bits"
  proof (rule nth_equalityI)
    fix k assume "k < length (drop (nat len) bs)"
    then have k: "nat len + k < length bs0" using r by simp
    have "bs ! (nat len + k) = bs0 ! (nat len + k)"
      using r k set by (intro bit_word_eqI) (auto simp: T_def)
    then show "drop (nat len) bs ! k = drop (nat len) bits ! k"
      using k r len0 by (simp add: bs0_def nth_append)
  qed (use r len0 in simp)
  moreover have "bit (bs ! k) b \<longleftrightarrow> k * 64 + b \<in> S m" if "k < nat len" "b < 64" for k b
    using r that len set len0 by (auto simp: bs0_def nth_append T_def)
  ultimately show ?thesis using r len0 by auto
qed

section \<open>A concrete mask for the witnesses\<close>

definition set_mask_ops :: "nat \<Rightarrow> nat set cpumask_ops" where
  "set_mask_ops n = \<lparr>cm_size = n, cm_zero = {},
     cm_set = (\<lambda>m c. insert (nat c) m), cm_clr = (\<lambda>m c. m - {nat c}), cm_isset = (\<lambda>m c. nat c \<in> m \<and> nat c < n),
     cm_equal = (\<lambda>m m'. m \<inter> {..<n} = m' \<inter> {..<n}), cm_count = (\<lambda>m. int (card (m \<inter> {..<n}))),
     cm_first = (\<lambda>m. if m \<inter> {..<n} = {} then -1 else int (Min (m \<inter> {..<n}))),
     cm_last = (\<lambda>m. if m \<inter> {..<n} = {} then -1 else int (Max (m \<inter> {..<n}))),
     cm_next = (\<lambda>m c. let T = {x \<in> m \<inter> {..<n}. nat c < x} in if T = {} then -1 else int (Min T)),
     cm_and = (\<inter>), cm_or = (\<union>), cm_xor = (\<lambda>m m'. (m - m') \<union> (m' - m)),
     cm_from_str = (\<lambda>_. {}), cm_to_str = (\<lambda>_ _. (0, []))\<rparr>"

lemma set_mask_laws: "cpumask_laws (set_mask_ops n) (\<lambda>m. m \<inter> {..<n})"
  unfolding cpumask_laws_def set_mask_ops_def by (auto simp: Let_def)

section \<open>Properties of the core masks\<close>

lemma core_mask_set_bits_sets:
  assumes "cpumask_laws ops S" "nat len \<le> length bits"
  shows "S (em_core_mask_set_bits ops bits len m) =
    S m \<union> {c. c < cm_size ops \<and> c div 64 < nat len \<and> bit (bits ! (c div 64)) (c mod 64)}"
proof -
  define l where "l = nat (if len > int ((cm_size ops + 63) div 64) then int ((cm_size ops + 63) div 64) else len)"
  have l: "c div 64 < l \<longleftrightarrow> c div 64 < nat len" if "c < cm_size ops" for c
    using that by (auto simp: l_def)
  have "S (em_core_mask_set_bits ops bits len m) = S (set_bits_words ops 0 (take l bits) m)"
    by (simp add: em_core_mask_set_bits_def Let_def l_def)
  also have "\<dots> = S m \<union> {c. c < cm_size ops \<and> c div 64 < length (take l bits) \<and>
      bit (take l bits ! (c div 64)) (c mod 64)}"
    by (subst set_bits_words_sets [OF assms(1)]) simp
  also have "length (take l bits) = l" using assms(2) by (simp add: l_def)
  also have "{c. c < cm_size ops \<and> c div 64 < l \<and> bit (take l bits ! (c div 64)) (c mod 64)} =
      {c. c < cm_size ops \<and> c div 64 < nat len \<and> bit (bits ! (c div 64)) (c mod 64)}"
    by (rule Collect_cong) (use l in \<open>metis nth_take\<close>)
  finally show ?thesis .
qed

text \<open>
  C28: \<^verbatim>\<open>em_core_mask_set_bits\<close> adds exactly the cores whose bits are set in the first \<^verbatim>\<open>len\<close> words:
  bit b of word k is core 64 k + b, and words and bits beyond the mask size are ignored.
\<close>

theorem em_core_mask_set_bits_correct:
  assumes "cpumask_laws ops S" "nat len \<le> length bits"
  shows "S (em_core_mask_set_bits ops bits len m) =
    S m \<union> {c. c < cm_size ops \<and> c div 64 < nat len \<and> bit (bits ! (c div 64)) (c mod 64)}"
  by (rule core_mask_set_bits_sets [OF assms])

lemma bit_five: "bit (5 :: int) b \<longleftrightarrow> b = 0 \<or> b = 2"
  by (cases b; cases "b - 1"; cases "b - 2"; cases "b - 3") (auto simp: bit_0 bit_Suc)

theorem em_core_mask_set_bits_correct_witness:
  "em_core_mask_set_bits (set_mask_ops 128) [5] 1 {7} \<inter> {..<128} = {0, 2, 7}"
proof -
  have "em_core_mask_set_bits (set_mask_ops 128) [5] 1 {7} \<inter> {..<128} = {7} \<inter> {..<128} \<union>
      {c. c < cm_size (set_mask_ops 128) \<and> c div 64 < nat 1 \<and> bit ([5 :: u64] ! (c div 64)) (c mod 64)}"
    by (rule em_core_mask_set_bits_correct [OF set_mask_laws]) simp
  moreover have "c < cm_size (set_mask_ops 128) \<and> c div 64 < nat 1 \<and> bit ([5 :: u64] ! (c div 64)) (c mod 64)
      \<longleftrightarrow> c = 0 \<or> c = 2" for c
  proof (cases "c < 64")
    case True
    then show ?thesis by (simp add: bit_five set_mask_ops_def)
  next
    case False
    then have "\<not> c div 64 < nat 1" by simp
    then show ?thesis using False by auto
  qed
  ultimately show ?thesis by auto
qed

text \<open>
  C28: \<^verbatim>\<open>em_core_mask_bits\<close> returns, fills the first \<^verbatim>\<open>len\<close> words with exactly the cores of the mask
  they can hold, leaves the other words alone, and returns the number of words up to the last used
  one; setting these bits in an empty mask gives back the cores below 64 len.
\<close>

theorem em_core_mask_bits_correct:
  assumes "cpumask_laws ops S" "1 \<le> len" "nat len \<le> length bits"
  shows "\<exists>bs. em_core_mask_bits ops bits len m =
      Some (if {c \<in> S m. c < 64 * nat len} = {} then 0
            else int (Max {c \<in> S m. c < 64 * nat len} div 64) + 1, bs) \<and>
    length bs = length bits \<and> drop (nat len) bs = drop (nat len) bits \<and>
    (\<forall>k<nat len. \<forall>b<64. bit (bs ! k) b \<longleftrightarrow> k * 64 + b \<in> S m) \<and>
    S (em_core_mask_set_bits ops bs len (em_core_mask_zero ops)) = {c \<in> S m. c < 64 * nat len}"
proof -
  obtain bs where bs: "em_core_mask_bits ops bits len m =
      Some (if {c \<in> S m. c < 64 * nat len} = {} then 0
            else int (Max {c \<in> S m. c < 64 * nat len} div 64) + 1, bs)"
    "length bs = length bits" "drop (nat len) bs = drop (nat len) bits"
    "\<forall>k<nat len. \<forall>b<64. bit (bs ! k) b \<longleftrightarrow> k * 64 + b \<in> S m"
    using core_mask_bits_walk [OF assms] by blast
  have "S (em_core_mask_set_bits ops bs len (em_core_mask_zero ops)) =
      {c. c < cm_size ops \<and> c div 64 < nat len \<and> bit (bs ! (c div 64)) (c mod 64)}"
    using core_mask_set_bits_sets [OF assms(1), of len bs] assms(3) bs(2) laws_simps(1) [OF assms(1)]
    by (simp add: em_core_mask_zero_def)
  also have "\<dots> = {c \<in> S m. c < 64 * nat len}"
  proof -
    have "bit (bs ! (c div 64)) (c mod 64) \<longleftrightarrow> c \<in> S m" if "c div 64 < nat len" for c
      using bs(4) that by simp
    moreover have "c div 64 < nat len \<longleftrightarrow> c < 64 * nat len" for c
      by (simp add: less_mult_imp_div_less div_less_iff_less_mult mult.commute)
    ultimately show ?thesis using laws_sub [OF assms(1)] by auto
  qed
  finally show ?thesis using bs by blast
qed

theorem em_core_mask_bits_correct_witness:
  "\<exists>bs. length bs = 3 \<and> drop (nat 2) bs = [9] \<and>
    em_core_mask_set_bits (set_mask_ops 200) bs 2 {} \<inter> {..<200} = {3, 70}"
proof -
  have "nat 2 \<le> length [0, 1, 9 :: u64]" by simp
  then obtain bs where "length bs = length [0, 1, 9 :: u64]" "drop (nat 2) bs = drop (nat 2) [0, 1, 9 :: u64]"
    "em_core_mask_set_bits (set_mask_ops 200) bs 2 (em_core_mask_zero (set_mask_ops 200)) \<inter> {..<200} =
       {c \<in> {3, 70, 150} \<inter> {..<200}. c < 64 * nat 2}"
    using em_core_mask_bits_correct [OF set_mask_laws, of 2 "[0, 1, 9]" 200 "{3, 70, 150}"] by auto
  moreover have "{c \<in> {3, 70, 150} \<inter> {..<200 :: nat}. c < 64 * nat 2} = {3, 70}" by auto
  ultimately show ?thesis by (auto simp: em_core_mask_zero_def set_mask_ops_def)
qed

lemma ids_walk_count:
  assumes "i \<le> n"
  shows "fst (ids_walk (\<lambda>_ i. i < n) (\<lambda>_ i. i + 1) xs i) =
    (if nat (n - i) < length xs then Some (xs ! nat (n - i)) else None)"
  using assms
proof (induction xs arbitrary: i)
  case (Cons x xs)
  have "nat (n - i) = Suc (nat (n - (i + 1)))" if "i < n" using that by simp
  then show ?case using Cons.IH [of "i + 1"] Cons.prems by (cases "i < n") auto
qed simp

text \<open>
  C30: \<^verbatim>\<open>em_core_mask_idx\<close> returns the n-th core of the mask in increasing order, counted from 1, and
  a negative value when the mask has fewer cores or n is out of range.
\<close>

theorem em_core_mask_idx_correct:
  assumes "cpumask_laws ops S" "- (2 ^ 31) < n" "n < 2 ^ 31"
  shows "\<exists>c. em_core_mask_idx ops n m = Some c \<and>
    (if 1 \<le> n \<and> n \<le> int EM_MAX_CORES \<and> n \<le> int (card (S m))
     then c = int (sorted_list_of_set (S m) ! nat (n - 1)) else c < 0)"
proof (cases "1 \<le> n \<and> n \<le> int EM_MAX_CORES")
  case True
  then have "unat (word_of_int (n - 1) :: u32) < EM_MAX_CORES"
    by (subst unat_word_of_int_small) (auto simp: EM_MAX_CORES_def)
  then have e: "em_core_mask_idx ops n m = map_option fst
      (mask_walk ops m (\<lambda>_ i. i < n) (\<lambda>_ i. i + 1) (cm_first ops m) 1)"
    by (simp add: em_core_mask_idx_def)
  obtain c where c: "mask_walk ops m (\<lambda>_ i. i < n) (\<lambda>_ i. i + 1) (cm_first ops m) 1 =
      Some (c, snd (ids_walk (\<lambda>_ i. i < n) (\<lambda>_ i. i + 1) (sorted_list_of_set (S m)) 1))"
    "case fst (ids_walk (\<lambda>_ i. i < n) (\<lambda>_ i. i + 1) (sorted_list_of_set (S m)) 1) of
       None \<Rightarrow> c < 0 | Some x \<Rightarrow> c = int x"
    by (rule mask_walk_first [OF assms(1)])
  have "n \<le> int (card (S m)) \<longleftrightarrow> nat (n - 1) < length (sorted_list_of_set (S m))"
    using True by (simp; linarith)
  then show ?thesis using c e True ids_walk_count [of 1 n "sorted_list_of_set (S m)"]
    by (auto split: if_splits)
next
  case False
  have "unat (word_of_int (n - 1) :: u32) \<ge> EM_MAX_CORES"
  proof (cases "1 \<le> n")
    case True
    then show ?thesis using False assms(3)
      by (subst unat_word_of_int_small) (auto simp: EM_MAX_CORES_def)
  next
    case neg: False
    have "word_of_int (n - 1) = (word_of_int (n - 1 + 2 ^ 32) :: u32)"
      by (simp add: wi_hom_add [symmetric])
    moreover have "unat (word_of_int (n - 1 + 2 ^ 32) :: u32) = nat (n - 1 + 2 ^ 32)"
      by (rule unat_word_of_int_small) (use neg assms(2) in simp_all)
    ultimately have "unat (word_of_int (n - 1) :: u32) = nat (n - 1 + 2 ^ 32)" by (rule ssubst)
    then show ?thesis using assms(2) by (simp only: EM_MAX_CORES_def) simp
  qed
  then show ?thesis using False by (auto simp: em_core_mask_idx_def)
qed

theorem em_core_mask_idx_correct_witness:
  "em_core_mask_idx (set_mask_ops 128) 2 {4, 9, 100} = Some 9"
proof -
  have "{4, 9, 100} \<inter> {..<128 :: nat} = {4, 9, 100}" by auto
  then show ?thesis
    using em_core_mask_idx_correct [OF set_mask_laws, of 2 128 "{4, 9, 100}"]
    by (simp add: EM_MAX_CORES_def)
qed

end
