(* ===== verification/CoreMap.thy ===== *)
theory CoreMap
  imports CoreMask TableIter
begin

text \<open>
  The map between ODP threads and logical EM cores (\<^verbatim>\<open>em_core.c\<close>, \<^verbatim>\<open>em_core_types.h\<close>,
  \<^verbatim>\<open>event_machine_core.c\<close>): taking a core id at start-up, giving it back at termination, translating
  core masks to thread masks, and iterating over the cores. Every change is made with the map's
  write lock held, so each operation is one step.
\<close>

section \<open>The core map\<close>

datatype em_core_type = EM_CORE_TYPE_UNDEF | EM_CORE_TYPE_WORKER | EM_CORE_TYPE_CONTROL | EM_CORE_TYPE_EXTERNAL

text \<open>The arrays are functions of the index; \<^verbatim>\<open>'m\<close> are core masks, \<^verbatim>\<open>'t\<close> thread masks.\<close>

record ('m, 't) core_map =
  current_core_count :: u32
  worker_core_count :: u32
  control_core_count :: u32
  external_thread_count :: u32
  ongoing_term_reqs :: "nat \<Rightarrow> u32"
  tvl_logic :: "nat \<Rightarrow> u8"
  tvl_odp_thr :: "nat \<Rightarrow> u16"
  logic_mask :: 'm
  worker_mask :: 'm
  control_mask :: 'm
  thrmask_emcores :: 't
  thrmask_extthrs :: 't
  thrmask_all :: 't
  tids :: "nat \<Rightarrow> int"
  ext_tids :: "nat \<Rightarrow> int"
  core_types :: "nat \<Rightarrow> em_core_type"
  proc_tid_stat_paths :: "nat \<Rightarrow> string"

text \<open>The parts of \<^verbatim>\<open>em_conf_t\<close> and what the calling thread observes of its environment.\<close>

record 'm core_conf =
  conf_core_count :: u32
  conf_phys_mask :: 'm

record thr_env =
  env_cpu_id :: int
  env_tid :: int
  env_odp_thr :: int
  env_thr_count_max :: int
  env_affinity :: "bool list option"

definition ODP_THREAD_COUNT_MAX :: "'t cpumask_ops \<Rightarrow> int" where
  "ODP_THREAD_COUNT_MAX tops = int (cm_size tops)"

section \<open>Initialisation\<close>

definition core_map_init ::
  "'m cpumask_ops \<Rightarrow> 't cpumask_ops \<Rightarrow> 'm core_conf \<Rightarrow> int \<Rightarrow> em_status_t \<times> ('m, 't) core_map" where
  "core_map_init ops tops conf thr_count_max =
     (let cm = \<lparr>current_core_count = 0, worker_core_count = 0, control_core_count = 0,
            external_thread_count = 0, ongoing_term_reqs = (\<lambda>_. 0), tvl_logic = (\<lambda>_. 0),
            tvl_odp_thr = (\<lambda>_. 0), logic_mask = cm_zero ops, worker_mask = cm_zero ops,
            control_mask = cm_zero ops, thrmask_emcores = cm_zero tops, thrmask_extthrs = cm_zero tops,
            thrmask_all = cm_zero tops, tids = (\<lambda>_. 0), ext_tids = (\<lambda>_. 0),
            core_types = (\<lambda>_. EM_CORE_TYPE_UNDEF), proc_tid_stat_paths = (\<lambda>_. [])\<rparr>;
          max_cores = conf_core_count conf;
          thr_max = (word_of_int (min thr_count_max (ODP_THREAD_COUNT_MAX tops)) :: u32);
          mask_count = (word_of_int (em_core_mask_count ops (conf_phys_mask conf)) :: u32)
      in if max_cores < 1 \<or> unat max_cores > EM_MAX_CORES \<or> thr_max < 1 \<or> max_cores > thr_max
         then (EM_ERR_TOO_LARGE, cm)
         else if mask_count < 1 \<or> mask_count < max_cores then (EM_ERR_TOO_SMALL, cm)
         else (EM_OK, cm))"

fun affinity_mask :: "'m cpumask_ops \<Rightarrow> int \<Rightarrow> bool list \<Rightarrow> 'm \<Rightarrow> 'm" where
  "affinity_mask ops i [] m = m"
| "affinity_mask ops i (b # bs) m = affinity_mask ops (i + 1) bs (if b then em_core_mask_set ops i m else m)"

definition verify_sched_affinity ::
  "'m cpumask_ops \<Rightarrow> em_core_type \<Rightarrow> bool list option \<Rightarrow> u32 \<Rightarrow> 'm \<Rightarrow> em_status_t" where
  "verify_sched_affinity ops core_type affinity max_cores allowed =
     (case affinity of
        None \<Rightarrow> EM_ERR_LIB_FAILED
      | Some cpu_set \<Rightarrow>
          let cpu_set_count = (of_nat (length (filter id cpu_set)) :: u32)
          in (case core_type of
                EM_CORE_TYPE_WORKER \<Rightarrow> if cpu_set_count \<noteq> 1 then EM_ERR_BAD_STATE else EM_OK
              | EM_CORE_TYPE_CONTROL \<Rightarrow>
                  if cpu_set_count > max_cores then EM_ERR_BAD_STATE
                  else (let cpuset_mask = affinity_mask ops 0 cpu_set (em_core_mask_zero ops);
                            or_mask = em_core_mask_or ops cpuset_mask allowed
                        in if \<not> em_core_mask_equal ops or_mask allowed then EM_ERR_BAD_STATE else EM_OK)
              | _ \<Rightarrow> EM_ERR_NOT_FOUND))"

text \<open>The first unset id from \<^verbatim>\<open>core_id\<close> on, among \<^verbatim>\<open>k\<close> ids.\<close>

fun first_unset :: "'m cpumask_ops \<Rightarrow> 'm \<Rightarrow> nat \<Rightarrow> nat \<Rightarrow> nat" where
  "first_unset ops m core_id 0 = core_id"
| "first_unset ops m core_id (Suc k) =
     (if \<not> em_core_mask_isset ops (int core_id) m then core_id else first_unset ops m (Suc core_id) k)"

definition determine_core_id :: "'m cpumask_ops \<Rightarrow> int \<Rightarrow> u32 \<Rightarrow> ('m, 't) core_map \<Rightarrow> int" where
  "determine_core_id ops req_core_id max_cores cm =
     (if req_core_id < - 1 then - 1
      else if req_core_id = - 1
      then (let core_id = first_unset ops (logic_mask cm) 0 (unat max_cores)
            in if core_id = unat max_cores then - 1 else int core_id)
      else if (word_of_int req_core_id :: u32) \<ge> max_cores then - 1
      else if em_core_mask_isset ops req_core_id (logic_mask cm) then - 1
      else req_core_id)"

text \<open>\<^verbatim>\<open>snprintf(path, 32, "/proc/%d/stat", tid)\<close>.\<close>

fun nat_digits :: "nat \<Rightarrow> string" where
  "nat_digits n = (if n < 10 then [char_of (48 + n)] else nat_digits (n div 10) @ [char_of (48 + n mod 10)])"

declare nat_digits.simps [simp del]

definition tid_stat_path :: "int \<Rightarrow> string" where
  "tid_stat_path tid =
     take 31 (''/proc/'' @ (if tid < 0 then ''-'' @ nat_digits (nat (- tid)) else nat_digits (nat tid)) @ ''/stat'')"

text \<open>The result has the new value of the thread's \<^verbatim>\<open>locm->core_id\<close>, when it was written.\<close>

definition core_map_init_local ::
  "'m cpumask_ops \<Rightarrow> 't cpumask_ops \<Rightarrow> 'm core_conf \<Rightarrow> thr_env \<Rightarrow> int \<Rightarrow> em_core_type \<Rightarrow>
   ('m, 't) core_map \<Rightarrow> em_status_t \<times> ('m, 't) core_map \<times> int option" where
  "core_map_init_local ops tops conf env req_core_id core_type cm =
     (let max_cores = conf_core_count conf;
          odp_thr = env_odp_thr env;
          thr_max = min (env_thr_count_max env) (ODP_THREAD_COUNT_MAX tops);
          path = tid_stat_path (env_tid env)
      in if \<not> em_core_mask_isset ops (env_cpu_id env) (conf_phys_mask conf) then (EM_ERR_BAD_ID, cm, None)
      else let err = verify_sched_affinity ops core_type (env_affinity env) max_cores (conf_phys_mask conf)
      in if err \<noteq> EM_OK then (err, cm, None)
      else if odp_thr < 0 \<or> odp_thr \<ge> thr_max then (EM_ERR_LIB_FAILED, cm, None)
      else if length path \<ge> 32 then (EM_ERR_LIB_FAILED, cm, None)
      else let core_id = determine_core_id ops req_core_id max_cores cm
      in if core_id < 0 then (EM_ERR_TOO_SMALL, cm, None)
      else if current_core_count cm + 1 > max_cores then (EM_ERR_TOO_LARGE, cm, Some core_id)
      else let c = nat core_id; t = nat odp_thr;
               cm1 = cm\<lparr>current_core_count := current_core_count cm + 1,
                 tvl_logic := (tvl_logic cm)(t := of_nat c), tvl_odp_thr := (tvl_odp_thr cm)(c := of_nat t),
                 tids := (tids cm)(c := env_tid env), core_types := (core_types cm)(c := core_type),
                 logic_mask := em_core_mask_set ops core_id (logic_mask cm),
                 thrmask_emcores := cm_set tops (thrmask_emcores cm) odp_thr,
                 thrmask_all := cm_set tops (thrmask_all cm) odp_thr\<rparr>;
               cm2 = (if core_type = EM_CORE_TYPE_WORKER
                      then cm1\<lparr>worker_core_count := worker_core_count cm + 1,
                             worker_mask := em_core_mask_set ops core_id (worker_mask cm)\<rparr>
                      else cm1\<lparr>control_core_count := control_core_count cm + 1,
                             control_mask := em_core_mask_set ops core_id (control_mask cm)\<rparr>)
           in (EM_OK, cm2\<lparr>proc_tid_stat_paths := (proc_tid_stat_paths cm)(c := path)\<rparr>, Some core_id))"

definition core_map_init_extthr ::
  "'t cpumask_ops \<Rightarrow> thr_env \<Rightarrow> ('m, 't) core_map \<Rightarrow> em_status_t \<times> ('m, 't) core_map" where
  "core_map_init_extthr tops env cm =
     (let odp_thr = env_odp_thr env;
          thr_max = min (env_thr_count_max env) (ODP_THREAD_COUNT_MAX tops)
      in if odp_thr < 0 \<or> odp_thr \<ge> thr_max then (EM_ERR_LIB_FAILED, cm)
         else (EM_OK, cm\<lparr>external_thread_count := external_thread_count cm + 1,
             thrmask_extthrs := cm_set tops (thrmask_extthrs cm) odp_thr,
             thrmask_all := cm_set tops (thrmask_all cm) odp_thr,
             ext_tids := (ext_tids cm)(nat odp_thr := env_tid env)\<rparr>))"

section \<open>Termination\<close>

text \<open>
  The request counters of the remaining cores are incremented before \<^verbatim>\<open>TERM_THREAD_REQ\<close> is sent to
  them; each decrements its own when it handles the event. The result of the handler is whether it
  reports an error: it looks at the value before the decrement, as a signed number.
\<close>

definition i_event__term_thread_req :: "nat \<Rightarrow> ('m, 't) core_map \<Rightarrow> unit reported \<times> ('m, 't) core_map" where
  "i_event__term_thread_req thr cm =
     (let cnt = sint (ongoing_term_reqs cm thr)
      in (if cnt < 0 then Inl (EM_ERR_TOO_SMALL, ''INTERNAL_EVENT_RECV_FUNC'') else Inr (),
          cm\<lparr>ongoing_term_reqs := (ongoing_term_reqs cm)(thr := ongoing_term_reqs cm thr - 1)\<rparr>))"

definition inc_term_reqs :: "'t cpumask_ops \<Rightarrow> 't \<Rightarrow> (nat \<Rightarrow> u32) \<Rightarrow> (nat \<Rightarrow> u32) option" where
  "inc_term_reqs tops remain reqs =
     map_option snd (mask_walk tops remain (\<lambda>_ _. True) (\<lambda>thr r. r(nat thr := r (nat thr) + 1))
       (cm_first tops remain) reqs)"

text \<open>
  The event of \<^verbatim>\<open>term_thread_req\<close> is allocated (\<^verbatim>\<open>alloc_ok\<close>) and sent by \<^verbatim>\<open>send_core_ctrl_events\<close>
  (\<^verbatim>\<open>send_ok\<close>); the result of a termination names the thread mask it was sent to, if it was. A status
  other than EM_OK is reported after the unlock; the returned count is the same.
\<close>

definition term_thread_req :: "bool \<Rightarrow> bool \<Rightarrow> 't \<Rightarrow> em_status_t \<times> 't option" where
  "term_thread_req alloc_ok send_ok remain =
     (if \<not> alloc_ok then (EM_ERR_ALLOC_FAILED, None)
      else if \<not> send_ok then (EM_ERR_LIB_FAILED, None) else (EM_OK, Some remain))"

record 't term_result =
  tr_count :: int
  tr_sent :: "'t option"
  tr_done :: bool
  tr_status :: em_status_t

definition core_map_term_local ::
  "'m cpumask_ops \<Rightarrow> 't cpumask_ops \<Rightarrow> bool \<Rightarrow> bool \<Rightarrow> int \<Rightarrow> int \<Rightarrow> em_core_type \<Rightarrow>
   ('m, 't) core_map \<Rightarrow> ('t term_result \<times> ('m, 't) core_map) option" where
  "core_map_term_local ops tops alloc_ok send_ok core_id odp_thr core_type cm =
     (let current = sint (current_core_count cm - 1);
          c = nat core_id; t = nat odp_thr;
          cm1 = cm\<lparr>current_core_count := current_core_count cm - 1,
            tvl_logic := (tvl_logic cm)(t := 0), tvl_odp_thr := (tvl_odp_thr cm)(c := 0),
            logic_mask := em_core_mask_clr ops core_id (logic_mask cm)\<rparr>;
          cm2 = (if core_type = EM_CORE_TYPE_WORKER
                 then cm1\<lparr>worker_core_count := worker_core_count cm - 1,
                        worker_mask := em_core_mask_clr ops core_id (worker_mask cm)\<rparr>
                 else cm1\<lparr>control_core_count := control_core_count cm - 1,
                        control_mask := em_core_mask_clr ops core_id (control_mask cm)\<rparr>);
          remain = cm_clr tops (thrmask_emcores cm) odp_thr;
          cm3 = cm2\<lparr>thrmask_emcores := remain, thrmask_all := cm_clr tops (thrmask_all cm) odp_thr,
            tids := (tids cm)(c := 0), core_types := (core_types cm)(c := EM_CORE_TYPE_UNDEF),
            proc_tid_stat_paths := (proc_tid_stat_paths cm)(c := [])\<rparr>;
          (stat, sent) = (if current \<ge> 1 then term_thread_req alloc_ok send_ok remain else (EM_OK, None))
      in map_option (\<lambda>reqs.
             (\<lparr>tr_count = current, tr_sent = sent, tr_done = (current < 1), tr_status = stat\<rparr>,
              cm3\<lparr>ongoing_term_reqs := reqs\<rparr>))
           (if current > 0 then inc_term_reqs tops remain (ongoing_term_reqs cm)
            else Some (ongoing_term_reqs cm)))"

definition core_map_term_extthr ::
  "'t cpumask_ops \<Rightarrow> bool \<Rightarrow> bool \<Rightarrow> int \<Rightarrow> ('m, 't) core_map \<Rightarrow>
   ('t term_result \<times> ('m, 't) core_map) option" where
  "core_map_term_extthr tops alloc_ok send_ok odp_thr cm =
     (let current = sint (current_core_count cm);
          t = nat odp_thr;
          remain = thrmask_emcores cm;
          cm1 = cm\<lparr>external_thread_count := external_thread_count cm - 1,
            thrmask_extthrs := cm_clr tops (thrmask_extthrs cm) odp_thr,
            thrmask_all := cm_clr tops (thrmask_all cm) odp_thr,
            ext_tids := (ext_tids cm)(t := 0)\<rparr>;
          (stat, sent) = (if current \<ge> 1 then term_thread_req alloc_ok send_ok remain else (EM_OK, None))
      in map_option (\<lambda>reqs.
             (\<lparr>tr_count = (if current < 0 then - 1 else current), tr_sent = sent,
                tr_done = (current < 1), tr_status = stat\<rparr>,
              cm1\<lparr>ongoing_term_reqs := reqs(t := reqs t + 1)\<rparr>))
           (if current > 0 then inc_term_reqs tops remain (ongoing_term_reqs cm)
            else Some (ongoing_term_reqs cm)))"

section \<open>Translation and iteration\<close>

definition mask_em2odp :: "'m cpumask_ops \<Rightarrow> 't cpumask_ops \<Rightarrow> ('m, 't) core_map \<Rightarrow> 'm \<Rightarrow> 't option" where
  "mask_em2odp ops tops cm core_mask =
     map_option snd
       (mask_walk ops core_mask (\<lambda>_ _. True)
         (\<lambda>core t. cm_set tops t (int (unat (tvl_odp_thr cm (nat core)))))
         (em_core_mask_first ops core_mask) (cm_zero tops))"

definition em_core_type_count :: "em_core_type \<Rightarrow> ('m, 't) core_map \<Rightarrow> u32" where
  "em_core_type_count core_type cm =
     (case core_type of
        EM_CORE_TYPE_WORKER \<Rightarrow> worker_core_count cm
      | EM_CORE_TYPE_CONTROL \<Rightarrow> control_core_count cm
      | EM_CORE_TYPE_EXTERNAL \<Rightarrow> external_thread_count cm
      | EM_CORE_TYPE_UNDEF \<Rightarrow> current_core_count cm)"

definition em_core_count :: "('m, 't) core_map \<Rightarrow> u32" where
  "em_core_count cm = current_core_count cm"

text \<open>The source of an iteration: which count and which mask. External threads have none.\<close>

definition core_src :: "em_core_type \<Rightarrow> ('m, 't) core_map \<Rightarrow> (u32 \<times> 'm) option" where
  "core_src core_type cm =
     (case core_type of
        EM_CORE_TYPE_WORKER \<Rightarrow> Some (worker_core_count cm, worker_mask cm)
      | EM_CORE_TYPE_CONTROL \<Rightarrow> Some (control_core_count cm, control_mask cm)
      | EM_CORE_TYPE_UNDEF \<Rightarrow> Some (current_core_count cm, logic_mask cm)
      | EM_CORE_TYPE_EXTERNAL \<Rightarrow> None)"

text \<open>The thread's iteration state: the last id and the kind of core iterated over.\<close>

record core_iter =
  it_idx :: int
  it_src :: em_core_type

definition em_core_id_first ::
  "'m cpumask_ops \<Rightarrow> em_core_type \<Rightarrow> ('m, 't) core_map \<Rightarrow> core_iter \<Rightarrow> (int \<times> u32) \<times> core_iter" where
  "em_core_id_first ops core_type cm it =
     (case core_src core_type cm of
        None \<Rightarrow> ((- 1, 0), it\<lparr>it_idx := - 1\<rparr>)
      | Some (count, msk) \<Rightarrow>
          if count = 0 then ((- 1, count), it\<lparr>it_idx := - 1\<rparr>)
          else (let idx = em_core_mask_first ops msk
                in ((idx, count), \<lparr>it_idx = idx, it_src = core_type\<rparr>)))"

definition em_core_id_next :: "'m cpumask_ops \<Rightarrow> ('m, 't) core_map \<Rightarrow> core_iter \<Rightarrow> int \<times> core_iter" where
  "em_core_id_next ops cm it =
     (if it_idx it < 0 then (- 1, it)
      else case core_src (it_src it) cm of
             None \<Rightarrow> (- 1, it)
           | Some (_, msk) \<Rightarrow>
               let idx = em_core_mask_next ops msk (it_idx it)
               in if idx < 0 then (- 1, it\<lparr>it_idx := - 1\<rparr>) else (idx, it\<lparr>it_idx := idx\<rparr>))"

definition em_core_ids_available ::
  "'m cpumask_ops \<Rightarrow> em_core_type \<Rightarrow> ('m, 't) core_map \<Rightarrow> u32 \<times> 'm" where
  "em_core_ids_available ops core_type cm =
     (case core_src core_type cm of
        None \<Rightarrow> (0, em_core_mask_zero ops)
      | Some (count, msk) \<Rightarrow> (count, msk))"

section \<open>The CPU of a thread\<close>

text \<open>
  \<^verbatim>\<open>strtok_r(.., " ", ..)\<close>: leading separators are skipped, the token extends to the next one.
\<close>

definition next_token :: "string \<Rightarrow> (string \<times> string) option" where
  "next_token s =
     (let s' = dropWhile (\<lambda>c. c = CHR '' '') s
      in if s' = [] then None
         else Some (takeWhile (\<lambda>c. c \<noteq> CHR '' '') s', drop 1 (dropWhile (\<lambda>c. c \<noteq> CHR '' '') s')))"

fun skip_tokens :: "nat \<Rightarrow> (string \<times> string) option \<Rightarrow> (string \<times> string) option" where
  "skip_tokens 0 tok = tok"
| "skip_tokens (Suc k) tok = (case tok of None \<Rightarrow> None | Some (_, rest) \<Rightarrow> skip_tokens k (next_token rest))"

text \<open>\<^verbatim>\<open>fgets\<close> into 512 bytes: one line with its newline, or what fits of it.\<close>

definition fgets_buf :: "string \<Rightarrow> string option" where
  "fgets_buf content =
     (if content = [] then None
      else Some (take 511 (takeWhile (\<lambda>c. c \<noteq> CHR 0x0A) content @
                    take 1 (dropWhile (\<lambda>c. c \<noteq> CHR 0x0A) content))))"

definition is_digit :: "char \<Rightarrow> bool" where
  "is_digit c \<longleftrightarrow> 48 \<le> (of_char c :: nat) \<and> (of_char c :: nat) \<le> 57"

definition digits_val :: "string \<Rightarrow> int" where
  "digits_val s = foldl (\<lambda>v c. 10 * v + (of_char c - 48)) 0 s"

definition is_space :: "char \<Rightarrow> bool" where
  "is_space c \<longleftrightarrow> c = CHR '' '' \<or> (9 \<le> (of_char c :: nat) \<and> (of_char c :: nat) \<le> 13)"

text \<open>
  \<^verbatim>\<open>strtol\<close> in base 10: the value, clamped to 64 bits, and the rest of the string; None when there is
  nothing to convert (\<^verbatim>\<open>endptr\<close> is the start).
\<close>

definition strtol10 :: "string \<Rightarrow> (int \<times> string) option" where
  "strtol10 s =
     (let s1 = dropWhile is_space s;
          neg = (s1 \<noteq> [] \<and> hd s1 = CHR ''-'');
          s2 = (if s1 \<noteq> [] \<and> (hd s1 = CHR ''-'' \<or> hd s1 = CHR ''+'') then tl s1 else s1);
          ds = takeWhile is_digit s2;
          v = (if neg then - digits_val ds else digits_val ds)
      in if ds = [] then None
         else Some (max (- (2 ^ 63)) (min (2 ^ 63 - 1) v), dropWhile is_digit s2))"

definition read_proc_cpuid :: "string option \<Rightarrow> int" where
  "read_proc_cpuid file =
     (case file of
        None \<Rightarrow> - 1
      | Some content \<Rightarrow>
          (case fgets_buf content of
             None \<Rightarrow> - 1
           | Some buffer \<Rightarrow>
               (case skip_tokens 38 (next_token buffer) of
                  None \<Rightarrow> - 1
                | Some (token, _) \<Rightarrow>
                    (case strtol10 token of
                       None \<Rightarrow> - 1
                     | Some (value, rest) \<Rightarrow>
                         if rest = [] \<and> value \<ge> 0 \<and> value \<le> 2 ^ 31 - 1 then value else - 1))))"

section \<open>Threads and the roles they take\<close>

text \<open>
  The abstract state: what each ODP thread is. A run of the system is a sequence of initialisations
  and terminations by threads; a thread initialises only while it has no role and terminates the
  role it has.
\<close>

datatype thr_role = RoleNone | RoleCore nat em_core_type | RoleExt

datatype core_call =
    CallInitLocal thr_env int em_core_type
  | CallTermLocal nat bool bool
  | CallInitExt thr_env
  | CallTermExt nat bool bool

fun core_do ::
  "'m cpumask_ops \<Rightarrow> 't cpumask_ops \<Rightarrow> 'm core_conf \<Rightarrow> core_call \<Rightarrow>
   ('m, 't) core_map \<times> (nat \<Rightarrow> thr_role) \<Rightarrow> (('m, 't) core_map \<times> (nat \<Rightarrow> thr_role)) option" where
  "core_do ops tops conf (CallInitLocal env req ty) (cm, R) =
     (let t = nat (env_odp_thr env)
      in if R t \<noteq> RoleNone then Some (cm, R)
         else (let (st, cm', cid) = core_map_init_local ops tops conf env req ty cm
               in Some (cm', if st = EM_OK then R(t := RoleCore (nat (the cid)) ty) else R)))"
| "core_do ops tops conf (CallTermLocal t alloc_ok send_ok) (cm, R) =
     (case R t of
        RoleCore c ty \<Rightarrow>
          map_option (\<lambda>(r, cm'). (cm', R(t := RoleNone)))
            (core_map_term_local ops tops alloc_ok send_ok (int c) (int t) ty cm)
      | _ \<Rightarrow> Some (cm, R))"
| "core_do ops tops conf (CallInitExt env) (cm, R) =
     (let t = nat (env_odp_thr env)
      in if R t \<noteq> RoleNone then Some (cm, R)
         else (let (st, cm') = core_map_init_extthr tops env cm
               in Some (cm', if st = EM_OK then R(t := RoleExt) else R)))"
| "core_do ops tops conf (CallTermExt t alloc_ok send_ok) (cm, R) =
     (if R t \<noteq> RoleExt then Some (cm, R)
      else map_option (\<lambda>(r, cm'). (cm', R(t := RoleNone)))
             (core_map_term_extthr tops alloc_ok send_ok (int t) cm))"

fun core_run ::
  "'m cpumask_ops \<Rightarrow> 't cpumask_ops \<Rightarrow> 'm core_conf \<Rightarrow> core_call list \<Rightarrow>
   ('m, 't) core_map \<times> (nat \<Rightarrow> thr_role) \<Rightarrow> (('m, 't) core_map \<times> (nat \<Rightarrow> thr_role)) option" where
  "core_run ops tops conf [] s = Some s"
| "core_run ops tops conf (c # cs) s =
     (case core_do ops tops conf c s of None \<Rightarrow> None | Some s' \<Rightarrow> core_run ops tops conf cs s')"

text \<open>Both mask types behave as documented, and have the sizes the compile-time assertions demand.\<close>

definition core_laws ::
  "'m cpumask_ops \<Rightarrow> ('m \<Rightarrow> nat set) \<Rightarrow> 't cpumask_ops \<Rightarrow> ('t \<Rightarrow> nat set) \<Rightarrow> 'm core_conf \<Rightarrow> bool" where
  "core_laws ops S tops T conf \<longleftrightarrow> cpumask_laws ops S \<and> cpumask_laws tops T \<and>
     EM_MAX_CORES \<le> cm_size ops \<and> cm_size tops \<le> 2 ^ 16 \<and> unat (conf_core_count conf) \<le> EM_MAX_CORES"

definition role_cores :: "(nat \<Rightarrow> thr_role) \<Rightarrow> em_core_type set \<Rightarrow> nat set" where
  "role_cores R tys = {c. \<exists>t. \<exists>ty \<in> tys. R t = RoleCore c ty}"

definition emcore_types :: "em_core_type set" where
  "emcore_types = {EM_CORE_TYPE_WORKER, EM_CORE_TYPE_CONTROL}"

definition role_threads :: "(nat \<Rightarrow> thr_role) \<Rightarrow> nat set" where
  "role_threads R = {t. \<exists>c ty. R t = RoleCore c ty}"

definition role_exts :: "(nat \<Rightarrow> thr_role) \<Rightarrow> nat set" where
  "role_exts R = {t. R t = RoleExt}"

text \<open>The core map represents the roles.\<close>

definition core_rep ::
  "('m \<Rightarrow> nat set) \<Rightarrow> ('t \<Rightarrow> nat set) \<Rightarrow> nat \<Rightarrow> nat \<Rightarrow> ('m, 't) core_map \<Rightarrow> (nat \<Rightarrow> thr_role) \<Rightarrow> bool" where
  "core_rep S T max_cores max_thrs cm R \<longleftrightarrow>
     (\<forall>t c ty. R t = RoleCore c ty \<longrightarrow> c < max_cores \<and> t < max_thrs \<and> ty \<in> emcore_types \<and>
        tvl_odp_thr cm c = of_nat t \<and> tvl_logic cm t = of_nat c \<and> core_types cm c = ty) \<and>
     (\<forall>t. R t = RoleExt \<longrightarrow> t < max_thrs) \<and>
     S (logic_mask cm) = role_cores R emcore_types \<and>
     S (worker_mask cm) = role_cores R {EM_CORE_TYPE_WORKER} \<and>
     S (control_mask cm) = role_cores R {EM_CORE_TYPE_CONTROL} \<and>
     T (thrmask_emcores cm) = role_threads R \<and>
     T (thrmask_extthrs cm) = role_exts R \<and>
     T (thrmask_all cm) = role_threads R \<union> role_exts R \<and>
     current_core_count cm = of_nat (card (role_cores R emcore_types)) \<and>
     worker_core_count cm = of_nat (card (role_cores R {EM_CORE_TYPE_WORKER})) \<and>
     control_core_count cm = of_nat (card (role_cores R {EM_CORE_TYPE_CONTROL})) \<and>
     external_thread_count cm = of_nat (card (role_exts R))"

section \<open>Taking a core id\<close>

lemma first_unset_props:
  assumes "cpumask_laws ops S" "i + k \<le> cm_size ops"
  shows "first_unset ops m i k \<le> i + k"
    "first_unset ops m i k < i + k \<Longrightarrow> first_unset ops m i k \<notin> S m"
    "i \<le> j \<Longrightarrow> j < first_unset ops m i k \<Longrightarrow> j \<in> S m"
  using assms(2)
proof (induction k arbitrary: i)
  case (Suc k)
  { case 1 then show ?case using Suc.IH(1) [of "Suc i"] by simp }
  { case 2 then show ?case using Suc.IH(2) [of "Suc i"] laws_isset [OF assms(1), of i m]
      by (auto simp: em_core_mask_isset_def split: if_splits) }
  { case 3 then show ?case
      using Suc.IH(3) [of "Suc i"] laws_isset [OF assms(1), of i m]
      by (cases "j = i") (auto simp: em_core_mask_isset_def split: if_splits) }
qed auto

text \<open>The ids in use decide which id a thread gets.\<close>

lemma determine_core_id_cases:
  assumes laws: "cpumask_laws ops S" and max: "unat max_cores \<le> cm_size ops" and req: "req < 2 ^ 31"
  shows "determine_core_id ops req max_cores cm =
    (if req = - 1
     then (if {..<unat max_cores} \<subseteq> S (logic_mask cm) then - 1
           else int (LEAST c. c \<notin> S (logic_mask cm)))
     else if 0 \<le> req \<and> req < int (unat max_cores) \<and> nat req \<notin> S (logic_mask cm) then req else - 1)"
proof (cases "req < 0")
  case True
  let ?c = "first_unset ops (logic_mask cm) 0 (unat max_cores)"
  note p = first_unset_props [OF laws, where i = 0 and k = "unat max_cores" and m = "logic_mask cm", simplified, OF max]
  show ?thesis
  proof (cases "req = - 1")
    case r: True
    show ?thesis
    proof (cases "?c = unat max_cores")
      case c: True
      then have "{..<unat max_cores} \<subseteq> S (logic_mask cm)" using p(3) by auto
      then show ?thesis using r c by (simp add: determine_core_id_def)
    next
      case c: False
      then have lt: "?c < unat max_cores" using p(1) by simp
      then have "?c \<notin> S (logic_mask cm)" by (rule p(2))
      moreover from this have "(LEAST c. c \<notin> S (logic_mask cm)) = ?c"
        using p(3) by (intro Least_equality) (auto simp: not_less [symmetric])
      ultimately show ?thesis using r c lt by (auto simp: determine_core_id_def Let_def)
    qed
  next
    case False
    then show ?thesis using True by (simp add: determine_core_id_def)
  qed
next
  case False
  then have u: "unat (word_of_int req :: u32) = nat req"
    using req by (intro unat_word_of_int_small) simp_all
  then have lt: "max_cores \<le> word_of_int req \<longleftrightarrow> \<not> req < int (unat max_cores)"
    unfolding word_le_nat_alt u using False by linarith
  show ?thesis
  proof (cases "req < int (unat max_cores)")
    case True
    then have "nat req < cm_size ops" using max False by linarith
    from laws_isset [OF laws this, of "logic_mask cm"] show ?thesis
      using True False lt by (simp add: determine_core_id_def em_core_mask_isset_def)
  next
    case g: False
    then show ?thesis using False lt by (simp add: determine_core_id_def)
  qed
qed

section \<open>The operations keep the representation\<close>

lemma role_cores_take:
  assumes "R t = RoleNone"
  shows "role_cores (R(t := RoleCore c ty)) tys = (if ty \<in> tys then insert c (role_cores R tys) else role_cores R tys)"
    "role_threads (R(t := RoleCore c ty)) = insert t (role_threads R)"
    "role_exts (R(t := RoleCore c ty)) = role_exts R"
proof -
  have "c' \<in> role_cores (R(t := RoleCore c ty)) tys \<longleftrightarrow> (ty \<in> tys \<and> c' = c) \<or> c' \<in> role_cores R tys" for c'
  proof
    assume "c' \<in> role_cores (R(t := RoleCore c ty)) tys"
    then obtain t' ty' where t': "ty' \<in> tys" "(R(t := RoleCore c ty)) t' = RoleCore c' ty'"
      by (auto simp: role_cores_def)
    then show "(ty \<in> tys \<and> c' = c) \<or> c' \<in> role_cores R tys"
      by (cases "t' = t") (auto simp: role_cores_def)
  next
    assume "(ty \<in> tys \<and> c' = c) \<or> c' \<in> role_cores R tys"
    then show "c' \<in> role_cores (R(t := RoleCore c ty)) tys"
    proof
      assume "c' \<in> role_cores R tys"
      then obtain t' ty' where t': "ty' \<in> tys" "R t' = RoleCore c' ty'" by (auto simp: role_cores_def)
      then have "(R(t := RoleCore c ty)) t' = RoleCore c' ty'" using assms by auto
      then show ?thesis using t'(1) unfolding role_cores_def by blast
    qed (auto simp: role_cores_def intro: exI [of _ t])
  qed
  then show "role_cores (R(t := RoleCore c ty)) tys = (if ty \<in> tys then insert c (role_cores R tys) else role_cores R tys)"
    by auto
  show "role_threads (R(t := RoleCore c ty)) = insert t (role_threads R)"
    "role_exts (R(t := RoleCore c ty)) = role_exts R"
    using assms by (auto simp: role_threads_def role_exts_def)
qed

lemma role_cores_leave:
  assumes "R t = RoleCore c ty" "\<And>t' ty'. R t' = RoleCore c ty' \<Longrightarrow> t' = t"
  shows "role_cores (R(t := RoleNone)) tys = (if ty \<in> tys then role_cores R tys - {c} else role_cores R tys)"
    "role_threads (R(t := RoleNone)) = role_threads R - {t}"
    "role_exts (R(t := RoleNone)) = role_exts R"
proof -
  have "c' \<in> role_cores (R(t := RoleNone)) tys \<longleftrightarrow> c' \<in> role_cores R tys \<and> (ty \<in> tys \<longrightarrow> c' \<noteq> c)" for c'
  proof
    assume "c' \<in> role_cores (R(t := RoleNone)) tys"
    then obtain t' ty' where t': "ty' \<in> tys" "t' \<noteq> t" "R t' = RoleCore c' ty'"
      unfolding role_cores_def by (auto split: if_splits)
    then show "c' \<in> role_cores R tys \<and> (ty \<in> tys \<longrightarrow> c' \<noteq> c)"
      using assms(2) [of t' ty'] by (auto simp: role_cores_def)
  next
    assume a: "c' \<in> role_cores R tys \<and> (ty \<in> tys \<longrightarrow> c' \<noteq> c)"
    then obtain t' ty' where t': "ty' \<in> tys" "R t' = RoleCore c' ty'" by (auto simp: role_cores_def)
    then have "t' \<noteq> t" using a assms(1) by auto
    then show "c' \<in> role_cores (R(t := RoleNone)) tys"
      using t' unfolding role_cores_def by (auto intro!: exI [of _ t'] bexI [of _ ty'])
  qed
  then show "role_cores (R(t := RoleNone)) tys = (if ty \<in> tys then role_cores R tys - {c} else role_cores R tys)"
    by auto
  show "role_threads (R(t := RoleNone)) = role_threads R - {t}"
    "role_exts (R(t := RoleNone)) = role_exts R"
    using assms(1) by (auto simp: role_threads_def role_exts_def)
qed

lemma role_ext_upd:
  assumes "R t = RoleNone"
  shows "role_cores (R(t := RoleExt)) tys = role_cores R tys"
    "role_threads (R(t := RoleExt)) = role_threads R"
    "role_exts (R(t := RoleExt)) = insert t (role_exts R)"
proof -
  have "(R(t := RoleExt)) t' = RoleCore c ty \<longleftrightarrow> R t' = RoleCore c ty" for t' c ty using assms by auto
  then show "role_cores (R(t := RoleExt)) tys = role_cores R tys"
    "role_threads (R(t := RoleExt)) = role_threads R" unfolding role_cores_def role_threads_def by simp_all
  show "role_exts (R(t := RoleExt)) = insert t (role_exts R)" by (auto simp: role_exts_def)
qed

lemma role_ext_leave:
  assumes "R t = RoleExt"
  shows "role_cores (R(t := RoleNone)) tys = role_cores R tys"
    "role_threads (R(t := RoleNone)) = role_threads R"
    "role_exts (R(t := RoleNone)) = role_exts R - {t}"
proof -
  have "(R(t := RoleNone)) t' = RoleCore c ty \<longleftrightarrow> R t' = RoleCore c ty" for t' c ty using assms by auto
  then show "role_cores (R(t := RoleNone)) tys = role_cores R tys"
    "role_threads (R(t := RoleNone)) = role_threads R" unfolding role_cores_def role_threads_def by simp_all
  show "role_exts (R(t := RoleNone)) = role_exts R - {t}" by (auto simp: role_exts_def)
qed

lemma core_repD:
  assumes "core_rep S T max_cores max_thrs cm R"
  shows "R t = RoleCore c ty \<Longrightarrow> c < max_cores \<and> t < max_thrs \<and> ty \<in> emcore_types \<and>
        tvl_odp_thr cm c = of_nat t \<and> tvl_logic cm t = of_nat c \<and> core_types cm c = ty"
    "R t = RoleExt \<Longrightarrow> t < max_thrs"
  using assms unfolding core_rep_def by blast+

lemma core_rep_inj:
  assumes "core_rep S T max_cores max_thrs cm R" "max_thrs \<le> 2 ^ 16"
    "R t = RoleCore c ty" "R t' = RoleCore c ty'"
  shows "t = t'"
proof -
  have "(of_nat t :: u16) = of_nat t'" "t < 2 ^ 16" "t' < 2 ^ 16"
    using core_repD(1) [OF assms(1) assms(3)] core_repD(1) [OF assms(1) assms(4)] assms(2) by auto
  moreover have "unat (of_nat t :: u16) = t" "unat (of_nat t' :: u16) = t'"
    by (rule unat_of_nat_small; use calculation in simp)+
  ultimately show ?thesis by metis
qed

lemma role_cores_fin:
  assumes "core_rep S T max_cores max_thrs cm R" "tys \<subseteq> emcore_types"
  shows "finite (role_cores R tys)" "role_cores R tys \<subseteq> {..<max_cores}"
proof -
  show "role_cores R tys \<subseteq> {..<max_cores}"
    using core_repD(1) [OF assms(1)] by (auto simp: role_cores_def)
  then show "finite (role_cores R tys)" by (rule finite_subset) simp
qed

lemma role_exts_fin:
  assumes "core_rep S T max_cores max_thrs cm R"
  shows "finite (role_exts R)"
proof -
  have "role_exts R \<subseteq> {..<max_thrs}" using core_repD(2) [OF assms] by (auto simp: role_exts_def)
  then show ?thesis by (rule finite_subset) simp
qed

lemma of_nat_card_insert:
  "finite A \<Longrightarrow> c \<notin> A \<Longrightarrow> of_nat (card (insert c A)) = (of_nat (card A) :: u32) + 1"
  by simp

lemma of_nat_card_remove:
  "finite A \<Longrightarrow> c \<in> A \<Longrightarrow> of_nat (card (A - {c})) = (of_nat (card A) :: u32) - 1"
  by (metis card_Suc_Diff1 of_nat_Suc add_diff_cancel_left')

lemma verify_types:
  "verify_sched_affinity ops ty aff max_cores allowed = EM_OK \<Longrightarrow> ty \<in> emcore_types"
  by (cases ty) (auto simp: verify_sched_affinity_def emcore_types_def status_simps split: option.splits)

lemma init_local_rep:
  assumes laws: "core_laws ops S tops T conf"
    and rep: "core_rep S T (unat (conf_core_count conf)) (cm_size tops) cm R"
    and role: "R (nat (env_odp_thr env)) = RoleNone" and req: "req < 2 ^ 31"
    and run: "core_map_init_local ops tops conf env req ty cm = (EM_OK, cm', cid)"
  shows "core_rep S T (unat (conf_core_count conf)) (cm_size tops) cm'
      (R(nat (env_odp_thr env) := RoleCore (nat (the cid)) ty))"
    "nat (the cid) \<notin> role_cores R emcore_types"
proof -
  let ?max = "conf_core_count conf" and ?t = "nat (env_odp_thr env)"
  define c where "c = determine_core_id ops req ?max cm"
  have m: "cpumask_laws ops S" "cpumask_laws tops T" "unat ?max \<le> cm_size ops"
    using laws by (auto simp: core_laws_def)
  have f: "ty \<in> emcore_types" "0 \<le> c" "cid = Some c" "0 \<le> env_odp_thr env" "env_odp_thr env < int (cm_size tops)"
    using run verify_types [of ops ty "env_affinity env" ?max "conf_phys_mask conf"]
    by (auto simp: core_map_init_local_def Let_def c_def status_simps ODP_THREAD_COUNT_MAX_def split: if_splits)
  have c: "nat c < unat ?max" "nat c \<notin> S (logic_mask cm)"
  proof -
    have det: "c = (if req = - 1
       then (if {..<unat ?max} \<subseteq> S (logic_mask cm) then - 1
             else int (LEAST c. c \<notin> S (logic_mask cm)))
       else if 0 \<le> req \<and> req < int (unat ?max) \<and> nat req \<notin> S (logic_mask cm) then req else - 1)"
      unfolding c_def by (rule determine_core_id_cases [OF m(1,3) req])
    show "nat c < unat ?max" "nat c \<notin> S (logic_mask cm)"
    proof (atomize (full), cases "req = - 1")
      case True
      then have ns: "\<not> {..<unat ?max} \<subseteq> S (logic_mask cm)" using det f(2) by (auto split: if_splits)
      then have "nat c = (LEAST c. c \<notin> S (logic_mask cm))" using det True by simp
      moreover obtain x where "x \<notin> S (logic_mask cm)" "x < unat ?max" using ns by auto
      ultimately show "nat c < unat ?max \<and> nat c \<notin> S (logic_mask cm)"
        by (metis LeastI Least_le le_less_trans)
    next
      case False
      then have "c = req \<and> 0 \<le> req \<and> req < int (unat ?max) \<and> nat req \<notin> S (logic_mask cm)"
        using det f(2) by (simp split: if_splits)
      then show "nat c < unat ?max \<and> nat c \<notin> S (logic_mask cm)" by (auto simp: nat_less_iff)
    qed
  qed
  have nc: "nat c \<notin> role_cores R emcore_types" using c(2) rep by (simp add: core_rep_def)
  then show "nat (the cid) \<notin> role_cores R emcore_types" using f(3) by simp
  note t = role_cores_take [of R ?t, OF role, of "nat c" ty]
  have ci: "int (nat c) = c" "int ?t = env_odp_thr env" using f by simp_all
  have tl: "?t < cm_size tops" using f(4,5) by (simp add: nat_less_iff)
  have setm: "S (cm_set ops m c) = insert (nat c) (S m)" for m
    using laws_set [OF m(1), of "nat c" m] c(1) m(3) ci(1) by simp
  have sett: "T (cm_set tops m (env_odp_thr env)) = insert ?t (T m)" for m
    using laws_set [OF m(2), of ?t m] f(4,5) ci(2) by simp
  have fin: "finite (role_cores R tys)" "nat c \<notin> role_cores R tys" if "tys \<subseteq> emcore_types" for tys
  proof -
    show "finite (role_cores R tys)" by (rule role_cores_fin [OF rep that])
    have "role_cores R tys \<subseteq> role_cores R emcore_types" using that by (auto simp: role_cores_def)
    then show "nat c \<notin> role_cores R tys" using c(2) rep by (auto simp: core_rep_def)
  qed
  note sub = subset_refl [of emcore_types]
  have w: "{EM_CORE_TYPE_WORKER} \<subseteq> emcore_types" and ct: "{EM_CORE_TYPE_CONTROL} \<subseteq> emcore_types"
    by (auto simp: emcore_types_def)
  have cur: "\<not> current_core_count cm + 1 > ?max"
    using run by (auto simp: core_map_init_local_def Let_def status_simps split: if_splits)
  have path: "length (tid_stat_path (env_tid env)) < 32" by (simp add: tid_stat_path_def)
  have sel: "current_core_count cm' = current_core_count cm + 1"
    "worker_core_count cm' = worker_core_count cm + (if ty = EM_CORE_TYPE_WORKER then 1 else 0)"
    "control_core_count cm' = control_core_count cm + (if ty = EM_CORE_TYPE_CONTROL then 1 else 0)"
    "external_thread_count cm' = external_thread_count cm"
    "tvl_logic cm' = (tvl_logic cm)(?t := of_nat (nat c))"
    "tvl_odp_thr cm' = (tvl_odp_thr cm)(nat c := of_nat ?t)"
    "core_types cm' = (core_types cm)(nat c := ty)"
    "logic_mask cm' = cm_set ops (logic_mask cm) c"
    "worker_mask cm' = (if ty = EM_CORE_TYPE_WORKER then cm_set ops (worker_mask cm) c else worker_mask cm)"
    "control_mask cm' = (if ty = EM_CORE_TYPE_CONTROL then cm_set ops (control_mask cm) c else control_mask cm)"
    "thrmask_emcores cm' = cm_set tops (thrmask_emcores cm) (env_odp_thr env)"
    "thrmask_extthrs cm' = thrmask_extthrs cm"
    "thrmask_all cm' = cm_set tops (thrmask_all cm) (env_odp_thr env)"
    using run f(1,2) cur path unfolding core_map_init_local_def Let_def c_def [symmetric] emcore_types_def
    by (auto simp: em_core_mask_set_def status_simps split: if_splits)
  have tvl: "c' \<noteq> nat c \<and> t' \<noteq> ?t" if "R t' = RoleCore c' ty'" for t' c' ty'
  proof -
    have "c' \<in> role_cores R emcore_types" using that core_repD(1) [OF rep that] by (auto simp: role_cores_def)
    then show ?thesis using nc that role by auto
  qed
  have counts: "of_nat (card (insert (nat c) (role_cores R tys))) = (of_nat (card (role_cores R tys)) :: u32) + 1"
    if "tys \<subseteq> emcore_types" for tys
    by (rule of_nat_card_insert [OF fin [OF that]])
  have roles: "c' < unat ?max \<and> t' < cm_size tops \<and> ty' \<in> emcore_types \<and>
        tvl_odp_thr cm' c' = of_nat t' \<and> tvl_logic cm' t' = of_nat c' \<and> core_types cm' c' = ty'"
    if "(R(?t := RoleCore (nat c) ty)) t' = RoleCore c' ty'" for t' c' ty'
  proof (cases "t' = ?t")
    case True
    then show ?thesis using that c(1) f(1) tl by (auto simp: sel(5-7))
  next
    case False
    then have r: "R t' = RoleCore c' ty'" using that by simp
    show ?thesis using core_repD(1) [OF rep r] tvl [OF r] by (simp add: sel(5-7))
  qed
  have exts: "t' < cm_size tops" if "(R(?t := RoleCore (nat c) ty)) t' = RoleExt" for t'
    using that core_repD(2) [OF rep, of t'] by (auto split: if_splits)
  have ty: "ty = EM_CORE_TYPE_WORKER \<or> ty = EM_CORE_TYPE_CONTROL" using f(1) by (simp add: emcore_types_def)
  show "core_rep S T (unat ?max) (cm_size tops) cm' (R(?t := RoleCore (nat (the cid)) ty))"
    unfolding core_rep_def f(3) option.sel t
    using roles exts rep ty counts [OF sub] counts [OF w] counts [OF ct] f(1)
    by (auto simp: core_rep_def sel(1-4,8-13) setm sett)
qed

text \<open>Incrementing the request counters of all threads of a mask: the walk ends.\<close>

lemma inc_term_reqs_total:
  assumes "cpumask_laws tops T"
  shows "\<exists>reqs'. inc_term_reqs tops remain reqs = Some reqs'"
proof -
  obtain c where "mask_walk tops remain (\<lambda>_ _. True) (\<lambda>thr r. r(nat thr := r (nat thr) + 1)) (cm_first tops remain) reqs
      = Some (c, snd (ids_walk (\<lambda>_ _. True) (\<lambda>thr r. r(nat thr := r (nat thr) + 1))
          (sorted_list_of_set (T remain)) reqs))"
    by (rule mask_walk_first [OF assms])
  then show ?thesis by (simp add: inc_term_reqs_def)
qed

lemma term_local_rep:
  assumes laws: "core_laws ops S tops T conf"
    and rep: "core_rep S T (unat (conf_core_count conf)) (cm_size tops) cm R"
    and role: "R t = RoleCore c ty"
  shows "\<exists>r cm'. core_map_term_local ops tops alloc_ok send_ok (int c) (int t) ty cm = Some (r, cm') \<and>
    core_rep S T (unat (conf_core_count conf)) (cm_size tops) cm' (R(t := RoleNone))"
proof -
  let ?max = "conf_core_count conf"
  have m: "cpumask_laws ops S" "cpumask_laws tops T" "unat ?max \<le> cm_size ops" "cm_size tops \<le> 2 ^ 16"
    using laws by (auto simp: core_laws_def)
  note d = core_repD(1) [OF rep role]
  have inj: "t' = t" if "R t' = RoleCore c ty'" for t' ty'
    by (rule core_rep_inj [OF rep m(4) that role])
  have l: "role_cores (R(t := RoleNone)) tys = (if ty \<in> tys then role_cores R tys - {c} else role_cores R tys)"
    "role_threads (R(t := RoleNone)) = role_threads R - {t}" "role_exts (R(t := RoleNone)) = role_exts R" for tys
    by (rule role_cores_leave; use role inj in blast)+
  have clr: "S (cm_clr ops x (int c)) = S x - {c}" for x
    using laws_clr [OF m(1), of c x] d m(3) by simp
  have clrt: "T (cm_clr tops x (int t)) = T x - {t}" for x
    using laws_clr [OF m(2), of t x] d by simp
  obtain cm' r where run: "core_map_term_local ops tops alloc_ok send_ok (int c) (int t) ty cm = Some (r, cm')"
  proof -
    have "core_map_term_local ops tops alloc_ok send_ok (int c) (int t) ty cm \<noteq> None"
      using inc_term_reqs_total [OF m(2), of "cm_clr tops (thrmask_emcores cm) (int t)" "ongoing_term_reqs cm"]
      unfolding core_map_term_local_def Let_def by (auto split: prod.split)
    then show ?thesis using that by fast
  qed
  have ty: "ty = EM_CORE_TYPE_WORKER \<or> ty = EM_CORE_TYPE_CONTROL" using d by (simp add: emcore_types_def)
  have sel: "current_core_count cm' = current_core_count cm - 1"
    "worker_core_count cm' = worker_core_count cm - (if ty = EM_CORE_TYPE_WORKER then 1 else 0)"
    "control_core_count cm' = control_core_count cm - (if ty = EM_CORE_TYPE_CONTROL then 1 else 0)"
    "external_thread_count cm' = external_thread_count cm"
    "tvl_logic cm' = (tvl_logic cm)(t := 0)"
    "tvl_odp_thr cm' = (tvl_odp_thr cm)(c := 0)"
    "core_types cm' = (core_types cm)(c := EM_CORE_TYPE_UNDEF)"
    "logic_mask cm' = cm_clr ops (logic_mask cm) (int c)"
    "worker_mask cm' = (if ty = EM_CORE_TYPE_WORKER then cm_clr ops (worker_mask cm) (int c) else worker_mask cm)"
    "control_mask cm' = (if ty = EM_CORE_TYPE_CONTROL then cm_clr ops (control_mask cm) (int c) else control_mask cm)"
    "thrmask_emcores cm' = cm_clr tops (thrmask_emcores cm) (int t)"
    "thrmask_extthrs cm' = thrmask_extthrs cm"
    "thrmask_all cm' = cm_clr tops (thrmask_all cm) (int t)"
    using run ty unfolding core_map_term_local_def Let_def
    by (auto simp: em_core_mask_clr_def split: prod.splits if_splits)
  have roles: "c' < unat ?max \<and> t' < cm_size tops \<and> ty' \<in> emcore_types \<and>
        tvl_odp_thr cm' c' = of_nat t' \<and> tvl_logic cm' t' = of_nat c' \<and> core_types cm' c' = ty'"
    if "(R(t := RoleNone)) t' = RoleCore c' ty'" for t' c' ty'
  proof -
    have t': "t' \<noteq> t" "R t' = RoleCore c' ty'" using that by (auto split: if_splits)
    then have "c' \<noteq> c" using inj by blast
    then show ?thesis using core_repD(1) [OF rep t'(2)] t'(1) by (simp add: sel(5-7))
  qed
  have exts: "t' < cm_size tops" if "(R(t := RoleNone)) t' = RoleExt" for t'
    using that core_repD(2) [OF rep, of t'] by (auto split: if_splits)
  have counts: "of_nat (card (role_cores R tys - {c})) = (of_nat (card (role_cores R tys)) :: u32) - 1"
    if "tys \<subseteq> emcore_types" "ty \<in> tys" for tys
  proof (rule of_nat_card_remove)
    show "finite (role_cores R tys)" by (rule role_cores_fin [OF rep that(1)])
    show "c \<in> role_cores R tys" using role that(2) by (auto simp: role_cores_def)
  qed
  have t_ext: "t \<notin> role_exts R" using role by (simp add: role_exts_def)
  have old: "S (logic_mask cm) = role_cores R emcore_types"
    "S (worker_mask cm) = role_cores R {EM_CORE_TYPE_WORKER}"
    "S (control_mask cm) = role_cores R {EM_CORE_TYPE_CONTROL}"
    "T (thrmask_emcores cm) = role_threads R" "T (thrmask_extthrs cm) = role_exts R"
    "T (thrmask_all cm) = role_threads R \<union> role_exts R"
    "current_core_count cm = of_nat (card (role_cores R emcore_types))"
    "worker_core_count cm = of_nat (card (role_cores R {EM_CORE_TYPE_WORKER}))"
    "control_core_count cm = of_nat (card (role_cores R {EM_CORE_TYPE_CONTROL}))"
    "external_thread_count cm = of_nat (card (role_exts R))"
    using rep by (simp_all add: core_rep_def)
  have w: "{EM_CORE_TYPE_WORKER} \<subseteq> emcore_types" and ct: "{EM_CORE_TYPE_CONTROL} \<subseteq> emcore_types"
    by (auto simp: emcore_types_def)
  have tyin: "ty \<in> emcore_types" using d by simp
  have "(role_threads R \<union> role_exts R) - {t} = (role_threads R - {t}) \<union> role_exts R" using t_ext by auto
  note new = sel(1-4,8-13) clr clrt old this counts [OF subset_refl tyin] if_P [OF tyin]
  have "core_rep S T (unat ?max) (cm_size tops) cm' (R(t := RoleNone))"
    unfolding core_rep_def l new
  proof (intro conjI allI impI)
    show "c' < unat ?max" "t' < cm_size tops" "ty' \<in> emcore_types" "tvl_odp_thr cm' c' = of_nat t'"
      "tvl_logic cm' t' = of_nat c'" "core_types cm' c' = ty'"
      if "(R(t := RoleNone)) t' = RoleCore c' ty'" for t' c' ty'
      using roles [OF that] by simp_all
    show "t' < cm_size tops" if "(R(t := RoleNone)) t' = RoleExt" for t' by (rule exts [OF that])
  qed (use ty counts [OF w] counts [OF ct] clr old in \<open>auto split: if_splits\<close>)
  then show ?thesis using run by blast
qed

lemma init_ext_rep:
  assumes laws: "core_laws ops S tops T conf"
    and rep: "core_rep S T m (cm_size tops) cm R"
    and role: "R (nat (env_odp_thr env)) = RoleNone"
    and run: "core_map_init_extthr tops env cm = (EM_OK, cm')"
  shows "core_rep S T m (cm_size tops) cm' (R(nat (env_odp_thr env) := RoleExt))"
proof -
  let ?t = "nat (env_odp_thr env)"
  have f: "0 \<le> env_odp_thr env" "env_odp_thr env < int (cm_size tops)"
    using run by (auto simp: core_map_init_extthr_def Let_def status_simps ODP_THREAD_COUNT_MAX_def split: if_splits)
  have t: "?t < cm_size tops" using f by (simp add: nat_less_iff)
  have set: "T (cm_set tops x (env_odp_thr env)) = insert ?t (T x)" for x
    using laws_set [of tops T ?t x] laws t f(1) by (simp add: core_laws_def)
  have fin: "finite (role_exts R)" by (rule role_exts_fin [OF rep])
  have new: "?t \<notin> role_exts R" using role by (simp add: role_exts_def)
  have cm': "cm' = cm\<lparr>external_thread_count := external_thread_count cm + 1,
             thrmask_extthrs := cm_set tops (thrmask_extthrs cm) (env_odp_thr env),
             thrmask_all := cm_set tops (thrmask_all cm) (env_odp_thr env),
             ext_tids := (ext_tids cm)(?t := env_tid env)\<rparr>"
    using run by (auto simp: core_map_init_extthr_def Let_def status_simps split: if_splits)
  have roles: "c' < m \<and> t' < cm_size tops \<and> ty' \<in> emcore_types \<and>
        tvl_odp_thr cm c' = of_nat t' \<and> tvl_logic cm t' = of_nat c' \<and> core_types cm c' = ty'"
    if "(R(?t := RoleExt)) t' = RoleCore c' ty'" for t' c' ty'
    using that core_repD(1) [OF rep, of t' c' ty'] by (auto split: if_splits)
  have exts: "t' < cm_size tops" if "(R(?t := RoleExt)) t' = RoleExt" for t'
    using that core_repD(2) [OF rep, of t'] t by (auto split: if_splits)
  show ?thesis
    unfolding core_rep_def role_ext_upd [of R ?t, OF role]
    using roles exts rep of_nat_card_insert [OF fin new] by (auto simp: core_rep_def cm' set)
qed

lemma term_ext_rep:
  assumes laws: "core_laws ops S tops T conf"
    and rep: "core_rep S T m (cm_size tops) cm R" and role: "R t = RoleExt"
  shows "\<exists>r cm'. core_map_term_extthr tops alloc_ok send_ok (int t) cm = Some (r, cm') \<and>
    core_rep S T m (cm_size tops) cm' (R(t := RoleNone))"
proof -
  have lt: "cpumask_laws tops T" using laws by (simp add: core_laws_def)
  have t: "t < cm_size tops" by (rule core_repD(2) [OF rep role])
  have clr: "T (cm_clr tops x (int t)) = T x - {t}" for x by (rule laws_clr [OF lt t])
  obtain cm' r where run: "core_map_term_extthr tops alloc_ok send_ok (int t) cm = Some (r, cm')"
  proof -
    have "core_map_term_extthr tops alloc_ok send_ok (int t) cm \<noteq> None"
      using inc_term_reqs_total [OF lt, of "thrmask_emcores cm" "ongoing_term_reqs cm"]
      unfolding core_map_term_extthr_def Let_def by (auto split: prod.split)
    then show ?thesis using that by fast
  qed
  have sel: "current_core_count cm' = current_core_count cm" "worker_core_count cm' = worker_core_count cm"
    "control_core_count cm' = control_core_count cm" "external_thread_count cm' = external_thread_count cm - 1"
    "tvl_logic cm' = tvl_logic cm" "tvl_odp_thr cm' = tvl_odp_thr cm" "core_types cm' = core_types cm"
    "logic_mask cm' = logic_mask cm" "worker_mask cm' = worker_mask cm" "control_mask cm' = control_mask cm"
    "thrmask_emcores cm' = thrmask_emcores cm"
    "thrmask_extthrs cm' = cm_clr tops (thrmask_extthrs cm) (int t)"
    "thrmask_all cm' = cm_clr tops (thrmask_all cm) (int t)"
    using run unfolding core_map_term_extthr_def Let_def by (auto split: prod.splits if_splits)
  have roles: "c' < m \<and> t' < cm_size tops \<and> ty' \<in> emcore_types \<and>
        tvl_odp_thr cm c' = of_nat t' \<and> tvl_logic cm t' = of_nat c' \<and> core_types cm c' = ty'"
    if "(R(t := RoleNone)) t' = RoleCore c' ty'" for t' c' ty'
    using that core_repD(1) [OF rep, of t' c' ty'] by (auto split: if_splits)
  have exts: "t' < cm_size tops" if "(R(t := RoleNone)) t' = RoleExt" for t'
    using that core_repD(2) [OF rep, of t'] by (auto split: if_splits)
  have "t \<in> role_exts R" "t \<notin> role_threads R" using role by (simp_all add: role_exts_def role_threads_def)
  then have "core_rep S T m (cm_size tops) cm' (R(t := RoleNone))"
    unfolding core_rep_def role_ext_leave [of R t, OF role]
    using roles exts rep of_nat_card_remove [OF role_exts_fin [OF rep], of t]
    by (auto simp: core_rep_def sel clr)
  then show ?thesis using run by blast
qed

section \<open>Runs\<close>

fun call_ok :: "core_call \<Rightarrow> bool" where
  "call_ok (CallInitLocal env req ty) = (req < 2 ^ 31)"
| "call_ok _ = True"

lemma init_local_fail:
  assumes "core_map_init_local ops tops conf env req ty cm = (st, cm', cid)" "st \<noteq> EM_OK"
  shows "cm' = cm"
  using assms by (auto simp: core_map_init_local_def Let_def split: if_splits)

lemma init_ext_fail:
  assumes "core_map_init_extthr tops env cm = (st, cm')" "st \<noteq> EM_OK"
  shows "cm' = cm"
  using assms by (auto simp: core_map_init_extthr_def Let_def split: if_splits)

lemma core_do_rep:
  assumes laws: "core_laws ops S tops T conf"
    and rep: "core_rep S T (unat (conf_core_count conf)) (cm_size tops) cm R" and ok: "call_ok call"
  shows "\<exists>cm' R'. core_do ops tops conf call (cm, R) = Some (cm', R') \<and>
    core_rep S T (unat (conf_core_count conf)) (cm_size tops) cm' R'"
proof (cases call)
  case (CallInitLocal env req ty)
  obtain st cm' cid where i: "core_map_init_local ops tops conf env req ty cm = (st, cm', cid)"
    by (metis prod_cases3)
  show ?thesis
  proof (cases "R (nat (env_odp_thr env)) = RoleNone \<and> st = EM_OK")
    case True
    then show ?thesis using i init_local_rep(1) [OF laws rep, of env req ty cm' cid] ok CallInitLocal
      by (simp add: Let_def)
  next
    case False
    then show ?thesis using i init_local_fail [OF i] rep CallInitLocal by (auto simp: Let_def)
  qed
next
  case (CallTermLocal t a b)
  show ?thesis
  proof (cases "R t")
    case (RoleCore c ty)
    then show ?thesis using term_local_rep [OF laws rep RoleCore, of a b] CallTermLocal by auto
  qed (use CallTermLocal rep in simp_all)
next
  case (CallInitExt env)
  obtain st cm' where i: "core_map_init_extthr tops env cm = (st, cm')" by fastforce
  show ?thesis
  proof (cases "R (nat (env_odp_thr env)) = RoleNone \<and> st = EM_OK")
    case True
    then show ?thesis using i init_ext_rep [OF laws rep, of env cm'] CallInitExt by (simp add: Let_def)
  next
    case False
    then show ?thesis using i init_ext_fail [OF i] rep CallInitExt by (auto simp: Let_def)
  qed
next
  case (CallTermExt t a b)
  then show ?thesis using term_ext_rep [OF laws rep, of t a b] rep by (cases "R t = RoleExt") auto
qed

lemma core_run_rep:
  assumes laws: "core_laws ops S tops T conf" and ok: "list_all call_ok calls"
    and rep: "core_rep S T (unat (conf_core_count conf)) (cm_size tops) cm R"
  shows "\<exists>cm' R'. core_run ops tops conf calls (cm, R) = Some (cm', R') \<and>
    core_rep S T (unat (conf_core_count conf)) (cm_size tops) cm' R'"
  using ok rep
proof (induction calls arbitrary: cm R)
  case (Cons c cs)
  then obtain cm1 R1 where "core_do ops tops conf c (cm, R) = Some (cm1, R1)"
    "core_rep S T (unat (conf_core_count conf)) (cm_size tops) cm1 R1"
    using core_do_rep [OF laws Cons.prems(2), of c] by auto
  then show ?case using Cons by simp
qed simp

lemma core_init_rep:
  assumes laws: "core_laws ops S tops T conf" and i: "core_map_init ops tops conf n = (st, cm)"
  shows "core_rep S T m k cm (\<lambda>_. RoleNone)"
proof -
  have z: "S (cm_zero ops) = {}" "T (cm_zero tops) = {}"
    using laws laws_simps(1) by (auto simp: core_laws_def)
  have "current_core_count cm = 0" "worker_core_count cm = 0" "control_core_count cm = 0"
    "external_thread_count cm = 0" "logic_mask cm = cm_zero ops" "worker_mask cm = cm_zero ops"
    "control_mask cm = cm_zero ops" "thrmask_emcores cm = cm_zero tops"
    "thrmask_extthrs cm = cm_zero tops" "thrmask_all cm = cm_zero tops"
    using i by (auto simp: core_map_init_def Let_def split: if_splits)
  then show ?thesis
    by (simp add: core_rep_def z role_cores_def role_threads_def role_exts_def)
qed

section \<open>Iteration as an instance of the contract\<close>

definition core_first_opt ::
  "'m cpumask_ops \<Rightarrow> em_core_type \<Rightarrow> ('m, 't) core_map \<Rightarrow> int option \<times> nat" where
  "core_first_opt ops ty cm =
     (let ((id, num), it) = em_core_id_first ops ty cm \<lparr>it_idx = - 1, it_src = ty\<rparr>
      in (if id < 0 then None else Some id, nat (it_idx it)))"

definition core_next_opt ::
  "'m cpumask_ops \<Rightarrow> em_core_type \<Rightarrow> ('m, 't) core_map \<Rightarrow> nat \<Rightarrow> int option \<times> nat" where
  "core_next_opt ops ty cm j =
     (let (id, it) = em_core_id_next ops cm \<lparr>it_idx = int j, it_src = ty\<rparr>
      in (if id < 0 then None else Some id, nat (it_idx it)))"

lemma first_idx_least:
  assumes "first_idx P i k = Some j"
  shows "P j" "i \<le> j" "j < i + k" "\<And>x. i \<le> x \<Longrightarrow> x < j \<Longrightarrow> \<not> P x"
  using assms by (simp_all add: first_idx_Some_iff)

lemma mask_first_idx:
  assumes laws: "cpumask_laws ops S"
  shows "first_idx (\<lambda>c. c \<in> S m) 0 (cm_size ops) = None \<Longrightarrow> cm_first ops m < 0"
    "first_idx (\<lambda>c. c \<in> S m) 0 (cm_size ops) = Some i \<Longrightarrow> cm_first ops m = int i"
    "j < cm_size ops \<Longrightarrow> first_idx (\<lambda>c. c \<in> S m) (Suc j) (cm_size ops - Suc j) = None \<Longrightarrow> cm_next ops m (int j) < 0"
    "j < cm_size ops \<Longrightarrow> first_idx (\<lambda>c. c \<in> S m) (Suc j) (cm_size ops - Suc j) = Some i \<Longrightarrow> cm_next ops m (int j) = int i"
proof -
  have fin: "finite (S m)" and sub: "\<And>c. c \<in> S m \<Longrightarrow> c < cm_size ops"
    using laws_finite [OF laws] laws_sub [OF laws] by auto
  have f: "if S m = {} then cm_first ops m < 0 else cm_first ops m = int (Min (S m))"
    using laws by (simp add: cpumask_laws_def)
  have n: "if {x \<in> S m. j < x} = {} then cm_next ops m (int j) < 0
      else cm_next ops m (int j) = int (Min {x \<in> S m. j < x})" for j
    using laws by (simp add: cpumask_laws_def Let_def)
  { assume "first_idx (\<lambda>c. c \<in> S m) 0 (cm_size ops) = None"
    then have "S m = {}" using sub by (fastforce simp: first_idx_None_iff)
    then show "cm_first ops m < 0" using f by simp }
  { assume a: "first_idx (\<lambda>c. c \<in> S m) 0 (cm_size ops) = Some i"
    then have "Min (S m) = i" using first_idx_least [OF a] fin by (intro Min_eqI) (auto simp: not_less [symmetric])
    then show "cm_first ops m = int i" using f first_idx_least(1) [OF a] by (auto split: if_splits) }
  { assume "j < cm_size ops" "first_idx (\<lambda>c. c \<in> S m) (Suc j) (cm_size ops - Suc j) = None"
    then have "{x \<in> S m. j < x} = {}" using sub by (fastforce simp: first_idx_None_iff)
    then show "cm_next ops m (int j) < 0" using n [of j] by simp }
  { assume "j < cm_size ops" and a: "first_idx (\<lambda>c. c \<in> S m) (Suc j) (cm_size ops - Suc j) = Some i"
    have "Min {x \<in> S m. j < x} = i"
      using first_idx_least [OF a] fin by (intro Min_eqI) (auto simp: not_less [symmetric] Suc_le_eq)
    moreover have "i \<in> {x \<in> S m. j < x}" using first_idx_least [OF a] by auto
    ultimately show "cm_next ops m (int j) = int i" using n [of j] by (metis (lifting) emptyE) }
qed

lemma core_table_iter:
  assumes laws: "cpumask_laws ops S" and src: "core_src ty cm = Some (count, msk)"
  shows "table_iter (cm_size ops) (unat count) (\<lambda>c. c \<in> S msk) int
    (core_first_opt ops ty cm) (core_next_opt ops ty cm)"
proof (unfold_locales, goal_cases)
  case 1
  then show ?case by (simp add: core_first_opt_def em_core_id_first_def src unat_zero_iff)
next
  case 2
  then show ?case using mask_first_idx(1) [OF laws 2]
    by (simp add: core_first_opt_def em_core_id_first_def src Let_def em_core_mask_first_def)
next
  case (3 i)
  then show ?case using mask_first_idx(2) [OF laws 3(2)]
    by (simp add: core_first_opt_def em_core_id_first_def src Let_def em_core_mask_first_def unat_zero_iff)
next
  case (4 j)
  then show ?case using mask_first_idx(3) [OF laws 4]
    by (simp add: core_next_opt_def em_core_id_next_def src Let_def em_core_mask_next_def)
next
  case (5 j i)
  then show ?case using mask_first_idx(4) [OF laws 5]
    by (simp add: core_next_opt_def em_core_id_next_def src Let_def em_core_mask_next_def)
qed

section \<open>Masks of threads\<close>

lemma fold_set_thr:
  assumes "cpumask_laws tops T" "\<forall>c \<in> set xs. f c < cm_size tops"
  shows "T (fold (\<lambda>c t. cm_set tops t (int (f c))) xs tm) = T tm \<union> f ` set xs"
  using assms(2)
proof (induction xs arbitrary: tm)
  case (Cons x xs)
  then show ?case using laws_set [OF assms(1), of "f x" tm] by simp
qed simp

lemma rep_thr:
  assumes "core_laws ops S tops T conf" "core_rep S T m (cm_size tops) cm R" "R t = RoleCore c ty"
  shows "unat (tvl_odp_thr cm c) = t"
proof -
  have "tvl_odp_thr cm c = of_nat t" "t < 2 ^ 16"
    using core_repD(1) [OF assms(2,3)] assms(1) by (auto simp: core_laws_def)
  then show ?thesis using unat_of_nat_small [where 'a = 16, of t] by simp
qed

section \<open>A concrete system for the witnesses\<close>

definition demo_core_conf :: "nat set core_conf" where
  "demo_core_conf = \<lparr>conf_core_count = 2, conf_phys_mask = {0, 1, 2}\<rparr>"

definition demo_thr :: "int \<Rightarrow> int \<Rightarrow> thr_env" where
  "demo_thr cpu thr = \<lparr>env_cpu_id = cpu, env_tid = 100 + thr, env_odp_thr = thr, env_thr_count_max = 8,
     env_affinity = Some [cpu = 0, cpu = 1, cpu = 2]\<rparr>"

lemma demo_core_laws:
  "core_laws (set_mask_ops 64) (\<lambda>m. m \<inter> {..<64}) (set_mask_ops 8) (\<lambda>m. m \<inter> {..<8}) demo_core_conf"
  by (simp add: core_laws_def set_mask_laws)
    (simp add: set_mask_ops_def EM_MAX_CORES_def demo_core_conf_def)

definition demo_core_map :: "(nat set, nat set) core_map" where
  "demo_core_map = snd (core_map_init (set_mask_ops 64) (set_mask_ops 8) demo_core_conf 8)"

lemma demo_core_init:
  "core_map_init (set_mask_ops 64) (set_mask_ops 8) demo_core_conf 8 = (EM_OK, demo_core_map)"
  unfolding demo_core_map_def
  by (simp add: core_map_init_def demo_core_conf_def set_mask_ops_def ODP_THREAD_COUNT_MAX_def
      em_core_mask_count_def EM_MAX_CORES_def Let_def Int_insert_left)

definition demo_core_calls :: "core_call list" where
  "demo_core_calls = [CallInitLocal (demo_thr 1 5) (- 1) EM_CORE_TYPE_WORKER,
     CallInitLocal (demo_thr 2 3) 1 EM_CORE_TYPE_WORKER, CallTermLocal 5 True True]"

text \<open>The system after thread 5 has become worker core 0.\<close>

definition demo_running :: "(nat set, nat set) core_map" where
  "demo_running = demo_core_map\<lparr>current_core_count := 1, worker_core_count := 1,
     tvl_odp_thr := (\<lambda>_. 0)(0 := 5), logic_mask := {0}, worker_mask := {0}, thrmask_emcores := {5},
     thrmask_all := {5}, core_types := (\<lambda>_. EM_CORE_TYPE_UNDEF)(0 := EM_CORE_TYPE_WORKER)\<rparr>"

definition demo_roles :: "nat \<Rightarrow> thr_role" where
  "demo_roles = (\<lambda>_. RoleNone)(5 := RoleCore 0 EM_CORE_TYPE_WORKER)"

lemma demo_sizes: "unat (conf_core_count demo_core_conf) = 2" "cm_size (set_mask_ops n) = n"
  by (simp_all add: demo_core_conf_def set_mask_ops_def)

lemma demo_running_rep:
  "core_rep (\<lambda>m. m \<inter> {..<64}) (\<lambda>m. m \<inter> {..<8}) (unat (conf_core_count demo_core_conf))
     (cm_size (set_mask_ops 8)) demo_running demo_roles"
proof -
  have c: "role_cores demo_roles tys = (if EM_CORE_TYPE_WORKER \<in> tys then {0} else {})" for tys
    by (auto simp: role_cores_def demo_roles_def split: if_splits)
  have t: "role_threads demo_roles = {5}" "role_exts demo_roles = {}"
    by (auto simp: role_threads_def role_exts_def demo_roles_def split: if_splits)
  have z: "control_mask demo_core_map = {}" "thrmask_extthrs demo_core_map = {}"
    "control_core_count demo_core_map = 0" "external_thread_count demo_core_map = 0"
    "tvl_logic demo_core_map = (\<lambda>_. 0)"
    by (simp_all add: demo_core_map_def core_map_init_def Let_def set_mask_ops_def)
  show ?thesis
    unfolding core_rep_def c t demo_sizes
    by (auto simp: demo_running_def demo_roles_def z emcore_types_def split: if_splits)
qed

section \<open>Properties of the core map\<close>

text \<open>
  C13: For every sequence of initialisations and terminations by any threads, the operations return
  and the core map represents exactly the threads' roles: the masks are the core ids and threads in
  use, the four counters their numbers, the two tables map every core to its thread and back, and no
  two threads share a core id.
\<close>

theorem core_run_exact:
  assumes "core_laws ops S tops T conf" "core_map_init ops tops conf n = (EM_OK, cm0)"
    and "list_all call_ok calls"
  shows "\<exists>cm R. core_run ops tops conf calls (cm0, \<lambda>_. RoleNone) = Some (cm, R) \<and>
    core_rep S T (unat (conf_core_count conf)) (cm_size tops) cm R \<and>
    (\<forall>t t' c ty ty'. R t = RoleCore c ty \<and> R t' = RoleCore c ty' \<longrightarrow> t = t')"
proof -
  obtain cm R where r: "core_run ops tops conf calls (cm0, \<lambda>_. RoleNone) = Some (cm, R)"
    "core_rep S T (unat (conf_core_count conf)) (cm_size tops) cm R"
    using core_run_rep [OF assms(1,3) core_init_rep [OF assms(1,2)]] by blast
  moreover have "cm_size tops \<le> 2 ^ 16" using assms(1) by (simp add: core_laws_def)
  ultimately show ?thesis using core_rep_inj [OF r(2)] by blast
qed

theorem core_run_exact_witness:
  "\<exists>cm R. core_run (set_mask_ops 64) (set_mask_ops 8) demo_core_conf demo_core_calls
      (demo_core_map, \<lambda>_. RoleNone) = Some (cm, R) \<and>
    core_rep (\<lambda>m. m \<inter> {..<64}) (\<lambda>m. m \<inter> {..<8}) 2 8 cm R"
proof -
  have "list_all call_ok demo_core_calls" by (simp add: demo_core_calls_def)
  from core_run_exact [OF demo_core_laws demo_core_init this] show ?thesis
    by (auto simp: demo_core_conf_def set_mask_ops_def)
qed

text \<open>
  C22: The core id a thread gets: with -1 the smallest id not in use, or an error when all are taken;
  otherwise the requested id, or an error when it is out of range or in use.
\<close>

theorem determine_core_id_correct:
  assumes "cpumask_laws ops S" "unat max_cores \<le> cm_size ops" "req < 2 ^ 31"
  shows "determine_core_id ops req max_cores cm =
    (if req = - 1
     then (if {..<unat max_cores} \<subseteq> S (logic_mask cm) then - 1
           else int (LEAST c. c \<notin> S (logic_mask cm)))
     else if 0 \<le> req \<and> req < int (unat max_cores) \<and> nat req \<notin> S (logic_mask cm) then req else - 1)"
  by (rule determine_core_id_cases [OF assms])

theorem determine_core_id_correct_witness:
  "determine_core_id (set_mask_ops 64) 1 2 (demo_core_map\<lparr>logic_mask := {0}\<rparr>) = 1"
  using determine_core_id_correct [OF set_mask_laws, of 2 64 1 "demo_core_map\<lparr>logic_mask := {0}\<rparr>"]
  by (simp add: set_mask_ops_def)

text \<open>
  C21: Translating a mask of running cores gives exactly the mask of the threads that run them.
\<close>

theorem mask_em2odp_correct:
  assumes "core_laws ops S tops T conf" "core_rep S T m (cm_size tops) cm R" "S msk \<subseteq> S (logic_mask cm)"
  shows "\<exists>tm. mask_em2odp ops tops cm msk = Some tm \<and> T tm = {t. \<exists>c \<in> S msk. \<exists>ty. R t = RoleCore c ty}"
proof -
  have laws: "cpumask_laws ops S" "cpumask_laws tops T" using assms(1) by (auto simp: core_laws_def)
  let ?f = "\<lambda>c. unat (tvl_odp_thr cm c)"
  let ?b = "\<lambda>core t. cm_set tops t (int (unat (tvl_odp_thr cm (nat core))))"
  obtain c where "mask_walk ops msk (\<lambda>_ _. True) ?b (cm_first ops msk) (cm_zero tops) =
      Some (c, snd (ids_walk (\<lambda>_ _. True) ?b (sorted_list_of_set (S msk)) (cm_zero tops)))"
    by (rule mask_walk_first [OF laws(1)])
  then have e: "mask_em2odp ops tops cm msk =
      Some (fold (\<lambda>c t. cm_set tops t (int (?f c))) (sorted_list_of_set (S msk)) (cm_zero tops))"
    by (simp add: mask_em2odp_def em_core_mask_first_def ids_walk_fold)
  have role: "\<exists>t ty. R t = RoleCore c ty \<and> ?f c = t \<and> t < cm_size tops" if "c \<in> S msk" for c
  proof -
    have "c \<in> role_cores R emcore_types" using that assms(2,3) by (auto simp: core_rep_def)
    then obtain t ty where r: "R t = RoleCore c ty" by (auto simp: role_cores_def)
    then show ?thesis using rep_thr [OF assms(1,2) r] core_repD(1) [OF assms(2) r] by blast
  qed
  have "T (fold (\<lambda>c t. cm_set tops t (int (?f c))) (sorted_list_of_set (S msk)) (cm_zero tops)) = ?f ` S msk"
    using fold_set_thr [OF laws(2), of "sorted_list_of_set (S msk)" ?f "cm_zero tops"] role
      laws_finite [OF laws(1), of msk] laws_simps(1) [OF laws(2)] by fastforce
  also have "\<dots> = {t. \<exists>c \<in> S msk. \<exists>ty. R t = RoleCore c ty}"
    using role rep_thr [OF assms(1,2)] by fastforce
  finally show ?thesis using e by blast
qed

theorem mask_em2odp_correct_witness:
  "\<exists>tm. mask_em2odp (set_mask_ops 64) (set_mask_ops 8) demo_running {0} = Some tm \<and> tm \<inter> {..<8} = {5}"
proof -
  have "{t. \<exists>c \<in> {0} \<inter> {..<64}. \<exists>ty. demo_roles t = RoleCore c ty} = {5}" by (auto simp: demo_roles_def)
  then show ?thesis
    using mask_em2odp_correct [OF demo_core_laws demo_running_rep, of "{0}"]
    by (simp add: demo_running_def)
qed

text \<open>
  Iterating with \<^verbatim>\<open>em_core_id_first\<close> and \<^verbatim>\<open>em_core_id_next\<close> visits every running core of the asked
  type exactly once, in increasing order, and then ends.
\<close>

theorem em_core_id_iterate:
  assumes "core_laws ops S tops T conf" "core_rep S T (unat (conf_core_count conf)) (cm_size tops) cm R"
    and "core_src ty cm = Some (count, msk)"
  shows "iterate (core_next_opt ops ty cm) (cm_size ops) (core_first_opt ops ty cm) =
    map int (filter (\<lambda>c. \<exists>t ty'. R t = RoleCore c ty' \<and> (ty = EM_CORE_TYPE_UNDEF \<or> ty' = ty)) [0..<cm_size ops])"
proof -
  have laws: "cpumask_laws ops S" using assms(1) by (simp add: core_laws_def)
  define tys where "tys = (if ty = EM_CORE_TYPE_UNDEF then emcore_types else {ty})"
  have src: "S msk = role_cores R tys" "count = of_nat (card (role_cores R tys))" "tys \<subseteq> emcore_types"
    using assms(2,3) by (cases ty; auto simp: core_src_def core_rep_def tys_def emcore_types_def)+
  have sub: "role_cores R tys \<subseteq> {..<unat (conf_core_count conf)}" and fin: "finite (role_cores R tys)"
    using role_cores_fin [OF assms(2) src(3)] by auto
  have "card (role_cores R tys) < 2 ^ 32"
    using card_mono [OF _ sub] unat_lt_len [of "conf_core_count conf"] by simp
  then have "unat count = card (role_cores R tys)"
    unfolding src(2) by (intro unat_of_nat_small) simp
  then have c: "unat count = 0 \<longleftrightarrow> (\<forall>c < cm_size ops. c \<notin> S msk)"
    using fin src(1) laws_sub [OF laws, of _ msk] by auto
  have "c \<in> S msk \<longleftrightarrow> (\<exists>t ty'. R t = RoleCore c ty' \<and> (ty = EM_CORE_TYPE_UNDEF \<or> ty' = ty))" for c
  proof (cases "ty = EM_CORE_TYPE_UNDEF")
    case True
    have "ty' \<in> emcore_types" if "R t = RoleCore c ty'" for t ty'
      using core_repD(1) [OF assms(2) that] by simp
    then show ?thesis unfolding src(1) role_cores_def tys_def using True by auto
  next
    case False
    then show ?thesis unfolding src(1) role_cores_def tys_def by auto
  qed
  then show ?thesis
    using table_iter.iterate_all [OF core_table_iter [OF laws assms(3)] c] by simp
qed

theorem em_core_id_iterate_witness:
  "iterate (core_next_opt (set_mask_ops 64) EM_CORE_TYPE_WORKER demo_running) 64
      (core_first_opt (set_mask_ops 64) EM_CORE_TYPE_WORKER demo_running) = [0]"
proof -
  have "core_src EM_CORE_TYPE_WORKER demo_running = Some (1, {0})"
    by (simp add: core_src_def demo_running_def)
  note r = em_core_id_iterate [OF demo_core_laws demo_running_rep this, unfolded demo_sizes]
  have "filter (\<lambda>c. \<exists>t ty'. demo_roles t = RoleCore c ty' \<and>
      (EM_CORE_TYPE_WORKER = EM_CORE_TYPE_UNDEF \<or> ty' = EM_CORE_TYPE_WORKER)) [0..<64] = filter (\<lambda>c. c = 0) [0..<64]"
    by (rule filter_cong) (auto simp: demo_roles_def)
  also have "\<dots> = [0]" by (simp add: upt_rec)
  finally show ?thesis using r by simp
qed

section \<open>The CPU field of the stat file\<close>

fun token_line :: "string list \<Rightarrow> string" where
  "token_line [] = []"
| "token_line [t] = t"
| "token_line (t # u # ts) = t @ CHR '' '' # token_line (u # ts)"

definition token_ok :: "string \<Rightarrow> bool" where
  "token_ok t \<longleftrightarrow> t \<noteq> [] \<and> CHR '' '' \<notin> set t \<and> CHR 0x0A \<notin> set t"

lemma next_token_line:
  assumes "token_ok t" "token_ok u"
  shows "next_token (token_line (t # u # ts) @ r) = Some (t, token_line (u # ts) @ r)"
proof -
  have t: "t \<noteq> []" "\<forall>c \<in> set t. c \<noteq> CHR '' ''" using assms(1) by (auto simp: token_ok_def)
  have "dropWhile (\<lambda>c. c = CHR '' '') (t @ x) = t @ x" for x using t by (cases t) auto
  moreover have "takeWhile (\<lambda>c. c \<noteq> CHR '' '') (t @ CHR '' '' # x) = t"
    "dropWhile (\<lambda>c. c \<noteq> CHR '' '') (t @ CHR '' '' # x) = CHR '' '' # x" for x
    using t(2) by (simp_all add: takeWhile_append2 dropWhile_append2)
  ultimately show ?thesis using t(1) by (simp add: next_token_def)
qed

lemma skip_tokens_line:
  assumes "list_all token_ok ts" "Suc k < length ts"
  shows "skip_tokens k (next_token (token_line ts @ r)) = Some (ts ! k, token_line (drop (Suc k) ts) @ r)"
  using assms
proof (induction k arbitrary: ts)
  case 0
  then obtain t u us where "ts = t # u # us" by (cases ts; cases "tl ts") auto
  then show ?case using 0 next_token_line [of t u us r] by simp
next
  case (Suc k)
  then obtain t u us where ts: "ts = t # u # us" by (cases ts; cases "tl ts") auto
  then show ?case using Suc next_token_line [of t u us r] Suc.IH [of "u # us"] by simp
qed

lemma of_char_digit: "d < 10 \<Longrightarrow> (of_char (char_of (48 + d :: nat)) :: nat) = 48 + d"
  by (simp add: of_char_of)

lemma nat_digits_props:
  "nat_digits n \<noteq> [] \<and> list_all is_digit (nat_digits n) \<and> digits_val (nat_digits n) = int n"
proof (induction n rule: nat_digits.induct)
  case (1 n)
  have d: "of_char (char_of (48 + m :: nat) :: char) = (48 + int m)" if "m < 10" for m
    using of_char_digit [OF that] by (metis of_nat_add of_nat_numeral of_nat_of_char)
  show ?case
  proof (cases "n < 10")
    case True
    then show ?thesis using of_char_digit [OF True] d [OF True]
      by (subst (1 2 3) nat_digits.simps) (simp add: is_digit_def digits_val_def)
  next
    case False
    have m: "n mod 10 < 10" by simp
    have "digits_val (nat_digits (n div 10) @ [char_of (48 + n mod 10)]) = 10 * int (n div 10) + int (n mod 10)"
      using 1 [OF False] d [OF m] by (simp add: digits_val_def)
    also have "\<dots> = int n" by (metis mult_div_mod_eq of_nat_add of_nat_mult of_nat_numeral)
    finally have v: "digits_val (nat_digits (n div 10) @ [char_of (48 + n mod 10)]) = int n" .
    have "is_digit (char_of (48 + n mod 10))"
      using of_char_digit [OF m] m unfolding is_digit_def by linarith
    then show ?thesis using 1 [OF False] False v by (subst (1 2 3) nat_digits.simps) simp
  qed
qed

lemma strtol10_digits:
  assumes "int n < 2 ^ 63"
  shows "strtol10 (nat_digits n) = Some (int n, [])"
proof -
  have p: "nat_digits n \<noteq> []" "\<forall>c \<in> set (nat_digits n). is_digit c" "digits_val (nat_digits n) = int n"
    using nat_digits_props [of n] by (auto simp: list_all_iff)
  have "is_digit (hd (nat_digits n))" using p by simp
  then have h: "\<not> is_space (hd (nat_digits n))" "hd (nat_digits n) \<noteq> CHR ''-''" "hd (nat_digits n) \<noteq> CHR ''+''"
    by (auto simp: is_digit_def is_space_def)
  have "dropWhile is_space (nat_digits n) = nat_digits n"
    using h(1) p(1) by (cases "nat_digits n") auto
  moreover have tw: "takeWhile is_digit (nat_digits n) = nat_digits n" "dropWhile is_digit (nat_digits n) = []"
    using p(2) by simp_all
  ultimately show ?thesis using p(1,3) h assms by (simp add: strtol10_def Let_def tw)
qed

lemma token_line_chars: "list_all token_ok ts \<Longrightarrow> CHR 0x0A \<notin> set (token_line ts)"
  by (induction ts rule: token_line.induct) (auto simp: token_ok_def)



end
