(* ===== verification/AgLock.thy ===== *)
theory AgLock
  imports Prelude "HOL-Library.Multiset"
begin

text \<open>
  The dispatch lock of atomic groups (\<^verbatim>\<open>atomic_group_dispatch\<close> of \<^verbatim>\<open>em_atomic_group.c\<close> and what it
  calls). Any number of cores dispatch events from queues of one atomic group. One 64-bit word holds
  the lock and the number of stashed events; every access to it is one atomic instruction, and so is
  one step here. The group's two stashes are ODP objects: a put stores a prefix of the events, a get
  returns a prefix of the stash, as the ODP documentation says of a FIFO stash.
\<close>

section \<open>The lock word\<close>

definition WRAP_PROTECT :: u16 where "WRAP_PROTECT = 0x0FFF"

record ag_word =
  aw_evcnt :: u32
  aw_wrap :: u16
  aw_lock :: u16

definition lock_and_evcnt :: "ag_word \<Rightarrow> u64" where
  "lock_and_evcnt w =
     ucast (aw_evcnt w) + push_bit 32 (ucast (aw_wrap w)) + push_bit 48 (ucast (aw_lock w))"

definition ag_parts :: "u64 \<Rightarrow> ag_word" where
  "ag_parts u = \<lparr>aw_evcnt = ucast u, aw_wrap = ucast (drop_bit 32 u), aw_lock = ucast (drop_bit 48 u)\<rparr>"

text \<open>The atomic instructions: add, subtract, and compare-and-swap on the whole word.\<close>

definition fetch_add :: "u64 \<Rightarrow> ag_word \<Rightarrow> ag_word" where
  "fetch_add n w = ag_parts (lock_and_evcnt w + n)"

definition fetch_sub :: "u64 \<Rightarrow> ag_word \<Rightarrow> ag_word" where
  "fetch_sub n w = ag_parts (lock_and_evcnt w - n)"

definition compare_exchange :: "ag_word \<Rightarrow> ag_word \<Rightarrow> ag_word \<Rightarrow> bool \<times> ag_word" where
  "compare_exchange expected desired w =
     (if lock_and_evcnt w = lock_and_evcnt expected then (True, desired) else (False, w))"

definition ag_idle_word :: ag_word where
  "ag_idle_word = \<lparr>aw_evcnt = 0, aw_wrap = WRAP_PROTECT, aw_lock = 0\<rparr>"

definition ag_held_word :: ag_word where
  "ag_held_word = \<lparr>aw_evcnt = 0, aw_wrap = WRAP_PROTECT, aw_lock = 1\<rparr>"

definition ag_acquire_if_idle :: "ag_word \<Rightarrow> bool \<times> ag_word" where
  "ag_acquire_if_idle w = compare_exchange ag_idle_word ag_held_word w"

text \<open>One round of the loop of \<^verbatim>\<open>ag_trylock\<close>, with the word loaded before: None repeats the loop.\<close>

definition ag_trylock_round :: "ag_word \<Rightarrow> ag_word \<Rightarrow> bool option \<times> ag_word" where
  "ag_trylock_round loaded w =
     (let desired = loaded\<lparr>aw_lock := 1\<rparr>;
          (success, w') = compare_exchange loaded desired w
      in (if success then Some (aw_lock loaded = 0 \<and> aw_lock desired = 1) else None, w'))"

definition ag_unlock_held :: "ag_word \<Rightarrow> bool \<times> ag_word" where
  "ag_unlock_held w = compare_exchange ag_held_word ag_idle_word w"

text \<open>
  \<^verbatim>\<open>ag_unlock\<close> after the group was released: what the loaded word says. \<^verbatim>\<open>None\<close> is to try to take the
  lock again with the compare-and-swap, \<^verbatim>\<open>Some True\<close> to return.
\<close>

definition ag_unlock_check :: "ag_word \<Rightarrow> bool option" where
  "ag_unlock_check loaded =
     (if aw_lock loaded = 1 then Some True
      else if aw_evcnt loaded = 0 \<and> aw_wrap loaded = WRAP_PROTECT then Some True else None)"

definition ag_unlock_retake :: "ag_word \<Rightarrow> ag_word \<Rightarrow> bool \<times> ag_word" where
  "ag_unlock_retake loaded w = compare_exchange loaded (loaded\<lparr>aw_lock := 1\<rparr>) w"

definition atomic_group_release_round :: "ag_word \<Rightarrow> ag_word \<Rightarrow> bool \<times> ag_word" where
  "atomic_group_release_round loaded w = compare_exchange loaded (loaded\<lparr>aw_lock := 0\<rparr>) w"

section \<open>Batches\<close>

text \<open>
  A stash entry: the index of the queue and the event. \<^verbatim>\<open>ag_dispatch_batches\<close> hands runs of entries
  of one queue to \<^verbatim>\<open>dispatch_events\<close>.
\<close>

type_synonym stash_entry = "u16 \<times> hdl"

function ag_dispatch_batches :: "stash_entry list \<Rightarrow> (u16 \<times> hdl list) list" where
  "ag_dispatch_batches [] = []"
| "ag_dispatch_batches ((qidx, ev) # es) =
     (qidx, ev # map snd (takeWhile (\<lambda>e. fst e = qidx) es)) #
     ag_dispatch_batches (dropWhile (\<lambda>e. fst e = qidx) es)"
  by pat_completeness auto
termination
  by (relation "measure length") (auto simp: le_imp_less_Suc length_dropWhile_le)

section \<open>Cores dispatching one atomic group\<close>

definition EM_SCHED_AG_MULTI_MAX_BURST :: nat where "EM_SCHED_AG_MULTI_MAX_BURST = 32"

text \<open>
  Where a core is: outside; entered with events of a queue; about to count, to put, or to drop events;
  in \<^verbatim>\<open>ag_trylock\<close>; in the dequeue of \<^verbatim>\<open>ag_dispatch_loop\<close>; running events (those left to hand to the
  EO); in \<^verbatim>\<open>atomic_group_release\<close> called by the last event's handler; in \<^verbatim>\<open>ag_unlock\<close>.
\<close>

datatype ag_pc =
    PcIdle
  | PcEnter u16 "stash_entry list"
  | PcEnq u16 "stash_entry list"
  | PcPut u16 "stash_entry list"
  | PcErr "stash_entry list"
  | PcTry
  | PcTryCas ag_word
  | PcLoop
  | PcLo "stash_entry list"
  | PcSub "stash_entry list"
  | PcRun "stash_entry list"
  | PcRel ag_word
  | PcUnl
  | PcUnlLoad
  | PcUnlCas ag_word

text \<open>
  The group: its word, its stashes, whether it has queues of the highest priority
  (\<^verbatim>\<open>num_hi_prio_queues > 0\<close>), the cores' positions and their \<^verbatim>\<open>atomic_group_released\<close> flags. The
  last three fields are the history: events handed in, run, and dropped, oldest first.
\<close>

record ag_sys =
  ag_word :: ag_word
  ag_hi :: "stash_entry list"
  ag_lo :: "stash_entry list"
  ag_hi_used :: bool
  ag_pc :: "nat \<Rightarrow> ag_pc"
  ag_released :: "nat \<Rightarrow> bool"
  ag_in :: "stash_entry list"
  ag_run :: "stash_entry list"
  ag_drop :: "stash_entry list"

definition ag_init :: ag_sys where
  "ag_init = \<lparr>ag_word = ag_idle_word, ag_hi = [], ag_lo = [], ag_hi_used = False,
     ag_pc = (\<lambda>_. PcIdle), ag_released = (\<lambda>_. False), ag_in = [], ag_run = [], ag_drop = []\<rparr>"

definition goto :: "nat \<Rightarrow> ag_pc \<Rightarrow> ag_sys \<Rightarrow> ag_sys" where
  "goto k p s = s\<lparr>ag_pc := (ag_pc s)(k := p)\<rparr>"

definition set_released :: "nat \<Rightarrow> bool \<Rightarrow> ag_sys \<Rightarrow> ag_sys" where
  "set_released k b s = s\<lparr>ag_released := (ag_released s)(k := b)\<rparr>"

text \<open>
  While a core holds ODP's atomic context of a queue, ODP schedules no other event of that queue. The
  core gives the context up after taking the group's lock, or after enqueueing.
\<close>

fun holds_queue :: "u16 \<Rightarrow> ag_pc \<Rightarrow> bool" where
  "holds_queue q (PcEnter q' es) = (q' = q)"
| "holds_queue q (PcEnq q' es) = (q' = q)"
| "holds_queue q (PcPut q' es) = (q' = q)"
| "holds_queue q _ = False"

text \<open>
  \<^verbatim>\<open>ncores\<close> is the number of cores, \<^verbatim>\<open>hi_prio q\<close> whether queue \<^verbatim>\<open>q\<close> has the highest priority. A core
  counts its events only when the 32-bit count has room for them: the events of a group are fewer
  than \<^verbatim>\<open>2 ^ 32\<close>.
\<close>

inductive ag_step :: "nat \<Rightarrow> (u16 \<Rightarrow> bool) \<Rightarrow> ag_sys \<Rightarrow> ag_sys \<Rightarrow> bool" for ncores hi_prio where
  Call: "k < ncores \<Longrightarrow> ag_pc s k = PcIdle \<Longrightarrow> evs \<noteq> [] \<Longrightarrow> \<forall>j. \<not> holds_queue q (ag_pc s j) \<Longrightarrow>
    es = map (Pair q) evs \<Longrightarrow>
    ag_step ncores hi_prio s ((goto k (PcEnter q es) s)\<lparr>ag_in := ag_in s @ es\<rparr>)"
| Fast: "ag_pc s k = PcEnter q es \<Longrightarrow> ag_acquire_if_idle (ag_word s) = (True, w') \<Longrightarrow>
    ag_step ncores hi_prio s ((goto k (PcRun es) s)\<lparr>ag_word := w'\<rparr>)"
| Slow: "ag_pc s k = PcEnter q es \<Longrightarrow> ag_acquire_if_idle (ag_word s) = (False, w') \<Longrightarrow>
    ag_step ncores hi_prio s (goto k (PcEnq q es) s)"
| Count: "ag_pc s k = PcEnq q es \<Longrightarrow> unat (aw_evcnt (ag_word s)) + length es < 2 ^ 32 \<Longrightarrow>
    ag_step ncores hi_prio s ((goto k (PcPut q es) s)\<lparr>ag_word := fetch_add (of_nat (length es)) (ag_word s)\<rparr>)"
| Put: "ag_pc s k = PcPut q es \<Longrightarrow> n \<le> length es \<Longrightarrow>
    s' = (goto k (if n = length es then PcTry else PcErr (drop n es)) s) \<Longrightarrow>
    ag_step ncores hi_prio s (if hi_prio q then s'\<lparr>ag_hi := ag_hi s @ take n es\<rparr>
      else s'\<lparr>ag_lo := ag_lo s @ take n es\<rparr>)"
| Drop: "ag_pc s k = PcErr es \<Longrightarrow>
    ag_step ncores hi_prio s ((goto k PcTry s)\<lparr>ag_word := fetch_sub (of_nat (length es)) (ag_word s),
      ag_drop := ag_drop s @ es\<rparr>)"
| TryLoad: "ag_pc s k = PcTry \<Longrightarrow> ag_step ncores hi_prio s (goto k (PcTryCas (ag_word s)) s)"
| TryTaken: "ag_pc s k = PcTryCas loaded \<Longrightarrow> ag_trylock_round loaded (ag_word s) = (Some True, w') \<Longrightarrow>
    ag_step ncores hi_prio s ((goto k PcLoop s)\<lparr>ag_word := w'\<rparr>)"
| TryHeld: "ag_pc s k = PcTryCas loaded \<Longrightarrow> ag_trylock_round loaded (ag_word s) = (Some False, w') \<Longrightarrow>
    ag_step ncores hi_prio s ((goto k PcIdle s)\<lparr>ag_word := w'\<rparr>)"
| TryAgain: "ag_pc s k = PcTryCas loaded \<Longrightarrow> ag_trylock_round loaded (ag_word s) = (None, w') \<Longrightarrow>
    ag_step ncores hi_prio s (goto k PcTry s)"
| GetHi: "ag_pc s k = PcLoop \<Longrightarrow> n \<le> (if ag_hi_used s then EM_SCHED_AG_MULTI_MAX_BURST else 0) \<Longrightarrow>
    ag_step ncores hi_prio s ((goto k (PcLo (take n (ag_hi s))) s)\<lparr>ag_hi := drop n (ag_hi s)\<rparr>)"
| GetLo: "ag_pc s k = PcLo es \<Longrightarrow> n \<le> EM_SCHED_AG_MULTI_MAX_BURST - length es \<Longrightarrow>
    ag_step ncores hi_prio s ((goto k (PcSub (es @ take n (ag_lo s))) s)\<lparr>ag_lo := drop n (ag_lo s)\<rparr>)"
| SubSome: "ag_pc s k = PcSub es \<Longrightarrow> es \<noteq> [] \<Longrightarrow>
    ag_step ncores hi_prio s ((goto k (PcRun es) s)\<lparr>ag_word := fetch_sub (of_nat (length es)) (ag_word s)\<rparr>)"
| SubNone: "ag_pc s k = PcSub [] \<Longrightarrow> ag_step ncores hi_prio s (goto k PcUnl s)"
| Run: "ag_pc s k = PcRun (e # es) \<Longrightarrow>
    ag_step ncores hi_prio s ((goto k (PcRun es) s)\<lparr>ag_run := ag_run s @ [e]\<rparr>)"
| RelLoad: "ag_pc s k = PcRun [] \<Longrightarrow> \<not> ag_released s k \<Longrightarrow>
    ag_step ncores hi_prio s (goto k (PcRel (ag_word s)) s)"
| RelDone: "ag_pc s k = PcRel loaded \<Longrightarrow> atomic_group_release_round loaded (ag_word s) = (True, w') \<Longrightarrow>
    ag_step ncores hi_prio s ((set_released k True (goto k (PcRun []) s))\<lparr>ag_word := w'\<rparr>)"
| RelAgain: "ag_pc s k = PcRel loaded \<Longrightarrow> atomic_group_release_round loaded (ag_word s) = (False, w') \<Longrightarrow>
    ag_step ncores hi_prio s (goto k (PcRel (ag_word s)) s)"
| RunEnd: "ag_pc s k = PcRun [] \<Longrightarrow> ag_step ncores hi_prio s (goto k PcUnl s)"
| Unlock: "ag_pc s k = PcUnl \<Longrightarrow> \<not> ag_released s k \<Longrightarrow> ag_unlock_held (ag_word s) = (True, w') \<Longrightarrow>
    ag_step ncores hi_prio s ((goto k PcIdle s)\<lparr>ag_word := w'\<rparr>)"
| UnlockMore: "ag_pc s k = PcUnl \<Longrightarrow> \<not> ag_released s k \<Longrightarrow> ag_unlock_held (ag_word s) = (False, w') \<Longrightarrow>
    ag_step ncores hi_prio s (goto k PcLoop s)"
| UnlockRel: "ag_pc s k = PcUnl \<Longrightarrow> ag_released s k \<Longrightarrow>
    ag_step ncores hi_prio s (set_released k False (goto k PcUnlLoad s))"
| UnlDone: "ag_pc s k = PcUnlLoad \<Longrightarrow> ag_unlock_check (ag_word s) = Some True \<Longrightarrow>
    ag_step ncores hi_prio s (goto k PcIdle s)"
| UnlMore: "ag_pc s k = PcUnlLoad \<Longrightarrow> ag_unlock_check (ag_word s) = None \<Longrightarrow>
    ag_step ncores hi_prio s (goto k (PcUnlCas (ag_word s)) s)"
| UnlTaken: "ag_pc s k = PcUnlCas loaded \<Longrightarrow> ag_unlock_retake loaded (ag_word s) = (True, w') \<Longrightarrow>
    ag_step ncores hi_prio s ((goto k PcLoop s)\<lparr>ag_word := w'\<rparr>)"
| UnlAgain: "ag_pc s k = PcUnlCas loaded \<Longrightarrow> ag_unlock_retake loaded (ag_word s) = (False, w') \<Longrightarrow>
    ag_step ncores hi_prio s (goto k PcUnlLoad s)"
| HiQueues: "ag_step ncores hi_prio s (s\<lparr>ag_hi_used := b\<rparr>)"

inductive ag_reach :: "nat \<Rightarrow> (u16 \<Rightarrow> bool) \<Rightarrow> ag_sys \<Rightarrow> bool" for ncores hi_prio where
  ag_reach_init: "ag_reach ncores hi_prio ag_init"
| ag_reach_step: "ag_reach ncores hi_prio s \<Longrightarrow> ag_step ncores hi_prio s s' \<Longrightarrow> ag_reach ncores hi_prio s'"

lemma goto_sel [simp]:
  "ag_word (goto k p s) = ag_word s" "ag_hi (goto k p s) = ag_hi s" "ag_lo (goto k p s) = ag_lo s"
  "ag_hi_used (goto k p s) = ag_hi_used s" "ag_pc (goto k p s) = (ag_pc s)(k := p)"
  "ag_released (goto k p s) = ag_released s" "ag_in (goto k p s) = ag_in s"
  "ag_run (goto k p s) = ag_run s" "ag_drop (goto k p s) = ag_drop s"
  by (simp_all add: goto_def)

lemma set_released_sel [simp]:
  "ag_word (set_released k b s) = ag_word s" "ag_hi (set_released k b s) = ag_hi s"
  "ag_lo (set_released k b s) = ag_lo s" "ag_hi_used (set_released k b s) = ag_hi_used s"
  "ag_pc (set_released k b s) = ag_pc s" "ag_released (set_released k b s) = (ag_released s)(k := b)"
  "ag_in (set_released k b s) = ag_in s" "ag_run (set_released k b s) = ag_run s"
  "ag_drop (set_released k b s) = ag_drop s"
  by (simp_all add: set_released_def)

section \<open>Arithmetic on the lock word\<close>

lemma lock_and_evcnt_bits:
  "lock_and_evcnt w = or (ucast (aw_evcnt w)) (or (push_bit 32 (ucast (aw_wrap w))) (push_bit 48 (ucast (aw_lock w))))"
proof -
  have 1: "and (push_bit 32 (ucast (aw_wrap w))) (push_bit 48 (ucast (aw_lock w))) = (0 :: u64)"
    by (rule bit_word_eqI) (auto simp: bit_simps dest: bit_imp_le_length)
  have 2: "and (ucast (aw_evcnt w)) (or (push_bit 32 (ucast (aw_wrap w))) (push_bit 48 (ucast (aw_lock w)))) = (0 :: u64)"
    by (rule bit_word_eqI) (auto simp: bit_simps dest: bit_imp_le_length)
  show ?thesis
    unfolding lock_and_evcnt_def add.assoc
    by (simp only: disjunctive_add_eq_or [OF 1] disjunctive_add_eq_or [OF 2])
qed

lemma ag_parts_word: "ag_parts (lock_and_evcnt w) = w"
proof -
  have "ucast (lock_and_evcnt w) = aw_evcnt w"
    unfolding lock_and_evcnt_bits by (rule bit_word_eqI) (auto simp: bit_simps dest: bit_imp_le_length)
  moreover have "ucast (drop_bit 32 (lock_and_evcnt w)) = aw_wrap w"
    unfolding lock_and_evcnt_bits by (rule bit_word_eqI) (auto simp: bit_simps dest: bit_imp_le_length)
  moreover have "ucast (drop_bit 48 (lock_and_evcnt w)) = aw_lock w"
    unfolding lock_and_evcnt_bits by (rule bit_word_eqI) (auto simp: bit_simps dest: bit_imp_le_length)
  ultimately show ?thesis by (simp add: ag_parts_def)
qed

lemma lock_and_evcnt_inj: "lock_and_evcnt w = lock_and_evcnt w' \<longleftrightarrow> w = w'"
  by (metis ag_parts_word)

text \<open>Adding to the word adds to the count alone while it stays within 32 bits.\<close>

lemma fetch_add_count:
  assumes "unat (aw_evcnt w) + n < 2 ^ 32"
  shows "fetch_add (of_nat n) w = w\<lparr>aw_evcnt := aw_evcnt w + of_nat n\<rparr>"
proof -
  have "ucast (aw_evcnt w + of_nat n) = (ucast (aw_evcnt w) + of_nat n :: u64)"
  proof -
    have "unat (aw_evcnt w + of_nat n) = unat (aw_evcnt w) + n"
      using assms unat_of_nat_small [where 'a = 32, of n] by (subst unat_add_no_wrap) simp_all
    then show ?thesis unfolding ucast_of_nat by simp
  qed
  then have "lock_and_evcnt (w\<lparr>aw_evcnt := aw_evcnt w + of_nat n\<rparr>) = lock_and_evcnt w + of_nat n"
    by (simp add: lock_and_evcnt_def)
  then show ?thesis by (metis fetch_add_def ag_parts_word)
qed

lemma fetch_sub_count:
  assumes "n \<le> unat (aw_evcnt w)"
  shows "fetch_sub (of_nat n) w = w\<lparr>aw_evcnt := aw_evcnt w - of_nat n\<rparr>"
proof -
  let ?w = "w\<lparr>aw_evcnt := aw_evcnt w - of_nat n\<rparr>"
  have lt: "n < 2 ^ 32" using assms unat_lt_len [of "aw_evcnt w"] by simp
  have "unat (aw_evcnt w - of_nat n) = unat (aw_evcnt w) - n"
    using assms lt unat_of_nat_small [where 'a = 32, of n] by (simp add: unat_sub word_le_nat_alt)
  then have "unat (aw_evcnt ?w) + n < 2 ^ 32" using unat_lt_len [of "aw_evcnt w"] assms by simp
  from fetch_add_count [OF this] have "fetch_add (of_nat n) ?w = w" by simp
  then have "ag_parts (lock_and_evcnt ?w + of_nat n) = w" by (simp add: fetch_add_def)
  moreover have "lock_and_evcnt (fetch_add (of_nat n) ?w) = lock_and_evcnt ?w + of_nat n"
  proof -
    have "ucast (aw_evcnt w) = (ucast (aw_evcnt w - of_nat n) + of_nat n :: u64)"
    proof -
      have "unat (aw_evcnt w) = unat (aw_evcnt w - of_nat n) + n"
        using assms \<open>unat (aw_evcnt w - of_nat n) = unat (aw_evcnt w) - n\<close> by simp
      then show ?thesis unfolding ucast_of_nat by simp
    qed
    then show ?thesis unfolding \<open>fetch_add (of_nat n) ?w = w\<close> by (simp add: lock_and_evcnt_def)
  qed
  ultimately have "lock_and_evcnt w = lock_and_evcnt ?w + of_nat n"
    using \<open>fetch_add (of_nat n) ?w = w\<close> by simp
  then have "lock_and_evcnt w - of_nat n = lock_and_evcnt ?w" by simp
  then show ?thesis by (simp add: fetch_sub_def ag_parts_word)
qed

lemmas ag_word_ops = ag_acquire_if_idle_def ag_trylock_round_def ag_unlock_held_def ag_unlock_retake_def
  atomic_group_release_round_def compare_exchange_def lock_and_evcnt_inj Let_def

section \<open>Mutual exclusion\<close>

text \<open>A core that is in the group's atomic context, and how the lock field shows it.\<close>

fun in_section :: "ag_pc \<Rightarrow> bool" where
  "in_section PcLoop = True"
| "in_section (PcLo es) = True"
| "in_section (PcSub es) = True"
| "in_section (PcRun es) = True"
| "in_section (PcRel w) = True"
| "in_section PcUnl = True"
| "in_section _ = False"

definition ag_holds :: "ag_sys \<Rightarrow> nat \<Rightarrow> bool" where
  "ag_holds s k \<longleftrightarrow> in_section (ag_pc s k) \<and> \<not> ag_released s k"

definition excl_inv :: "nat \<Rightarrow> ag_sys \<Rightarrow> bool" where
  "excl_inv ncores s \<longleftrightarrow>
     (\<forall>k. ag_pc s k \<noteq> PcIdle \<longrightarrow> k < ncores) \<and>
     (\<forall>k j. ag_holds s k \<longrightarrow> ag_holds s j \<longrightarrow> k = j) \<and>
     aw_lock (ag_word s) = (if \<exists>k. ag_holds s k then 1 else 0) \<and>
     aw_wrap (ag_word s) = WRAP_PROTECT \<and>
     (\<forall>k. ag_released s k \<longrightarrow> ag_pc s k = PcRun [] \<or> ag_pc s k = PcUnl) \<and>
     (\<forall>k w. ag_pc s k = PcUnlCas w \<longrightarrow> aw_lock w \<noteq> 1)"

text \<open>Three kinds of step: the holder is unchanged, a core starts to hold, the holder stops.\<close>

lemma holds_same:
  assumes "\<And>j. ag_holds s' j \<longleftrightarrow> ag_holds s j" "excl_inv n s"
    "aw_lock (ag_word s') = aw_lock (ag_word s)" "aw_wrap (ag_word s') = aw_wrap (ag_word s)"
    "\<forall>k. ag_pc s' k \<noteq> PcIdle \<longrightarrow> k < n"
    "\<forall>k. ag_released s' k \<longrightarrow> ag_pc s' k = PcRun [] \<or> ag_pc s' k = PcUnl"
    "\<forall>k w. ag_pc s' k = PcUnlCas w \<longrightarrow> aw_lock w \<noteq> 1"
  shows "excl_inv n s'"
  using assms by (simp add: excl_inv_def)

lemma holds_take:
  assumes "\<And>j. ag_holds s' j \<longleftrightarrow> j = k \<or> ag_holds s j" "excl_inv n s" "aw_lock (ag_word s) = 0"
    "aw_lock (ag_word s') = 1" "aw_wrap (ag_word s') = aw_wrap (ag_word s)"
    "\<forall>k. ag_pc s' k \<noteq> PcIdle \<longrightarrow> k < n"
    "\<forall>k. ag_released s' k \<longrightarrow> ag_pc s' k = PcRun [] \<or> ag_pc s' k = PcUnl"
    "\<forall>k w. ag_pc s' k = PcUnlCas w \<longrightarrow> aw_lock w \<noteq> 1"
  shows "excl_inv n s'"
proof -
  have "\<not> (\<exists>k. ag_holds s k)" using assms(2,3) by (auto simp: excl_inv_def split: if_splits)
  then show ?thesis using assms by (auto simp: excl_inv_def)
qed

lemma holds_drop:
  assumes "\<And>j. ag_holds s' j \<longleftrightarrow> j \<noteq> k \<and> ag_holds s j" "ag_holds s k" "excl_inv n s"
    "aw_lock (ag_word s') = 0" "aw_wrap (ag_word s') = aw_wrap (ag_word s)"
    "\<forall>k. ag_pc s' k \<noteq> PcIdle \<longrightarrow> k < n"
    "\<forall>k. ag_released s' k \<longrightarrow> ag_pc s' k = PcRun [] \<or> ag_pc s' k = PcUnl"
    "\<forall>k w. ag_pc s' k = PcUnlCas w \<longrightarrow> aw_lock w \<noteq> 1"
  shows "excl_inv n s'"
proof -
  have "\<not> ag_holds s j" if "j \<noteq> k" for j using assms(2,3) that unfolding excl_inv_def by blast
  then have "\<not> ag_holds s' j" for j using assms(1) by blast
  then show ?thesis using assms by (auto simp: excl_inv_def)
qed

lemma excl_invD:
  assumes "excl_inv n s"
  shows "ag_pc s k \<noteq> PcIdle \<Longrightarrow> k < n"
    and "ag_holds s k \<Longrightarrow> ag_holds s j \<Longrightarrow> k = j"
    and "ag_holds s k \<Longrightarrow> aw_lock (ag_word s) = 1"
    and "aw_wrap (ag_word s) = WRAP_PROTECT"
    and "ag_released s k \<Longrightarrow> ag_pc s k = PcRun [] \<or> ag_pc s k = PcUnl"
    and "aw_lock (ag_word s) = 0 \<or> aw_lock (ag_word s) = 1"
    and "ag_pc s k = PcUnlCas w \<Longrightarrow> aw_lock w \<noteq> 1"
  using assms unfolding excl_inv_def by (blast, blast, auto)

text \<open>The count: what is stashed, plus what is counted and not yet, or no longer, stashed.\<close>

fun pending :: "ag_pc \<Rightarrow> nat" where
  "pending (PcPut q es) = length es"
| "pending (PcErr es) = length es"
| "pending (PcLo es) = length es"
| "pending (PcSub es) = length es"
| "pending _ = 0"

definition count_inv :: "nat \<Rightarrow> ag_sys \<Rightarrow> bool" where
  "count_inv ncores s \<longleftrightarrow>
     unat (aw_evcnt (ag_word s)) = length (ag_hi s) + length (ag_lo s) + (\<Sum>k<ncores. pending (ag_pc s k))"

lemma sum_upd:
  fixes f :: "ag_pc \<Rightarrow> 'a::comm_monoid_add" and k n :: nat
  assumes "k < n"
  shows "(\<Sum>j<n. f ((g(k := p)) j)) + f (g k) = (\<Sum>j<n. f (g j)) + f p"
proof -
  have "(\<Sum>j<n. f ((g(k := p)) j)) = f p + (\<Sum>j\<in>{..<n} - {k}. f (g j))"
    using assms sum.remove [OF finite_lessThan, of k n "\<lambda>j. f ((g(k := p)) j)"] by (auto intro: sum.cong)
  moreover have "(\<Sum>j<n. f (g j)) = f (g k) + (\<Sum>j\<in>{..<n} - {k}. f (g j))"
    using assms sum.remove [OF finite_lessThan, of k n "\<lambda>j. f (g j)"] by simp
  ultimately show ?thesis by (simp add: ac_simps)
qed

lemma pending_le:
  assumes "count_inv n s" "k < n"
  shows "pending (ag_pc s k) \<le> unat (aw_evcnt (ag_word s))"
proof -
  have "pending (ag_pc s k) \<le> (\<Sum>k<n. pending (ag_pc s k))"
    using assms(2) by (intro member_le_sum) auto
  then show ?thesis using assms(1) by (simp add: count_inv_def)
qed

lemma step_excl:
  assumes step: "ag_step n hp s s'" and inv: "excl_inv n s" and cnt: "count_inv n s"
  shows "excl_inv n s'"
proof -
  note D = excl_invD [OF inv]
  have old: "\<forall>k. ag_pc s k \<noteq> PcIdle \<longrightarrow> k < n"
    "\<forall>k. ag_released s k \<longrightarrow> ag_pc s k = PcRun [] \<or> ag_pc s k = PcUnl"
    "\<forall>k w. ag_pc s k = PcUnlCas w \<longrightarrow> aw_lock w \<noteq> 1" using D by blast+
  have sub: "length es \<le> unat (aw_evcnt (ag_word s))" if "ag_pc s k = PcSub es \<or> ag_pc s k = PcErr es" for k es
    using pending_le [OF cnt, of k] that old(1) by auto
  from step show ?thesis
  proof cases
    case (Fast k q es w')
    then show ?thesis using old
      by (intro holds_take [of s' k s, OF _ inv])
        (auto simp: ag_holds_def ag_word_ops ag_idle_word_def ag_held_word_def split: if_splits)
  next
    case (Count k q es)
    then show ?thesis using old
      by (intro holds_same [OF _ inv]) (auto simp: ag_holds_def fetch_add_count)
  next
    case (Put k q es m t)
    then show ?thesis using old
      by (intro holds_same [OF _ inv]) (auto simp: ag_holds_def split: if_splits)
  next
    case (Drop k es)
    then show ?thesis using old sub [of k es]
      by (intro holds_same [OF _ inv]) (auto simp: ag_holds_def fetch_sub_count)
  next
    case (TryTaken k loaded w')
    then show ?thesis using old
      by (intro holds_take [of s' k s, OF _ inv]) (auto simp: ag_holds_def ag_word_ops split: if_splits)
  next
    case (TryHeld k loaded w')
    then have "aw_lock (ag_word s) = 1" "w' = (ag_word s)\<lparr>aw_lock := 1\<rparr>"
      using D(6) by (auto simp: ag_word_ops split: if_splits)
    then show ?thesis using TryHeld old by (intro holds_same [OF _ inv]) (auto simp: ag_holds_def)
  next
    case (SubSome k es)
    then show ?thesis using old sub [of k es]
      by (intro holds_same [OF _ inv]) (auto simp: ag_holds_def fetch_sub_count)
  next
    case (RelDone k loaded w')
    then have "ag_holds s k" using D(5) [of k] by (auto simp: ag_holds_def)
    then show ?thesis using RelDone old
      by (intro holds_drop [of s' k s, OF _ _ inv]) (auto simp: ag_holds_def ag_word_ops split: if_splits)
  next
    case (Unlock k w')
    then have "ag_holds s k" by (auto simp: ag_holds_def)
    then show ?thesis using Unlock old
      by (intro holds_drop [of s' k s, OF _ _ inv])
        (auto simp: ag_holds_def ag_word_ops ag_idle_word_def ag_held_word_def split: if_splits)
  next
    case (UnlMore k)
    then show ?thesis using old
      by (intro holds_same [OF _ inv]) (auto simp: ag_holds_def ag_unlock_check_def split: if_splits)
  next
    case (UnlTaken k loaded w')
    then show ?thesis using old D(6)
      by (intro holds_take [of s' k s, OF _ inv]) (auto simp: ag_holds_def ag_word_ops split: if_splits)
  qed (use old in \<open>intro holds_same [OF _ inv]; auto simp: ag_holds_def\<close>)+
qed

lemma count_goto:
  assumes inv: "count_inv n s" and k: "k < n" and pc: "ag_pc s' = (ag_pc s)(k := p)"
    and e: "unat (aw_evcnt (ag_word s')) + length (ag_hi s) + length (ag_lo s) + pending (ag_pc s k) =
      unat (aw_evcnt (ag_word s)) + length (ag_hi s') + length (ag_lo s') + pending p"
  shows "count_inv n s'"
proof -
  have "(\<Sum>j<n. pending (((ag_pc s)(k := p)) j)) + pending (ag_pc s k) = (\<Sum>j<n. pending (ag_pc s j)) + pending p"
    by (rule sum_upd [OF k])
  then show ?thesis using inv e unfolding count_inv_def pc by linarith
qed

lemma evcnt_sub:
  assumes "m \<le> unat (aw_evcnt w)"
  shows "unat (aw_evcnt (fetch_sub (of_nat m) w)) = unat (aw_evcnt w) - m"
proof -
  have "m < 2 ^ 32" using assms unat_lt_len [of "aw_evcnt w"] by simp
  then have "unat (aw_evcnt w - of_nat m) = unat (aw_evcnt w) - m"
    using assms unat_of_nat_small [where 'a = 32, of m] by (simp add: unat_sub word_le_nat_alt)
  then show ?thesis using fetch_sub_count [OF assms] by simp
qed

lemma evcnt_add:
  assumes "unat (aw_evcnt w) + m < 2 ^ 32"
  shows "unat (aw_evcnt (fetch_add (of_nat m) w)) = unat (aw_evcnt w) + m"
  using fetch_add_count [OF assms] assms unat_of_nat_small [where 'a = 32, of m]
    unat_add_no_wrap [of "aw_evcnt w" "of_nat m"] by simp

lemma step_count:
  assumes step: "ag_step n hp s s'" and inv: "excl_inv n s" and cnt: "count_inv n s"
  shows "count_inv n s'"
proof -
  have lt: "k < n" if "ag_pc s k \<noteq> PcIdle" for k using excl_invD(1) [OF inv that] .
  have le: "pending (ag_pc s k) \<le> unat (aw_evcnt (ag_word s))" if "ag_pc s k \<noteq> PcIdle" for k
    by (rule pending_le [OF cnt lt [OF that]])
  have go: "count_inv n s'" if "ag_pc s k = p0" "p0 \<noteq> PcIdle" "ag_pc s' = (ag_pc s)(k := p)"
    "aw_evcnt (ag_word s') = aw_evcnt (ag_word s)"
    "length (ag_hi s) + length (ag_lo s) + pending p0 = length (ag_hi s') + length (ag_lo s') + pending p" for k p p0
    using that by (intro count_goto [OF cnt lt, of k s' p]) auto
  from step show ?thesis
  proof cases
    case (Call k evs q es)
    then show ?thesis by (intro count_goto [OF cnt, of k]) auto
  next
    case (Fast k q es w')
    then show ?thesis
      by (intro count_goto [OF cnt lt [of k], of s']) (auto simp: ag_word_ops ag_idle_word_def ag_held_word_def split: if_splits)
  next
    case (Count k q es)
    then show ?thesis by (intro count_goto [OF cnt lt [of k], of s']) (auto simp: evcnt_add)
  next
    case (Put k q es m t)
    then show ?thesis
      by (intro count_goto [OF cnt lt [of k], of s']) (auto split: if_splits)
  next
    case (Drop k es)
    then show ?thesis using le [of k] by (intro count_goto [OF cnt lt [of k], of s']) (auto simp: evcnt_sub)
  next
    case (TryTaken k loaded w')
    then show ?thesis
      by (intro count_goto [OF cnt lt [of k], of s']) (auto simp: ag_word_ops split: if_splits)
  next
    case (TryHeld k loaded w')
    then show ?thesis
      by (intro count_goto [OF cnt lt [of k], of s']) (auto simp: ag_word_ops split: if_splits)
  next
    case (SubSome k es)
    then show ?thesis using le [of k] by (intro count_goto [OF cnt lt [of k], of s']) (auto simp: evcnt_sub)
  next
    case (RelDone k loaded w')
    then show ?thesis
      by (intro count_goto [OF cnt lt [of k], of s']) (auto simp: ag_word_ops split: if_splits)
  next
    case (Unlock k w')
    then show ?thesis
      by (intro count_goto [OF cnt lt [of k], of s']) (auto simp: ag_word_ops ag_idle_word_def ag_held_word_def split: if_splits)
  next
    case (UnlMore k)
    then show ?thesis by (intro count_goto [OF cnt lt [of k], of s']) auto
  next
    case (UnlTaken k loaded w')
    then show ?thesis
      by (intro count_goto [OF cnt lt [of k], of s']) (auto simp: ag_word_ops split: if_splits)
  next
    case (HiQueues b)
    then show ?thesis using cnt by (simp add: count_inv_def)
  qed (erule go, simp, simp, simp, (auto)[1])+
qed

section \<open>No event is left behind\<close>

text \<open>A core that will still look at the count before it leaves.\<close>

fun rechecks_pc :: "ag_pc \<Rightarrow> bool" where
  "rechecks_pc (PcPut q es) = True"
| "rechecks_pc (PcErr es) = True"
| "rechecks_pc PcTry = True"
| "rechecks_pc (PcTryCas w) = True"
| "rechecks_pc PcUnlLoad = True"
| "rechecks_pc (PcUnlCas w) = True"
| "rechecks_pc _ = False"

definition rechecks :: "ag_sys \<Rightarrow> nat \<Rightarrow> bool" where
  "rechecks s k \<longleftrightarrow> ag_released s k \<or> rechecks_pc (ag_pc s k)"

definition watch_inv :: "ag_sys \<Rightarrow> bool" where
  "watch_inv s \<longleftrightarrow> aw_evcnt (ag_word s) \<noteq> 0 \<longrightarrow> aw_lock (ag_word s) = 1 \<or> (\<exists>k. rechecks s k)"

lemma watch_new: "rechecks s k \<Longrightarrow> watch_inv s"
  by (auto simp: watch_inv_def)

lemma watch_keep:
  assumes "watch_inv s" "aw_evcnt (ag_word s') \<noteq> 0 \<Longrightarrow> aw_evcnt (ag_word s) \<noteq> 0"
    "aw_lock (ag_word s) = 1 \<Longrightarrow> aw_lock (ag_word s') = 1" "\<And>j. rechecks s j \<Longrightarrow> rechecks s' j"
  shows "watch_inv s'"
  using assms by (auto simp: watch_inv_def)

lemma step_watch:
  assumes step: "ag_step n hp s s'" and inv: "excl_inv n s" and cnt: "count_inv n s" and w: "watch_inv s"
  shows "watch_inv s'"
proof -
  note D = excl_invD [OF inv]
  have le: "pending (ag_pc s k) \<le> unat (aw_evcnt (ag_word s))" if "ag_pc s k \<noteq> PcIdle" for k
    by (rule pending_le [OF cnt D(1) [OF that]])
  have rel: "\<not> ag_released s k" if "ag_pc s k \<noteq> PcRun []" "ag_pc s k \<noteq> PcUnl" for k
    using D(5) [of k] that by blast
  from step show ?thesis
  proof cases
    case (Fast k q es w')
    then show ?thesis
      by (auto simp: watch_inv_def ag_word_ops ag_held_word_def split: if_splits)
  next
    case (Count k q es)
    then show ?thesis by (intro watch_new [of _ k]) (simp add: rechecks_def)
  next
    case (Put k q es m t)
    then show ?thesis by (intro watch_new [of _ k]) (simp add: rechecks_def)
  next
    case (Drop k es)
    then show ?thesis by (intro watch_new [of _ k]) (simp add: rechecks_def)
  next
    case (TryLoad k)
    then show ?thesis by (intro watch_new [of _ k]) (simp add: rechecks_def)
  next
    case (TryTaken k loaded w')
    then show ?thesis by (auto simp: watch_inv_def ag_word_ops split: if_splits)
  next
    case (TryHeld k loaded w')
    then show ?thesis by (auto simp: watch_inv_def ag_word_ops split: if_splits)
  next
    case (TryAgain k loaded w')
    then show ?thesis by (intro watch_new [of _ k]) (simp add: rechecks_def)
  next
    case (SubSome k es)
    have "ag_holds s k" using SubSome rel [of k] by (simp add: ag_holds_def)
    then have "aw_lock (ag_word s') = 1"
      using SubSome D(3) le [of k] by (simp add: fetch_sub_count)
    then show ?thesis by (simp add: watch_inv_def)
  next
    case (RelDone k loaded w')
    then show ?thesis by (intro watch_new [of _ k]) (simp add: rechecks_def)
  next
    case (Unlock k w')
    then show ?thesis by (auto simp: watch_inv_def ag_word_ops ag_idle_word_def split: if_splits)
  next
    case (UnlockRel k)
    then show ?thesis by (intro watch_new [of _ k]) (simp add: rechecks_def)
  next
    case (UnlDone k)
    then show ?thesis by (auto simp: watch_inv_def ag_unlock_check_def split: if_splits)
  next
    case (UnlMore k)
    then show ?thesis by (intro watch_new [of _ k]) (simp add: rechecks_def)
  next
    case (UnlTaken k loaded w')
    then show ?thesis by (auto simp: watch_inv_def ag_word_ops split: if_splits)
  next
    case (UnlAgain k loaded w')
    then show ?thesis by (intro watch_new [of _ k]) (simp add: rechecks_def)
  next
    case (HiQueues b)
    then show ?thesis using w by (simp add: watch_inv_def rechecks_def)
  qed (intro watch_keep [OF w]; auto simp: rechecks_def)+
qed

section \<open>Conservation of events\<close>

fun carried :: "ag_pc \<Rightarrow> stash_entry list" where
  "carried (PcEnter q es) = es"
| "carried (PcEnq q es) = es"
| "carried (PcPut q es) = es"
| "carried (PcErr es) = es"
| "carried (PcLo es) = es"
| "carried (PcSub es) = es"
| "carried (PcRun es) = es"
| "carried _ = []"

definition conserve_inv :: "nat \<Rightarrow> ag_sys \<Rightarrow> bool" where
  "conserve_inv ncores s \<longleftrightarrow>
     mset (ag_in s) = mset (ag_run s) + mset (ag_drop s) + mset (ag_hi s) + mset (ag_lo s) +
       (\<Sum>k<ncores. mset (carried (ag_pc s k)))"

lemma conserve_goto:
  assumes inv: "conserve_inv n s" and k: "k < n" and pc: "ag_pc s' = (ag_pc s)(k := p)"
    and e: "mset (ag_in s') + (mset (ag_run s) + mset (ag_drop s) + mset (ag_hi s) + mset (ag_lo s) +
        mset (carried (ag_pc s k))) =
      mset (ag_in s) + (mset (ag_run s') + mset (ag_drop s') + mset (ag_hi s') + mset (ag_lo s') + mset (carried p))"
  shows "conserve_inv n s'"
proof -
  let ?S = "\<Sum>j<n. mset (carried (ag_pc s j))" and ?S' = "\<Sum>j<n. mset (carried (((ag_pc s)(k := p)) j))"
  let ?A = "mset (ag_run s) + mset (ag_drop s) + mset (ag_hi s) + mset (ag_lo s)"
  let ?A' = "mset (ag_run s') + mset (ag_drop s') + mset (ag_hi s') + mset (ag_lo s')"
  have u: "?S' + mset (carried (ag_pc s k)) = ?S + mset (carried p)"
    using sum_upd [OF k, of "\<lambda>p. mset (carried p)" "ag_pc s" p] .
  have "mset (ag_in s') + (?A + mset (carried (ag_pc s k))) = (?A + ?S) + (?A' + mset (carried p))"
    using e inv by (simp add: conserve_inv_def)
  also have "\<dots> = (?A' + (?S + mset (carried p))) + ?A" by (simp add: ac_simps)
  also have "\<dots> = (?A' + ?S') + (?A + mset (carried (ag_pc s k)))" unfolding u [symmetric] by (simp add: ac_simps)
  finally show ?thesis unfolding conserve_inv_def pc by simp
qed

lemma step_conserve:
  assumes step: "ag_step n hp s s'" and inv: "excl_inv n s" and c: "conserve_inv n s"
  shows "conserve_inv n s'"
proof -
  have lt: "k < n" if "ag_pc s k \<noteq> PcIdle" for k using excl_invD(1) [OF inv that] .
  note go = conserve_goto [OF c lt, of _ s']
  have move: "conserve_inv n s'" if "ag_pc s k = p0" "p0 \<noteq> PcIdle" "ag_pc s' = (ag_pc s)(k := p)"
    "ag_in s' = ag_in s" "ag_hi s' = ag_hi s" "ag_lo s' = ag_lo s"
    "mset (ag_run s) + mset (ag_drop s) + mset (carried p0) = mset (ag_run s') + mset (ag_drop s') + mset (carried p)" for k p p0
    using that by (intro go [of k p]) (auto simp: ac_simps)
  have td: "mset (take m xs) + mset (drop m xs) = mset xs" for m and xs :: "stash_entry list"
    by (metis append_take_drop_id mset_append)
  from step show ?thesis
  proof cases
    case (Call k evs q es)
    then show ?thesis by (intro conserve_goto [OF c, of k]) (auto simp: ac_simps)
  next
    case (Put k q es m t)
    then show ?thesis using td [of m es]
      by (intro go [of k]) (auto simp: ac_simps split: if_splits)
  next
    case (GetHi k m)
    then show ?thesis using td [of m "ag_hi s"] by (intro go [of k]) (auto simp: ac_simps)
  next
    case (GetLo k es m)
    then show ?thesis using td [of m "ag_lo s"] by (intro go [of k]) (auto simp: ac_simps)
  next
    case (HiQueues b)
    then show ?thesis using c by (simp add: conserve_inv_def)
  qed (erule move, simp, simp, simp, simp, simp, simp add: ac_simps)+
qed

lemma reach_invs:
  assumes "ag_reach n hp s"
  shows "excl_inv n s" "count_inv n s" "watch_inv s" "conserve_inv n s"
proof -
  have "excl_inv n s \<and> count_inv n s \<and> watch_inv s \<and> conserve_inv n s"
    using assms
  proof induction
    case ag_reach_init
    then show ?case
      by (simp add: excl_inv_def count_inv_def watch_inv_def conserve_inv_def ag_init_def ag_idle_word_def ag_holds_def)
  next
    case (ag_reach_step s s')
    then show ?case
      using step_excl [OF ag_reach_step.hyps(2)] step_count [OF ag_reach_step.hyps(2)]
        step_watch [OF ag_reach_step.hyps(2)] step_conserve [OF ag_reach_step.hyps(2)] by blast
  qed
  then show "excl_inv n s" "count_inv n s" "watch_inv s" "conserve_inv n s" by blast+
qed

section \<open>The order of the events of a queue\<close>

text \<open>Events taken out of the stash, or never stashed, and not yet run; events not yet stashed.\<close>

fun held :: "ag_pc \<Rightarrow> stash_entry list" where
  "held (PcLo es) = es"
| "held (PcSub es) = es"
| "held (PcRun es) = es"
| "held _ = []"

fun entering :: "u16 \<Rightarrow> ag_pc \<Rightarrow> stash_entry list" where
  "entering q (PcEnter q' es) = (if q' = q then es else [])"
| "entering q (PcEnq q' es) = (if q' = q then es else [])"
| "entering q (PcPut q' es) = (if q' = q then es else [])"
| "entering q _ = []"

fun pc_entries_ok :: "(u16 \<Rightarrow> bool) \<Rightarrow> ag_pc \<Rightarrow> bool" where
  "pc_entries_ok hp (PcEnter q es) = (\<forall>e \<in> set es. fst e = q)"
| "pc_entries_ok hp (PcEnq q es) = (\<forall>e \<in> set es. fst e = q)"
| "pc_entries_ok hp (PcPut q es) = (\<forall>e \<in> set es. fst e = q)"
| "pc_entries_ok hp (PcLo es) = (\<forall>e \<in> set es. hp (fst e))"
| "pc_entries_ok hp (PcErr es) = (es \<noteq> [])"
| "pc_entries_ok hp _ = True"

definition of_queue :: "u16 \<Rightarrow> stash_entry list \<Rightarrow> stash_entry list" where
  "of_queue q es = filter (\<lambda>e. fst e = q) es"

definition all_of :: "nat \<Rightarrow> (ag_pc \<Rightarrow> stash_entry list) \<Rightarrow> (nat \<Rightarrow> ag_pc) \<Rightarrow> stash_entry list" where
  "all_of n f pcs = concat (map (\<lambda>k. f (pcs k)) [0..<n])"

definition lossless :: "ag_sys \<Rightarrow> bool" where
  "lossless s \<longleftrightarrow> ag_drop s = [] \<and> (\<forall>k es. ag_pc s k \<noteq> PcErr es)"

text \<open>\<^verbatim>\<open>sorted_inv\<close>: entries are where they belong; \<^verbatim>\<open>order_inv\<close>: each queue's events keep their order.\<close>

definition sorted_inv :: "(u16 \<Rightarrow> bool) \<Rightarrow> ag_sys \<Rightarrow> bool" where
  "sorted_inv hp s \<longleftrightarrow>
     (\<forall>e \<in> set (ag_hi s). hp (fst e)) \<and> (\<forall>e \<in> set (ag_lo s). \<not> hp (fst e)) \<and>
     (\<forall>k. pc_entries_ok hp (ag_pc s k)) \<and>
     (\<forall>q j k. holds_queue q (ag_pc s j) \<longrightarrow> holds_queue q (ag_pc s k) \<longrightarrow> j = k)"

definition order_inv :: "nat \<Rightarrow> (u16 \<Rightarrow> bool) \<Rightarrow> ag_sys \<Rightarrow> bool" where
  "order_inv n hp s \<longleftrightarrow> lossless s \<longrightarrow>
     (\<forall>q. of_queue q (ag_in s) =
        of_queue q (ag_run s @ all_of n held (ag_pc s) @ (if hp q then ag_hi s else ag_lo s)) @
        all_of n (entering q) (ag_pc s))"

lemma of_queue_simps [simp]:
  "of_queue q [] = []" "of_queue q (xs @ ys) = of_queue q xs @ of_queue q ys"
  by (simp_all add: of_queue_def)

lemma of_queue_all: "\<forall>e \<in> set es. fst e = q' \<Longrightarrow> of_queue q es = (if q' = q then es else [])"
  by (auto simp: of_queue_def filter_empty_conv)

lemma of_queue_none: "\<forall>e \<in> set es. fst e \<noteq> q \<Longrightarrow> of_queue q es = []"
  by (auto simp: of_queue_def filter_empty_conv)

lemma all_of_single:
  assumes "k < n" "\<And>j. j < n \<Longrightarrow> j \<noteq> k \<Longrightarrow> f (pcs j) = []"
  shows "all_of n f pcs = f (pcs k)"
proof -
  have "[0..<n] = [0..<k] @ k # [Suc k..<n]" using assms(1) by (metis less_imp_add_positive upt_add_eq_append upt_conv_Cons le0 less_add_same_cancel1 add_0)
  moreover have c: "concat (map (\<lambda>k. f (pcs k)) [0..<k]) = []" "concat (map (\<lambda>k. f (pcs k)) [Suc k..<n]) = []"
    using assms by auto
  ultimately show ?thesis
    by (simp only: all_of_def map_append list.map concat_append concat.simps c append_Nil append_Nil2)
qed

lemma all_of_same:
  assumes "f p = f (pcs k)"
  shows "all_of n f (pcs(k := p)) = all_of n f pcs"
  unfolding all_of_def by (rule arg_cong [of _ _ concat], rule map_cong) (use assms in auto)

lemma all_of_upd:
  assumes "k < n" "\<And>j. j < n \<Longrightarrow> j \<noteq> k \<Longrightarrow> f (pcs j) = []"
  shows "all_of n f (pcs(k := p)) = f p" "all_of n f pcs = f (pcs k)"
  using all_of_single [of k n f "pcs(k := p)"] all_of_single [of k n f pcs] assms by auto

lemma held_in_section: "held p \<noteq> [] \<Longrightarrow> in_section p \<and> p \<noteq> PcRun [] \<and> p \<noteq> PcUnl"
  by (cases p) auto

lemma entering_holds: "entering q p \<noteq> [] \<Longrightarrow> holds_queue q p"
  by (cases p) (auto split: if_splits)

lemma others_hold_nothing:
  assumes "excl_inv n s" "ag_holds s k \<or> aw_lock (ag_word s) = 0" "j \<noteq> k"
  shows "held (ag_pc s j) = []"
proof (rule ccontr)
  assume "held (ag_pc s j) \<noteq> []"
  then have "ag_holds s j"
    using held_in_section excl_invD(5) [OF assms(1), of j] by (auto simp: ag_holds_def)
  then show False using assms excl_invD(2,3) [OF assms(1)] by (metis zero_neq_one)
qed

text \<open>Steps that move no entries.\<close>

lemma order_same:
  assumes "order_inv n hp s" "ag_pc s' = (ag_pc s)(k := p)" "held p = held (ag_pc s k)"
    "\<And>q. entering q p = entering q (ag_pc s k)" "ag_in s' = ag_in s" "ag_run s' = ag_run s"
    "ag_hi s' = ag_hi s" "ag_lo s' = ag_lo s" "lossless s' \<Longrightarrow> lossless s"
  shows "order_inv n hp s'"
proof -
  have "all_of n held (ag_pc s') = all_of n held (ag_pc s)"
    "all_of n (entering q) (ag_pc s') = all_of n (entering q) (ag_pc s)" for q
    unfolding assms(2) by (rule all_of_same, rule assms(3), rule all_of_same, rule assms(4))
  then show ?thesis using assms(1,9) unfolding order_inv_def assms(5-8) by simp
qed

lemma lossless_goto:
  "ag_pc s' = (ag_pc s)(k := p) \<Longrightarrow> ag_drop s' = ag_drop s \<Longrightarrow> (\<And>es. ag_pc s k \<noteq> PcErr es) \<Longrightarrow>
   lossless s' \<Longrightarrow> lossless s"
  unfolding lossless_def by (metis fun_upd_apply)


lemma sorted_invD:
  assumes "sorted_inv hp s"
  shows "pc_entries_ok hp (ag_pc s k)" "holds_queue q (ag_pc s j) \<Longrightarrow> holds_queue q (ag_pc s k) \<Longrightarrow> j = k"
    "\<forall>e \<in> set (ag_hi s). hp (fst e)" "\<forall>e \<in> set (ag_lo s). \<not> hp (fst e)"
  using assms unfolding sorted_inv_def by blast+

lemma sorted_move:
  assumes "ag_pc s k = p0" "sorted_inv hp s" "ag_pc s' = (ag_pc s)(k := p)"
    "pc_entries_ok hp p0 \<Longrightarrow> pc_entries_ok hp p" "\<And>q. holds_queue q p \<Longrightarrow> holds_queue q p0"
    "\<forall>e \<in> set (ag_hi s'). hp (fst e)" "\<forall>e \<in> set (ag_lo s'). \<not> hp (fst e)"
  shows "sorted_inv hp s'"
  using assms sorted_invD [OF assms(2)] unfolding sorted_inv_def assms(3) by (metis fun_upd_apply)

lemma step_sorted:
  assumes step: "ag_step n hp s s'" and inv: "sorted_inv hp s"
  shows "sorted_inv hp s'"
proof -
  note D = sorted_invD [OF inv]
  note old = D(3,4)
  from step show ?thesis
  proof cases
    case (Call k evs q es)
    then show ?thesis using D old unfolding sorted_inv_def by auto
  next
    case (Put k q es m t)
    then have q: "\<forall>e \<in> set es. fst e = q" using D(1) [of k] by simp
    have "\<forall>e \<in> set (ag_hi s'). hp (fst e)" "\<forall>e \<in> set (ag_lo s'). \<not> hp (fst e)"
      using Put old q by (auto dest: in_set_takeD)
    with Put show ?thesis
      by (intro sorted_move [OF _ inv, of k "PcPut q es" s' "if m = length es then PcTry else PcErr (drop m es)"]) (auto split: if_splits)
  next
    case (GetHi k m)
    then show ?thesis using old
      by (intro sorted_move [OF _ inv, of k PcLoop s' "PcLo (take m (ag_hi s))"]) (auto dest: in_set_takeD in_set_dropD)
  next
    case (GetLo k es m)
    then show ?thesis using old
      by (intro sorted_move [OF _ inv, of k "PcLo es" s' "PcSub (es @ take m (ag_lo s))"]) (auto dest: in_set_dropD)
  next
    case (HiQueues b)
    then show ?thesis using inv by (simp add: sorted_inv_def)
  qed (erule sorted_move [OF _ inv], simp, simp, simp, use old in simp, use old in simp)+
qed

section \<open>Steps that move entries\<close>

lemma enters_alone:
  assumes "sorted_inv hp s" "holds_queue q (ag_pc s k)" "j \<noteq> k"
  shows "entering q (ag_pc s j) = []"
  using entering_holds [of q "ag_pc s j"] sorted_invD(2) [OF assms(1,2)] assms(3) by blast

lemma entering_other: "\<not> holds_queue q p \<Longrightarrow> entering q p = []"
  using entering_holds by blast

lemma order_call:
  assumes inv: "order_inv n hp s" and k: "k < n" and p: "ag_pc s k = PcIdle"
    and q: "\<forall>j. \<not> holds_queue q (ag_pc s j)" and es: "\<forall>e \<in> set es. fst e = q"
    and s': "s' = (goto k (PcEnter q es) s)\<lparr>ag_in := ag_in s @ es\<rparr>"
  shows "order_inv n hp s'"
proof -
  have pc: "ag_pc s' = (ag_pc s)(k := PcEnter q es)" using s' by simp
  have h: "all_of n held (ag_pc s') = all_of n held (ag_pc s)" unfolding pc by (rule all_of_same) (simp add: p)
  have e: "entering q (ag_pc s j) = []" for j using q entering_other by blast
  have q1: "all_of n (entering q) (ag_pc s') = es" "all_of n (entering q) (ag_pc s) = []"
    unfolding pc using all_of_upd(1) [OF k, of "entering q" "ag_pc s" "PcEnter q es"] all_of_upd(2) [OF k, of "entering q" "ag_pc s"] e by simp_all
  have q2: "all_of n (entering r) (ag_pc s') = all_of n (entering r) (ag_pc s)" if "r \<noteq> q" for r
    unfolding pc by (rule all_of_same) (use p that in auto)
  have l: "lossless s' \<Longrightarrow> lossless s" using lossless_goto [OF pc] s' p by simp
  have "of_queue r (ag_in s @ es) = of_queue r (ag_run s @ all_of n held (ag_pc s) @ (if hp r then ag_hi s else ag_lo s)) @
      all_of n (entering r) (ag_pc s')" if ok: "lossless s" for r
  proof (cases "r = q")
    case True
    then show ?thesis using inv ok q1 of_queue_all [OF es] by (simp add: order_inv_def)
  next
    case False
    then show ?thesis using inv ok q2 [OF False] of_queue_all [OF es] by (simp add: order_inv_def)
  qed
  then show ?thesis using l h unfolding order_inv_def by (simp add: s')
qed

text \<open>Entries leave the entry of core \<^verbatim>\<open>k\<close> and become the newest of the stash, or of what is held.\<close>

lemma order_enter:
  assumes inv: "order_inv n hp s" and srt: "sorted_inv hp s" and k: "k < n"
    and p0: "ag_pc s k = p0" "holds_queue q p0" "entering q p0 = es" "held p0 = []" "\<And>r. r \<noteq> q \<Longrightarrow> entering r p0 = []"
    and es: "\<forall>e \<in> set es. fst e = q"
    and pc: "ag_pc s' = (ag_pc s)(k := p)" "\<And>r. entering r p = []" and l: "lossless s' \<Longrightarrow> lossless s"
    and same: "ag_in s' = ag_in s" "ag_run s' = ag_run s"
    and mv: "\<And>r. of_queue r (all_of n held (ag_pc s') @ (if hp r then ag_hi s' else ag_lo s')) =
        of_queue r (all_of n held (ag_pc s) @ (if hp r then ag_hi s else ag_lo s)) @ of_queue r es"
  shows "order_inv n hp s'"
proof -
  have e: "entering q (ag_pc s j) = []" if "j \<noteq> k" for j
    by (rule enters_alone [OF srt _ that]) (simp add: p0)
  have q1: "all_of n (entering q) (ag_pc s') = []" "all_of n (entering q) (ag_pc s) = es"
    unfolding pc using all_of_upd(1) [OF k, of "entering q" "ag_pc s" p] all_of_upd(2) [OF k, of "entering q" "ag_pc s"] e p0 pc(2) by simp_all
  have q2: "all_of n (entering r) (ag_pc s') = all_of n (entering r) (ag_pc s)" if "r \<noteq> q" for r
    unfolding pc by (rule all_of_same) (use p0 that pc(2) in auto)
  have "of_queue r (ag_in s) = of_queue r (ag_run s @ all_of n held (ag_pc s') @ (if hp r then ag_hi s' else ag_lo s')) @
      all_of n (entering r) (ag_pc s')" if ok: "lossless s" for r
  proof (cases "r = q")
    case True
    then show ?thesis using inv ok q1 of_queue_all [OF es] mv [of r] by (simp add: order_inv_def)
  next
    case False
    then show ?thesis using inv ok q2 [OF False] of_queue_all [OF es] mv [of r] by (simp add: order_inv_def)
  qed
  then show ?thesis using l unfolding order_inv_def by (simp add: same)
qed

text \<open>The holder moves entries along: from the stash to what it holds, and from there to what has run.\<close>

lemma order_hold:
  assumes inv: "order_inv n hp s" and k: "k < n" and alone: "\<And>j. j \<noteq> k \<Longrightarrow> held (ag_pc s j) = []"
    and p0: "ag_pc s k = p0" "\<And>r. entering r p0 = []" "\<And>es. p0 \<noteq> PcErr es"
    and pc: "ag_pc s' = (ag_pc s)(k := p)" "\<And>r. entering r p = []"
    and same: "ag_in s' = ag_in s" "ag_drop s' = ag_drop s"
    and mv: "\<And>r. of_queue r (ag_run s' @ held p @ (if hp r then ag_hi s' else ag_lo s')) =
        of_queue r (ag_run s @ held p0 @ (if hp r then ag_hi s else ag_lo s))"
  shows "order_inv n hp s'"
proof -
  have h: "all_of n held (ag_pc s') = held p" "all_of n held (ag_pc s) = held p0"
    unfolding pc using all_of_upd(1) [OF k, of held "ag_pc s" p] all_of_upd(2) [OF k, of held "ag_pc s"] alone p0(1) by simp_all
  have q: "all_of n (entering r) (ag_pc s') = all_of n (entering r) (ag_pc s)" for r
    unfolding pc by (rule all_of_same) (use p0 pc(2) in auto)
  have l: "lossless s' \<Longrightarrow> lossless s" using lossless_goto [OF pc(1) same(2)] p0 by auto
  show ?thesis using inv l mv unfolding order_inv_def h q same(1) by metis
qed

lemma order_quiet:
  assumes "ag_pc s k = p0" "order_inv n hp s" "ag_pc s' = (ag_pc s)(k := p)" "held p = held p0"
    "\<And>q. entering q p = entering q p0" "ag_in s' = ag_in s" "ag_run s' = ag_run s"
    "ag_hi s' = ag_hi s" "ag_lo s' = ag_lo s" "ag_drop s' = ag_drop s" "\<And>es. p0 \<noteq> PcErr es"
  shows "order_inv n hp s'"
  using assms lossless_goto [OF assms(3,10)] by (intro order_same [OF assms(2,3)]) auto

lemma order_fast:
  assumes inv: "order_inv n hp s" "excl_inv n s" "count_inv n s" "sorted_inv hp s"
    and p0: "ag_pc s k = PcEnter q es" and idle: "ag_acquire_if_idle (ag_word s) = (True, w')"
  shows "order_inv n hp ((goto k (PcRun es) s)\<lparr>ag_word := w'\<rparr>)"
proof -
  let ?s = "(goto k (PcRun es) s)\<lparr>ag_word := w'\<rparr>"
  have k: "k < n" by (rule excl_invD(1) [OF inv(2)]) (simp add: p0)
  have w: "ag_word s = ag_idle_word" using idle by (simp add: ag_word_ops split: if_splits)
  have es: "\<forall>e \<in> set es. fst e = q" using sorted_invD(1) [OF inv(4), of k] p0 by simp
  have empty: "ag_hi s = []" "ag_lo s = []" using inv(3) w by (auto simp: count_inv_def ag_idle_word_def)
  have none: "held (ag_pc s j) = []" for j
    using others_hold_nothing [OF inv(2), of k j] w p0 by (cases "j = k") (auto simp: ag_idle_word_def)
  have pc: "ag_pc ?s = (ag_pc s)(k := PcRun es)" by simp
  have h: "all_of n held (ag_pc ?s) = es" "all_of n held (ag_pc s) = []"
    unfolding pc using all_of_upd(1) [OF k, of held "ag_pc s" "PcRun es"]
      all_of_upd(2) [OF k, of held "ag_pc s"] none by simp_all
  show ?thesis
  proof (rule order_enter [OF inv(1,4) k p0, of q es ?s, OF _ _ _ _ es pc])
    show "lossless s" if "lossless ?s" using lossless_goto [OF pc _ _ that] p0 by simp
    show "of_queue r (all_of n held (ag_pc ?s) @ (if hp r then ag_hi ?s else ag_lo ?s)) =
        of_queue r (all_of n held (ag_pc s) @ (if hp r then ag_hi s else ag_lo s)) @ of_queue r es" for r
      unfolding h using empty by simp
  qed auto
qed

lemma order_put:
  assumes inv: "order_inv n hp s" "excl_inv n s" "sorted_inv hp s"
    and p0: "ag_pc s k = PcPut q es" and m: "m \<le> length es"
    and s': "s' = (let t = goto k (if m = length es then PcTry else PcErr (drop m es)) s in
      (if hp q then t\<lparr>ag_hi := ag_hi s @ take m es\<rparr> else t\<lparr>ag_lo := ag_lo s @ take m es\<rparr>))"
  shows "order_inv n hp s'"
proof (cases "m = length es")
  case False
  then have "ag_pc s' k = PcErr (drop m es)" using s' by (simp add: Let_def)
  then have "\<not> lossless s'" unfolding lossless_def by blast
  then show ?thesis by (simp add: order_inv_def)
next
  case True
  have k: "k < n" by (rule excl_invD(1) [OF inv(2)]) (simp add: p0)
  have es: "\<forall>e \<in> set es. fst e = q" using sorted_invD(1) [OF inv(3), of k] p0 by simp
  have pc: "ag_pc s' = (ag_pc s)(k := PcTry)" using s' True by (simp add: Let_def)
  have h: "all_of n held (ag_pc s') = all_of n held (ag_pc s)" unfolding pc by (rule all_of_same) (simp add: p0)
  show ?thesis
  proof (rule order_enter [OF inv(1,3) k p0, of q es s', OF _ _ _ _ es pc])
    show "lossless s" if "lossless s'" using lossless_goto [OF pc _ _ that] p0 s' by (simp add: Let_def)
    show "of_queue r (all_of n held (ag_pc s') @ (if hp r then ag_hi s' else ag_lo s')) =
        of_queue r (all_of n held (ag_pc s) @ (if hp r then ag_hi s else ag_lo s)) @ of_queue r es" for r
      unfolding h using s' True of_queue_all [OF es, of r] by (auto simp: Let_def)
  qed (use s' in \<open>auto simp: Let_def\<close>)
qed

lemma step_order:
  assumes step: "ag_step n hp s s'" and ex: "excl_inv n s" and cnt: "count_inv n s"
    and srt: "sorted_inv hp s" and inv: "order_inv n hp s"
  shows "order_inv n hp s'"
proof -
  have lt: "k < n" if "ag_pc s k \<noteq> PcIdle" for k using excl_invD(1) [OF ex that] .
  have alone: "held (ag_pc s j) = []" if "ag_holds s k" "j \<noteq> k" for j k
    by (rule others_hold_nothing [OF ex _ that(2)]) (use that(1) in blast)
  have rel: "\<not> ag_released s k" if "ag_pc s k \<noteq> PcRun []" "ag_pc s k \<noteq> PcUnl" for k
    using excl_invD(5) [OF ex, of k] that by blast
  from step show ?thesis
  proof cases
    case (Call k evs q es)
    then show ?thesis by (intro order_call [OF inv Call(2,3)]) auto
  next
    case (Fast k q es w')
    then show ?thesis using order_fast [OF inv ex cnt srt] by simp
  next
    case (Put k q es m t)
    then show ?thesis by (intro order_put [OF inv ex srt Put(2,3)]) (simp add: Let_def)
  next
    case (Drop k es)
    then have "es \<noteq> []" using sorted_invD(1) [OF srt, of k] by simp
    then show ?thesis using Drop by (simp add: order_inv_def lossless_def)
  next
    case (GetHi k m)
    then have h: "ag_holds s k" using rel [of k] by (simp add: ag_holds_def)
    have td: "of_queue r (ag_hi s) = of_queue r (take m (ag_hi s)) @ of_queue r (drop m (ag_hi s))" for r
      by (metis append_take_drop_id of_queue_simps(2))
    have "of_queue r (take m (ag_hi s)) = []" if "\<not> hp r" for r
      using sorted_invD(3) [OF srt] that by (intro of_queue_none) (auto dest: in_set_takeD)
    then show ?thesis using GetHi
      by (intro order_hold [OF inv lt alone [OF h], of _ PcLoop s' "PcLo (take m (ag_hi s))"]) (auto simp: td)
  next
    case (GetLo k es m)
    then have h: "ag_holds s k" using rel [of k] by (simp add: ag_holds_def)
    have td: "of_queue r (ag_lo s) = of_queue r (take m (ag_lo s)) @ of_queue r (drop m (ag_lo s))" for r
      by (metis append_take_drop_id of_queue_simps(2))
    have "of_queue r (take m (ag_lo s)) = []" if "hp r" for r
      using sorted_invD(4) [OF srt] that by (intro of_queue_none) (auto dest: in_set_takeD)
    then show ?thesis using GetLo
      by (intro order_hold [OF inv lt alone [OF h], of _ "PcLo es" s' "PcSub (es @ take m (ag_lo s))"]) (auto simp: td)
  next
    case (Run k e es)
    then have h: "ag_holds s k" using rel [of k] by (simp add: ag_holds_def)
    have "of_queue r (e # es) = of_queue r [e] @ of_queue r es" for r
      using of_queue_simps(2) [of r "[e]" es] by simp
    then show ?thesis using Run
      by (intro order_hold [OF inv lt alone [OF h], of _ "PcRun (e # es)" s' "PcRun es"]) auto
  next
    case (HiQueues b)
    then show ?thesis using inv by (simp add: order_inv_def lossless_def)
  qed (erule order_quiet [OF _ inv], simp, simp, simp, simp, simp, simp, simp, simp, simp)+
qed

lemma reach_order:
  assumes "ag_reach n hp s"
  shows "sorted_inv hp s \<and> order_inv n hp s"
  using assms
proof induction
  case ag_reach_init
  have "all_of n f (\<lambda>_. PcIdle) = []" if "f PcIdle = []" for f
    using that by (simp add: all_of_def)
  then show ?case by (simp add: sorted_inv_def order_inv_def ag_init_def)
next
  case (ag_reach_step s s')
  then show ?case
    using reach_invs [OF ag_reach_step.hyps(1)] step_sorted step_order by blast
qed

section \<open>A core on its own finishes\<close>

definition reaches :: "nat \<Rightarrow> (u16 \<Rightarrow> bool) \<Rightarrow> ag_sys \<Rightarrow> (ag_sys \<Rightarrow> bool) \<Rightarrow> bool" where
  "reaches n hp s P \<longleftrightarrow> (\<exists>s'. (ag_step n hp)\<^sup>*\<^sup>* s s' \<and> P s')"

definition all_idle :: "ag_sys \<Rightarrow> bool" where
  "all_idle s \<longleftrightarrow> (\<forall>k. ag_pc s k = PcIdle)"

lemma reaches_now: "P s \<Longrightarrow> reaches n hp s P"
  unfolding reaches_def by blast

lemma reaches_step: "ag_step n hp s t \<Longrightarrow> reaches n hp t P \<Longrightarrow> reaches n hp s P"
  unfolding reaches_def by (meson converse_rtranclp_into_rtranclp)

lemma steps_reach: "(ag_step n hp)\<^sup>*\<^sup>* s s' \<Longrightarrow> ag_reach n hp s \<Longrightarrow> ag_reach n hp s'"
  by (induction rule: rtranclp_induct) (auto intro: ag_reach_step)

text \<open>Only core \<^verbatim>\<open>k\<close> is active, and the events of every stash it needs are looked at.\<close>

definition solo :: "nat \<Rightarrow> (u16 \<Rightarrow> bool) \<Rightarrow> nat \<Rightarrow> stash_entry list \<Rightarrow> ag_sys \<Rightarrow> bool" where
  "solo n hp k evs s \<longleftrightarrow> ag_reach n hp s \<and> (\<forall>j. j \<noteq> k \<longrightarrow> ag_pc s j = PcIdle) \<and>
     (ag_hi_used s \<or> (\<forall>q. \<not> hp q)) \<and>
     ag_in s = evs"

lemma solo_step:
  assumes "solo n hp k evs s" "ag_step n hp s t" "ag_pc t = (ag_pc s)(k := p)" "ag_hi_used t = ag_hi_used s"
    "ag_in t = ag_in s"
  shows "solo n hp k evs t"
  using assms ag_reach_step [OF _ assms(2)] unfolding solo_def by auto

lemma solo_evcnt:
  assumes "solo n hp k evs s"
  shows "unat (aw_evcnt (ag_word s)) = length (ag_hi s) + length (ag_lo s) + pending (ag_pc s k)"
proof -
  have r: "ag_reach n hp s" and idle: "\<And>j. j \<noteq> k \<Longrightarrow> ag_pc s j = PcIdle" using assms by (auto simp: solo_def)
  note ex = reach_invs(1) [OF r] and cnt = reach_invs(2) [OF r]
  have "(\<Sum>j<n. pending (ag_pc s j)) = pending (ag_pc s k)"
  proof (cases "k < n")
    case True
    have "(\<Sum>j<n. pending (ag_pc s j)) = pending (ag_pc s k) + (\<Sum>j\<in>{..<n} - {k}. pending (ag_pc s j))"
      using True by (simp add: sum.remove)
    then show ?thesis using idle by simp
  next
    case False
    then have "ag_pc s k = PcIdle" using excl_invD(1) [OF ex, of k] by blast
    moreover have "(\<Sum>j<n. pending (ag_pc s j)) = 0" using idle False by simp
    ultimately show ?thesis by simp
  qed
  then show ?thesis using cnt by (simp add: count_inv_def)
qed

lemma solo_word:
  assumes s: "solo n hp k evs s" and h: "ag_holds s k" and e: "ag_hi s = []" "ag_lo s = []" "pending (ag_pc s k) = 0"
  shows "ag_word s = ag_held_word"
proof -
  have r: "ag_reach n hp s" using s by (simp add: solo_def)
  note D = excl_invD [OF reach_invs(1) [OF r]]
  have "aw_evcnt (ag_word s) = 0" using solo_evcnt [OF s] e by (simp add: unat_eq_0)
  then show ?thesis using D(3) [OF h] D(4) by (simp add: ag_held_word_def)
qed

lemma runs_all:
  assumes "solo n hp k evs s" "ag_pc s k = PcRun es"
  shows "(\<And>t. solo n hp k evs t \<Longrightarrow> ag_pc t k = PcUnl \<Longrightarrow> ag_hi t = ag_hi s \<Longrightarrow> ag_lo t = ag_lo s \<Longrightarrow>
      ag_released t k = ag_released s k \<Longrightarrow> reaches n hp t P) \<Longrightarrow> reaches n hp s P"
  using assms
proof (induction es arbitrary: s)
  case Nil
  show ?case
  proof (rule reaches_step)
    show st: "ag_step n hp s (goto k PcUnl s)" by (rule RunEnd [OF Nil.prems(3)])
    show "reaches n hp (goto k PcUnl s) P"
      by (rule Nil.prems(1)) (use solo_step [OF Nil.prems(2) st] in auto)
  qed
next
  case (Cons e es)
  let ?t = "(goto k (PcRun es) s)\<lparr>ag_run := ag_run s @ [e]\<rparr>"
  show ?case
  proof (rule reaches_step)
    show st: "ag_step n hp s ?t" by (rule Run [OF Cons.prems(3)])
    show "reaches n hp ?t P"
      by (rule Cons.IH) (use Cons.prems solo_step [OF Cons.prems(2) st, of "PcRun es"] in auto)
  qed
qed

lemma solo_hi:
  assumes "solo n hp k evs s" "ag_hi s \<noteq> []"
  shows "ag_hi_used s"
proof -
  have r: "ag_reach n hp s" using assms(1) by (simp add: solo_def)
  then have "sorted_inv hp s" using reach_order by blast
  then have "\<exists>q. hp q" using assms(2) sorted_invD(3) by (metis hd_in_set)
  then show ?thesis using assms(1) by (auto simp: solo_def)
qed

lemma solo_goto:
  assumes "solo n hp k evs s" "ag_step n hp s t" "ag_pc t = (ag_pc s)(k := p)"
    "ag_hi_used t = ag_hi_used s" "ag_in t = ag_in s" "solo n hp k evs t \<Longrightarrow> reaches n hp t P"
  shows "reaches n hp s P"
  using assms(6) [OF solo_step [OF assms(1-5)]] by (rule reaches_step [OF assms(2)])

abbreviation finished :: "stash_entry list \<Rightarrow> ag_sys \<Rightarrow> bool" where
  "finished evs s \<equiv> all_idle s \<and> ag_in s = evs"

lemma solo_idle: "solo n hp k evs s \<Longrightarrow> ag_pc s k = PcIdle \<Longrightarrow> finished evs s"
  unfolding solo_def all_idle_def by metis

lemma solo_dequeue:
  assumes s: "solo n hp k evs s" and pc: "ag_pc s k = PcLoop"
    and go: "\<And>t es. solo n hp k evs t \<Longrightarrow> ag_pc t k = PcSub es \<Longrightarrow>
      length es + (length (ag_hi t) + length (ag_lo t)) = length (ag_hi s) + length (ag_lo s) \<Longrightarrow>
      (es = [] \<Longrightarrow> ag_hi t = [] \<and> ag_lo t = []) \<Longrightarrow> reaches n hp t P"
  shows "reaches n hp s P"
proof -
  define nh where "nh = (if ag_hi_used s then min (length (ag_hi s)) EM_SCHED_AG_MULTI_MAX_BURST else 0)"
  define H where "H = take nh (ag_hi s)"
  let ?s1 = "(goto k (PcLo H) s)\<lparr>ag_hi := drop nh (ag_hi s)\<rparr>"
  define nl where "nl = min (length (ag_lo s)) (EM_SCHED_AG_MULTI_MAX_BURST - length H)"
  define es where "es = H @ take nl (ag_lo s)"
  let ?s2 = "(goto k (PcSub es) ?s1)\<lparr>ag_lo := drop nl (ag_lo s)\<rparr>"
  have st1: "ag_step n hp s ?s1" unfolding H_def by (rule GetHi [OF pc]) (simp add: nh_def)
  have st2: "ag_step n hp ?s1 ?s2"
    using GetLo [of ?s1 k H nl n hp] by (simp add: es_def nl_def)
  have none: "ag_hi s = [] \<and> ag_lo s = []" if "es = []"
  proof -
    have "H = []" "take nl (ag_lo s) = []" using that by (auto simp: es_def)
    then show ?thesis using solo_hi [OF s]
      by (auto simp: H_def nh_def nl_def EM_SCHED_AG_MULTI_MAX_BURST_def min_def split: if_splits)
  qed
  have "length es + (length (ag_hi ?s2) + length (ag_lo ?s2)) = length (ag_hi s) + length (ag_lo s)"
    by (simp add: es_def H_def nh_def nl_def)
  then have "reaches n hp ?s2 P" if "solo n hp k evs ?s2"
    by (intro go [OF that, of es]) (use none in auto)
  then have "reaches n hp ?s1 P" if "solo n hp k evs ?s1"
    by (intro solo_goto [OF that st2]) auto
  then show ?thesis by (intro solo_goto [OF s st1]) auto
qed

lemma solo_unlock:
  assumes s: "solo n hp k evs s" and pc: "ag_pc s k = PcUnl" and nr: "\<not> ag_released s k"
    and go: "\<And>t. solo n hp k evs t \<Longrightarrow> ag_pc t k = PcLoop \<Longrightarrow> ag_hi s \<noteq> [] \<or> ag_lo s \<noteq> [] \<Longrightarrow>
      ag_hi t = ag_hi s \<Longrightarrow> ag_lo t = ag_lo s \<Longrightarrow> reaches n hp t (finished evs)"
  shows "reaches n hp s (finished evs)"
proof -
  obtain b w where u: "ag_unlock_held (ag_word s) = (b, w)" by fastforce
  show ?thesis
  proof (cases b)
    case True
    then have st: "ag_step n hp s ((goto k PcIdle s)\<lparr>ag_word := w\<rparr>)" using u by (intro Unlock [OF pc nr]) simp
    show ?thesis by (rule solo_goto [OF s st]) (auto intro!: reaches_now solo_idle [of n hp k])
  next
    case False
    then have st: "ag_step n hp s (goto k PcLoop s)" using u by (intro UnlockMore [OF pc nr, of w]) simp
    have "ag_word s \<noteq> ag_held_word" using u False by (auto simp: ag_word_ops)
    moreover have "ag_holds s k" using pc nr by (simp add: ag_holds_def)
    ultimately have "ag_hi s \<noteq> [] \<or> ag_lo s \<noteq> []" using solo_word [OF s] pc by auto
    then show ?thesis by (intro solo_goto [OF s st] go) auto
  qed
qed

lemma solo_not_released: "solo n hp k evs s \<Longrightarrow> ag_pc s k = PcSub es \<Longrightarrow> \<not> ag_released s k"
  using excl_invD(5) [OF reach_invs(1), of n hp s k] by (auto simp: solo_def)

lemma solo_loop:
  assumes "solo n hp k evs s" "ag_pc s k = PcLoop"
  shows "reaches n hp s (finished evs)"
  using assms
proof (induction "length (ag_hi s) + length (ag_lo s)" arbitrary: s rule: less_induct)
  case less
  show ?case
  proof (rule solo_dequeue [OF less.prems])
    fix t es
    assume t: "solo n hp k evs t" "ag_pc t k = PcSub es"
      and len: "length es + (length (ag_hi t) + length (ag_lo t)) = length (ag_hi s) + length (ag_lo s)"
      and none: "es = [] \<Longrightarrow> ag_hi t = [] \<and> ag_lo t = []"
    note nr = solo_not_released [OF t]
    show "reaches n hp t (finished evs)"
    proof (cases es)
      case Nil
      have st: "ag_step n hp t (goto k PcUnl t)" by (rule SubNone) (simp add: t(2) Nil)
      show ?thesis
        by (rule solo_goto [OF t(1) st], simp_all, rule solo_unlock) (use none Nil nr in auto)
    next
      case (Cons e es')
      let ?t = "(goto k (PcRun es) t)\<lparr>ag_word := fetch_sub (of_nat (length es)) (ag_word t)\<rparr>"
      have st: "ag_step n hp t ?t" by (rule SubSome) (auto simp: Cons t(2))
      have "reaches n hp u (finished evs)"
        if u: "solo n hp k evs u" "ag_pc u k = PcUnl" "ag_hi u = ag_hi ?t" "ag_lo u = ag_lo ?t"
          "ag_released u k = ag_released ?t k" for u
        by (rule solo_unlock [OF u(1,2)]) (use u nr len Cons in \<open>auto intro: less.hyps\<close>)
      then show ?thesis by (intro solo_goto [OF t(1) st] runs_all [of n hp k evs ?t es]) auto
    qed
  qed
qed

text \<open>Wherever the core is, it comes to an end.\<close>

lemma solo_held: "solo n hp k evs s \<Longrightarrow> ag_pc s k = PcUnl \<Longrightarrow> \<not> ag_released s k \<Longrightarrow> reaches n hp s (finished evs)"
  by (erule solo_unlock) (auto intro: solo_loop)

lemma solo_unl_load:
  assumes s: "solo n hp k evs s" and pc: "ag_pc s k = PcUnlLoad"
  shows "reaches n hp s (finished evs)"
proof (cases "ag_unlock_check (ag_word s)")
  case None
  let ?w = "(ag_word s)\<lparr>aw_lock := 1\<rparr>"
  let ?s1 = "goto k (PcUnlCas (ag_word s)) s" and ?s2 = "(goto k PcLoop (goto k (PcUnlCas (ag_word s)) s))\<lparr>ag_word := ?w\<rparr>"
  have st1: "ag_step n hp s ?s1" by (rule UnlMore [OF pc None])
  have st2: "ag_step n hp ?s1 ?s2" by (rule UnlTaken) (auto simp: ag_word_ops)
  show ?thesis
    by (rule solo_goto [OF s st1], simp_all, erule solo_goto [OF _ st2]) (auto intro: solo_loop)
next
  case (Some b)
  then have b: "ag_unlock_check (ag_word s) = Some True" by (auto simp: ag_unlock_check_def split: if_splits)
  show ?thesis by (rule solo_goto [OF s UnlDone [OF pc b]]) (auto intro!: reaches_now solo_idle [of n hp k])
qed

lemma solo_unl_cas:
  assumes s: "solo n hp k evs s" and pc: "ag_pc s k = PcUnlCas w"
  shows "reaches n hp s (finished evs)"
proof -
  obtain b w' where u: "ag_unlock_retake w (ag_word s) = (b, w')" by fastforce
  show ?thesis
  proof (cases b)
    case True
    show ?thesis by (rule solo_goto [OF s UnlTaken [OF pc]]) (use u True in \<open>auto intro: solo_loop\<close>)
  next
    case False
    show ?thesis by (rule solo_goto [OF s UnlAgain [OF pc]]) (use u False in \<open>auto intro: solo_unl_load\<close>)
  qed
qed

lemma solo_unl:
  assumes s: "solo n hp k evs s" and pc: "ag_pc s k = PcUnl"
  shows "reaches n hp s (finished evs)"
proof (cases "ag_released s k")
  case True
  let ?s = "set_released k False (goto k PcUnlLoad s)"
  show ?thesis by (rule solo_goto [OF s UnlockRel [OF pc True]]) (auto intro: solo_unl_load)
qed (rule solo_held [OF s pc])

lemma solo_run: "solo n hp k evs s \<Longrightarrow> ag_pc s k = PcRun es \<Longrightarrow> reaches n hp s (finished evs)"
  by (erule runs_all, assumption, rule solo_unl)

lemma solo_rel:
  assumes s: "solo n hp k evs s" and pc: "ag_pc s k = PcRel w"
  shows "reaches n hp s (finished evs)"
proof -
  have cas: "reaches n hp t (finished evs)" if t: "solo n hp k evs t" "ag_pc t k = PcRel (ag_word t)" for t
  proof -
    let ?t = "(set_released k True (goto k (PcRun []) t))\<lparr>ag_word := (ag_word t)\<lparr>aw_lock := 0\<rparr>\<rparr>"
    have st: "ag_step n hp t ?t" by (rule RelDone [OF t(2)]) (simp add: ag_word_ops)
    show ?thesis by (rule solo_goto [OF t(1) st]) (auto intro: solo_run)
  qed
  show ?thesis
  proof (cases "ag_word s = w")
    case True
    then show ?thesis using cas [OF s] pc by simp
  next
    case False
    then have st: "ag_step n hp s (goto k (PcRel (ag_word s)) s)"
      by (intro RelAgain [OF pc]) (auto simp: ag_word_ops)
    show ?thesis by (rule solo_goto [OF s st]) (auto intro: cas)
  qed
qed

lemma solo_sub:
  assumes s: "solo n hp k evs s" and pc: "ag_pc s k = PcSub es"
  shows "reaches n hp s (finished evs)"
proof (cases "es = []")
  case True
  then show ?thesis using pc by (intro solo_goto [OF s SubNone [of s k]]) (auto intro: solo_unl)
next
  case False
  show ?thesis by (rule solo_goto [OF s SubSome [OF pc False]]) (auto intro: solo_run)
qed

lemma solo_try:
  assumes s: "solo n hp k evs s" and pc: "ag_pc s k = PcTry"
  shows "reaches n hp s (finished evs)"
proof -
  let ?w = "(ag_word s)\<lparr>aw_lock := 1\<rparr>"
  let ?s = "goto k (PcTryCas (ag_word s)) s"
  show ?thesis
  proof (cases "aw_lock (ag_word s) = 0")
    case True
    have st: "ag_step n hp ?s ((goto k PcLoop ?s)\<lparr>ag_word := ?w\<rparr>)"
      by (rule TryTaken) (auto simp: ag_word_ops True)
    show ?thesis
      by (rule solo_goto [OF s TryLoad [OF pc]], simp_all, erule solo_goto [OF _ st]) (auto intro: solo_loop)
  next
    case False
    have st: "ag_step n hp ?s ((goto k PcIdle ?s)\<lparr>ag_word := ?w\<rparr>)"
      by (rule TryHeld) (auto simp: ag_word_ops False)
    show ?thesis
      by (rule solo_goto [OF s TryLoad [OF pc]], simp_all, erule solo_goto [OF _ st])
        (auto intro!: reaches_now solo_idle [of n hp k])
  qed
qed

lemma solo_try_cas:
  assumes s: "solo n hp k evs s" and pc: "ag_pc s k = PcTryCas w"
  shows "reaches n hp s (finished evs)"
proof -
  obtain r w' where u: "ag_trylock_round w (ag_word s) = (r, w')" by fastforce
  consider "r = None" | "r = Some True" | "r = Some False" by (metis (full_types) option.exhaust)
  then show ?thesis
  proof cases
    case 1
    show ?thesis
      by (rule solo_goto [OF s TryAgain [OF pc]]) (use u 1 in \<open>auto intro: solo_try\<close>)
  next
    case 2
    show ?thesis
      by (rule solo_goto [OF s TryTaken [OF pc]]) (use u 2 in \<open>auto intro: solo_loop\<close>)
  next
    case 3
    show ?thesis
      by (rule solo_goto [OF s TryHeld [OF pc]]) (use u 3 in \<open>auto intro!: reaches_now solo_idle [of n hp k]\<close>)
  qed
qed

lemma solo_put:
  assumes s: "solo n hp k evs s" and pc: "ag_pc s k = PcPut q es"
  shows "reaches n hp s (finished evs)"
  by (rule solo_goto [OF s Put [OF pc order.refl refl]]) (auto intro: solo_try)

lemma solo_room:
  assumes s: "solo n hp k evs s" and room: "length evs < 2 ^ 32" and p: "pending (ag_pc s k) = 0"
  shows "unat (aw_evcnt (ag_word s)) + length (carried (ag_pc s k)) < 2 ^ 32"
proof -
  have r: "ag_reach n hp s" and e: "ag_in s = evs" using s by (auto simp: solo_def)
  have le: "length (carried (ag_pc s k)) \<le> (\<Sum>j<n. length (carried (ag_pc s j)))"
  proof (cases "ag_pc s k = PcIdle")
    case False
    then have "k < n" using excl_invD(1) [OF reach_invs(1) [OF r]] by blast
    then show ?thesis by (intro member_le_sum) auto
  qed simp
  have "size (mset (ag_in s)) = size (mset (ag_run s) + mset (ag_drop s) + mset (ag_hi s) + mset (ag_lo s) +
      (\<Sum>j<n. mset (carried (ag_pc s j))))"
    using reach_invs(4) [OF r] by (simp only: conserve_inv_def)
  then have "length (ag_hi s) + length (ag_lo s) + (\<Sum>j<n. length (carried (ag_pc s j))) \<le> length evs"
    by (simp add: e size_multiset_sum)
  then show ?thesis using solo_evcnt [OF s] p le room by linarith
qed

lemma solo_enq:
  assumes s: "solo n hp k evs s" and pc: "ag_pc s k = PcEnq q es" and room: "length evs < 2 ^ 32"
  shows "reaches n hp s (finished evs)"
proof -
  have "unat (aw_evcnt (ag_word s)) + length es < 2 ^ 32" using solo_room [OF s room] pc by simp
  then show ?thesis by (intro solo_goto [OF s Count [OF pc]]) (auto intro: solo_put)
qed

lemma solo_finishes:
  assumes s: "solo n hp k evs s" and room: "length evs < 2 ^ 32"
  shows "reaches n hp s (finished evs)"
proof (cases "ag_pc s k")
  case PcIdle
  then show ?thesis using solo_idle [OF s] by (intro reaches_now)
next
  case (PcEnter q es)
  obtain b w where u: "ag_acquire_if_idle (ag_word s) = (b, w)" by fastforce
  show ?thesis
  proof (cases b)
    case True
    show ?thesis by (rule solo_goto [OF s Fast [OF PcEnter]]) (use u True in \<open>auto intro: solo_run\<close>)
  next
    case False
    show ?thesis by (rule solo_goto [OF s Slow [OF PcEnter]]) (use u False room in \<open>auto intro: solo_enq\<close>)
  qed
next
  case (PcErr es)
  show ?thesis by (rule solo_goto [OF s Drop [OF PcErr]]) (auto intro: solo_try)
next
  case (PcLo es)
  show ?thesis by (rule solo_goto [OF s GetLo [OF PcLo le0]]) (auto intro: solo_sub)
qed (blast intro: solo_enq [OF s _ room] solo_put [OF s] solo_try [OF s] solo_try_cas [OF s] solo_loop [OF s]
    solo_sub [OF s] solo_run [OF s] solo_rel [OF s] solo_unl [OF s] solo_unl_load [OF s] solo_unl_cas [OF s])+

section \<open>Schedules\<close>

text \<open>
  A schedule names the core that moves and a number: how many entries a put or get handles, or for a
  core whose last event is with its handler, whether the handler releases the group (1) or not.
\<close>

definition ag_go :: "(u16 \<Rightarrow> bool) \<Rightarrow> nat \<times> nat \<Rightarrow> ag_sys \<Rightarrow> ag_sys option" where
  "ag_go hp m s =
     (let (k, n) = m in
      case ag_pc s k of
        PcIdle \<Rightarrow> None
      | PcEnter q es \<Rightarrow>
          (case ag_acquire_if_idle (ag_word s) of
             (True, w') \<Rightarrow> Some ((goto k (PcRun es) s)\<lparr>ag_word := w'\<rparr>)
           | (False, w') \<Rightarrow> Some (goto k (PcEnq q es) s))
      | PcEnq q es \<Rightarrow>
          if uint (aw_evcnt (ag_word s)) + int (length es) < 2 ^ 32
          then Some ((goto k (PcPut q es) s)\<lparr>ag_word := fetch_add (of_nat (length es)) (ag_word s)\<rparr>) else None
      | PcPut q es \<Rightarrow>
          if n \<le> length es
          then let s' = goto k (if n = length es then PcTry else PcErr (drop n es)) s
               in Some (if hp q then s'\<lparr>ag_hi := ag_hi s @ take n es\<rparr> else s'\<lparr>ag_lo := ag_lo s @ take n es\<rparr>)
          else None
      | PcErr es \<Rightarrow> Some ((goto k PcTry s)\<lparr>ag_word := fetch_sub (of_nat (length es)) (ag_word s), ag_drop := ag_drop s @ es\<rparr>)
      | PcTry \<Rightarrow> Some (goto k (PcTryCas (ag_word s)) s)
      | PcTryCas loaded \<Rightarrow>
          (case ag_trylock_round loaded (ag_word s) of
             (Some True, w') \<Rightarrow> Some ((goto k PcLoop s)\<lparr>ag_word := w'\<rparr>)
           | (Some False, w') \<Rightarrow> Some ((goto k PcIdle s)\<lparr>ag_word := w'\<rparr>)
           | (None, w') \<Rightarrow> Some (goto k PcTry s))
      | PcLoop \<Rightarrow>
          if n \<le> (if ag_hi_used s then EM_SCHED_AG_MULTI_MAX_BURST else 0)
          then Some ((goto k (PcLo (take n (ag_hi s))) s)\<lparr>ag_hi := drop n (ag_hi s)\<rparr>) else None
      | PcLo es \<Rightarrow>
          if n \<le> EM_SCHED_AG_MULTI_MAX_BURST - length es
          then Some ((goto k (PcSub (es @ take n (ag_lo s))) s)\<lparr>ag_lo := drop n (ag_lo s)\<rparr>) else None
      | PcSub es \<Rightarrow>
          if es = [] then Some (goto k PcUnl s)
          else Some ((goto k (PcRun es) s)\<lparr>ag_word := fetch_sub (of_nat (length es)) (ag_word s)\<rparr>)
      | PcRun es \<Rightarrow>
          (case es of
             e # es' \<Rightarrow> Some ((goto k (PcRun es') s)\<lparr>ag_run := ag_run s @ [e]\<rparr>)
           | [] \<Rightarrow> if n = 1 \<and> \<not> ag_released s k then Some (goto k (PcRel (ag_word s)) s) else Some (goto k PcUnl s))
      | PcRel loaded \<Rightarrow>
          (case atomic_group_release_round loaded (ag_word s) of
             (True, w') \<Rightarrow> Some ((set_released k True (goto k (PcRun []) s))\<lparr>ag_word := w'\<rparr>)
           | (False, w') \<Rightarrow> Some (goto k (PcRel (ag_word s)) s))
      | PcUnl \<Rightarrow>
          if ag_released s k then Some (set_released k False (goto k PcUnlLoad s))
          else (case ag_unlock_held (ag_word s) of
                  (True, w') \<Rightarrow> Some ((goto k PcIdle s)\<lparr>ag_word := w'\<rparr>)
                | (False, w') \<Rightarrow> Some (goto k PcLoop s))
      | PcUnlLoad \<Rightarrow>
          (case ag_unlock_check (ag_word s) of
             Some b \<Rightarrow> Some (goto k PcIdle s)
           | None \<Rightarrow> Some (goto k (PcUnlCas (ag_word s)) s))
      | PcUnlCas loaded \<Rightarrow>
          (case ag_unlock_retake loaded (ag_word s) of
             (True, w') \<Rightarrow> Some ((goto k PcLoop s)\<lparr>ag_word := w'\<rparr>)
           | (False, w') \<Rightarrow> Some (goto k PcUnlLoad s)))"

text \<open>Core \<^verbatim>\<open>k\<close> is handed events of queue \<^verbatim>\<open>q\<close>, when no core below \<^verbatim>\<open>ncores\<close> holds the queue.\<close>

definition ag_call :: "nat \<Rightarrow> nat \<Rightarrow> u16 \<Rightarrow> hdl list \<Rightarrow> ag_sys \<Rightarrow> ag_sys option" where
  "ag_call ncores k q evs s =
     (if k < ncores \<and> ag_pc s k = PcIdle \<and> evs \<noteq> [] \<and> (\<forall>j \<in> set [0..<ncores]. \<not> holds_queue q (ag_pc s j))
      then Some ((goto k (PcEnter q (map (Pair q) evs)) s)\<lparr>ag_in := ag_in s @ map (Pair q) evs\<rparr>) else None)"

datatype ag_move = Hand nat u16 "hdl list" | Go nat nat | Hi bool

fun ag_sched :: "nat \<Rightarrow> (u16 \<Rightarrow> bool) \<Rightarrow> ag_move list \<Rightarrow> ag_sys \<Rightarrow> ag_sys option" where
  "ag_sched ncores hp [] s = Some s"
| "ag_sched ncores hp (m # ms) s =
     (case (case m of Hand k q evs \<Rightarrow> ag_call ncores k q evs s | Go k n \<Rightarrow> ag_go hp (k, n) s
              | Hi b \<Rightarrow> Some (s\<lparr>ag_hi_used := b\<rparr>)) of
        None \<Rightarrow> None
      | Some s' \<Rightarrow> ag_sched ncores hp ms s')"

lemma ag_unlock_check_some: "ag_unlock_check w = Some b \<Longrightarrow> b"
  by (auto simp: ag_unlock_check_def split: if_splits)

lemma count_room: "uint (aw_evcnt w) + int m < 2 ^ 32 \<longleftrightarrow> unat (aw_evcnt w) + m < 2 ^ 32"
  using of_nat_less_iff [where 'a = int, of "unat (aw_evcnt w) + m" "2 ^ 32"] by simp

lemma ag_go_step:
  assumes go: "ag_go hp (k, m) s = Some s'"
  shows "ag_step n hp s s'"
proof (cases "ag_pc s k")
  case (PcPut q es)
  then have le: "m \<le> length es" using go by (simp add: ag_go_def split: if_splits)
  show ?thesis
    using go PcPut Put [OF PcPut le refl, of n hp] by (simp add: ag_go_def Let_def split: if_splits)
next
  case PcLoop
  then have le: "m \<le> (if ag_hi_used s then EM_SCHED_AG_MULTI_MAX_BURST else 0)"
    using go by (simp add: ag_go_def split: if_splits)
  show ?thesis using go PcLoop GetHi [OF PcLoop le, of n hp] by (auto simp: ag_go_def le split: if_splits)
next
  case (PcEnq q es)
  then have "unat (aw_evcnt (ag_word s)) + length es < 2 ^ 32"
    using go unfolding count_room [symmetric] by (simp add: ag_go_def split: if_splits)
  with go PcEnq show ?thesis using Count [OF PcEnq, of n hp] by (simp add: ag_go_def split: if_splits)
next
  case PcUnlLoad
  show ?thesis
  proof (cases "ag_unlock_check (ag_word s)")
    case None
    then show ?thesis using go PcUnlLoad UnlMore [OF PcUnlLoad None, of n hp] by (simp add: ag_go_def)
  next
    case (Some b)
    then have "ag_unlock_check (ag_word s) = Some True" by (auto simp: ag_unlock_check_def split: if_splits)
    then show ?thesis using go PcUnlLoad UnlDone [OF PcUnlLoad, of n hp] by (simp add: ag_go_def)
  qed
qed (use go in \<open>auto simp: ag_go_def Let_def split: if_splits prod.splits bool.splits option.splits list.splits
      intro: ag_step.intros\<close>)

lemma ag_call_step:
  assumes go: "ag_call n k q evs s = Some s'" and ok: "excl_inv n s"
  shows "ag_step n hp s s'"
proof -
  have c: "k < n" "ag_pc s k = PcIdle" "evs \<noteq> []" "\<forall>j < n. \<not> holds_queue q (ag_pc s j)"
    "s' = (goto k (PcEnter q (map (Pair q) evs)) s)\<lparr>ag_in := ag_in s @ map (Pair q) evs\<rparr>"
    using go by (auto simp: ag_call_def split: if_splits)
  have "\<not> holds_queue q (ag_pc s j)" for j
    using c(4) excl_invD(1) [OF ok, of j] by (cases "ag_pc s j = PcIdle") auto
  then show ?thesis unfolding c(5) by (intro Call [OF c(1-3)]) auto
qed

lemma ag_sched_reach:
  assumes "ag_sched n hp ms s = Some s'" "ag_reach n hp s"
  shows "ag_reach n hp s'"
  using assms
proof (induction ms arbitrary: s)
  case (Cons m ms)
  obtain t where t: "(case m of Hand k q evs \<Rightarrow> ag_call n k q evs s | Go k j \<Rightarrow> ag_go hp (k, j) s
      | Hi b \<Rightarrow> Some (s\<lparr>ag_hi_used := b\<rparr>)) = Some t" "ag_sched n hp ms t = Some s'"
    using Cons.prems(1) by (auto split: option.splits)
  have "ag_step n hp s t"
    using t(1) ag_call_step [OF _ reach_invs(1) [OF Cons.prems(2)]] ag_go_step HiQueues
    by (cases m) auto
  then show ?case using Cons t(2) ag_reach_step by blast
qed simp

section \<open>Claims\<close>

lemma idle_word:
  assumes "ag_reach n hp s" "all_idle s"
  shows "ag_word s = ag_idle_word" "ag_hi s = []" "ag_lo s = []" "mset (ag_in s) = mset (ag_run s) + mset (ag_drop s)"
proof -
  note I = reach_invs [OF assms(1)] and idle = assms(2) [unfolded all_idle_def]
  have h: "\<not> ag_holds s k" "\<not> rechecks s k" for k
    using idle excl_invD(5) [OF I(1), of k] by (auto simp: ag_holds_def rechecks_def)
  have lock: "aw_lock (ag_word s) = 0" using I(1) h(1) by (simp add: excl_inv_def)
  then have evs: "aw_evcnt (ag_word s) = 0" using I(3) h(2) by (auto simp: watch_inv_def)
  then show "ag_word s = ag_idle_word"
    using lock excl_invD(4) [OF I(1)] by (simp add: ag_idle_word_def)
  show e: "ag_hi s = []" "ag_lo s = []" using I(2) evs by (auto simp: count_inv_def)
  show "mset (ag_in s) = mset (ag_run s) + mset (ag_drop s)"
    using I(4) e idle by (simp add: conserve_inv_def)
qed

lemma section_exclusive:
  assumes "ag_reach n hp s"
  shows "\<forall>j k. j \<noteq> k \<longrightarrow> in_section (ag_pc s j) \<longrightarrow> in_section (ag_pc s k) \<longrightarrow>
      ag_released s j \<and> held (ag_pc s j) = [] \<or> ag_released s k \<and> held (ag_pc s k) = []"
    "aw_lock (ag_word s) = (if \<exists>k. in_section (ag_pc s k) \<and> \<not> ag_released s k then 1 else 0)"
proof -
  note D = excl_invD [OF reach_invs(1) [OF assms]]
  have "held (ag_pc s k) = []" if "ag_released s k" for k using D(5) [OF that] by auto
  then show "\<forall>j k. j \<noteq> k \<longrightarrow> in_section (ag_pc s j) \<longrightarrow> in_section (ag_pc s k) \<longrightarrow>
      ag_released s j \<and> held (ag_pc s j) = [] \<or> ag_released s k \<and> held (ag_pc s k) = []"
    using D(2) unfolding ag_holds_def by blast
  show "aw_lock (ag_word s) = (if \<exists>k. in_section (ag_pc s k) \<and> \<not> ag_released s k then 1 else 0)"
    using reach_invs(1) [OF assms] by (simp add: excl_inv_def ag_holds_def)
qed

lemma all_idle_none: "all_idle s \<Longrightarrow> all_of n held (ag_pc s) = [] \<and> all_of n (entering q) (ag_pc s) = []"
  by (simp add: all_idle_def all_of_def)

lemma queue_order:
  assumes "ag_reach n hp s" "lossless s"
  shows "\<exists>rest. of_queue q (ag_in s) = of_queue q (ag_run s) @ rest \<and> (all_idle s \<longrightarrow> rest = [])"
proof -
  have "of_queue q (ag_in s) = of_queue q (ag_run s) @ (of_queue q (all_of n held (ag_pc s)) @
      of_queue q (if hp q then ag_hi s else ag_lo s) @ all_of n (entering q) (ag_pc s))"
    using reach_order [OF assms(1)] assms(2) by (simp add: order_inv_def)
  then show ?thesis using idle_word(2,3) [OF assms(1)] all_idle_none [of s n q] by fastforce
qed

lemma batches_concat: "concat (map (\<lambda>(q, evs). map (Pair q) evs) (ag_dispatch_batches es)) = es"
proof (induction es rule: ag_dispatch_batches.induct)
  case (2 qidx ev es)
  have "map (\<lambda>e. (qidx, snd e)) (takeWhile (\<lambda>e. fst e = qidx) es) = takeWhile (\<lambda>e. fst e = qidx) es"
    by (rule map_idI) (auto dest: set_takeWhileD)
  then show ?case using 2 by (simp add: comp_def)
qed simp

lemma batches_hd: "es \<noteq> [] \<Longrightarrow> fst (hd (ag_dispatch_batches es)) = fst (hd es)"
  by (cases es) auto

lemma batches_none: "ag_dispatch_batches es = [] \<longleftrightarrow> es = []"
  by (cases es) auto

lemma batches_runs: "(\<forall>b \<in> set (ag_dispatch_batches es). snd b \<noteq> []) \<and>
    (\<forall>i. Suc i < length (ag_dispatch_batches es) \<longrightarrow>
      fst (ag_dispatch_batches es ! i) \<noteq> fst (ag_dispatch_batches es ! Suc i))"
proof (induction es rule: ag_dispatch_batches.induct)
  case (2 qidx ev es)
  let ?d = "dropWhile (\<lambda>e. fst e = qidx) es"
  have "qidx \<noteq> fst (ag_dispatch_batches ?d ! 0)" if "ag_dispatch_batches ?d \<noteq> []"
    using that batches_hd [of ?d] hd_dropWhile [of "\<lambda>e. fst e = qidx" es] by (simp add: batches_none hd_conv_nth)
  then show ?case using 2 by (auto simp: nth_Cons split: nat.splits)
qed simp

text \<open>While no queue of the highest priority is counted, the high-priority stash is not looked at.\<close>

definition lo_step :: "nat \<Rightarrow> (u16 \<Rightarrow> bool) \<Rightarrow> ag_sys \<Rightarrow> ag_sys \<Rightarrow> bool" where
  "lo_step n hp s s' \<longleftrightarrow> ag_step n hp s s' \<and> \<not> ag_hi_used s'"

lemma lo_step_hi: "ag_step n hp s s' \<Longrightarrow> \<not> ag_hi_used s \<Longrightarrow> ag_hi s \<noteq> [] \<Longrightarrow> ag_hi s' \<noteq> []"
  by (erule ag_step.cases) (simp_all split: if_splits)

lemma hi_stranded:
  assumes "(lo_step n hp)\<^sup>*\<^sup>* s s'" "ag_reach n hp s" "\<not> ag_hi_used s" "ag_hi s \<noteq> []"
  shows "ag_reach n hp s' \<and> \<not> ag_hi_used s' \<and> ag_hi s' \<noteq> []"
  using assms
proof (induction rule: rtranclp_induct)
  case (step t u)
  then show ?case using lo_step_hi [of n hp t u] ag_reach_step [of n hp t u] by (auto simp: lo_step_def)
qed simp

text \<open>
  Two cores and two queues; the second queue has the highest priority. Core 0 runs two events of queue
  1 and core 1 stashes one of queue 2, which core 0 then drains.
\<close>

definition demo_hp :: "u16 \<Rightarrow> bool" where "demo_hp q \<longleftrightarrow> q = 2"

definition demo_moves :: "ag_move list" where
  "demo_moves = [Hi True, Hand 0 1 [10, 11], Hand 1 2 [20], Go 0 0, Go 0 0, Go 1 0, Go 1 0, Go 1 1,
     Go 1 0, Go 1 0, Go 0 0, Go 0 0, Go 0 0, Go 0 1, Go 0 0, Go 0 0, Go 0 0, Go 0 0, Go 0 0]"

text \<open>Core 0 releases the group while its last event is with its handler; core 1 takes the lock.\<close>

definition release_moves :: "ag_move list" where
  "release_moves = [Hand 0 1 [10], Go 0 0, Go 0 0, Go 0 1, Go 0 0, Hand 1 2 [20], Go 1 0]"

text \<open>Core 1 stashes a high-priority event while core 0 runs; then its queue is removed.\<close>

definition strand_moves :: "ag_move list" where
  "strand_moves = [Hi True, Hand 0 1 [10], Hand 1 2 [20], Go 0 0, Go 1 0, Go 1 0, Go 1 1, Go 1 0, Go 1 0, Hi False]"

definition strand_loop :: "ag_move list" where
  "strand_loop = [Go 0 0, Go 0 0, Go 0 0, Go 0 0, Go 0 0, Go 0 0, Go 0 0, Go 0 0]"

definition sched_end :: "ag_move list \<Rightarrow> ag_sys" where
  "sched_end ms = the (ag_sched 2 demo_hp ms ag_init)"

lemma sched_end_reach: "ag_sched 2 demo_hp ms ag_init \<noteq> None \<Longrightarrow> ag_reach 2 demo_hp (sched_end ms)"
  unfolding sched_end_def using ag_sched_reach [OF _ ag_reach_init] by fastforce

lemma demo_reach: "ag_reach 2 demo_hp (sched_end demo_moves)"
  by (rule sched_end_reach) code_simp

lemma release_reach: "ag_reach 2 demo_hp (sched_end release_moves)"
  by (rule sched_end_reach) code_simp

lemma strand_reach: "ag_reach 2 demo_hp (sched_end strand_moves)"
  by (rule sched_end_reach) code_simp

lemma two_cores: "ag_reach 2 hp s \<Longrightarrow> j \<noteq> 0 \<Longrightarrow> j \<noteq> 1 \<Longrightarrow> ag_pc s j = PcIdle"
  using excl_invD(1) [OF reach_invs(1), of 2 hp s j] by (cases "ag_pc s j = PcIdle") auto

lemma demo_idle: "all_idle (sched_end demo_moves)"
proof -
  have "ag_pc (sched_end demo_moves) 0 = PcIdle" "ag_pc (sched_end demo_moves) 1 = PcIdle" by code_simp+
  then show ?thesis using two_cores [OF demo_reach] unfolding all_idle_def by metis
qed

text \<open>
  C2: atomicity across the queues of a group. Of two different cores that are both in the group's
  section, one has handed out its last event and released the group; and the lock field is 1 exactly
  while some core is in the section and has not released it.
\<close>

theorem ag_mutual_exclusion:
  assumes "ag_reach ncores hi_prio s"
  shows "(\<forall>j k. j \<noteq> k \<longrightarrow> in_section (ag_pc s j) \<longrightarrow> in_section (ag_pc s k) \<longrightarrow>
      ag_released s j \<and> held (ag_pc s j) = [] \<or> ag_released s k \<and> held (ag_pc s k) = []) \<and>
    aw_lock (ag_word s) = (if \<exists>k. in_section (ag_pc s k) \<and> \<not> ag_released s k then 1 else 0)"
  using section_exclusive [OF assms] by (rule conjI)

theorem ag_mutual_exclusion_witness:
  "in_section (ag_pc (sched_end release_moves) 0) \<and> in_section (ag_pc (sched_end release_moves) 1) \<and>
   ag_released (sched_end release_moves) 0 \<and> held (ag_pc (sched_end release_moves) 1) = [(2, 20)] \<and>
   aw_lock (ag_word (sched_end release_moves)) =
     (if \<exists>k. in_section (ag_pc (sched_end release_moves) k) \<and> \<not> ag_released (sched_end release_moves) k then 1 else 0)"
proof -
  have "in_section (ag_pc (sched_end release_moves) 0)" "in_section (ag_pc (sched_end release_moves) 1)"
    "ag_released (sched_end release_moves) 0" "held (ag_pc (sched_end release_moves) 1) = [(2, 20)]"
    by code_simp+
  then show ?thesis using ag_mutual_exclusion [OF release_reach] by blast
qed

text \<open>
  C3: no event is left behind. When every core has left \<^verbatim>\<open>atomic_group_dispatch\<close>, the lock is free, the
  count is 0, both stashes are empty, and every event handed in was either run or, because a stash
  was full, dropped, exactly once.
\<close>

theorem ag_no_event_left:
  assumes "ag_reach ncores hi_prio s" "all_idle s"
  shows "ag_word s = ag_idle_word \<and> ag_hi s = [] \<and> ag_lo s = [] \<and>
    mset (ag_in s) = mset (ag_run s) + mset (ag_drop s)"
  using idle_word [OF assms] by blast

theorem ag_no_event_left_witness:
  "ag_word (sched_end demo_moves) = ag_idle_word \<and>
   mset (ag_in (sched_end demo_moves)) = mset (ag_run (sched_end demo_moves)) + mset (ag_drop (sched_end demo_moves)) \<and>
   ag_run (sched_end demo_moves) = [(1, 10), (1, 11), (2, 20)]"
proof -
  have "ag_run (sched_end demo_moves) = [(1, 10), (1, 11), (2, 20)]" by code_simp
  then show ?thesis using ag_no_event_left [OF demo_reach demo_idle] by blast
qed

text \<open>
  C7: while no stash was too full, the events of each queue of the group run in the order they were
  scheduled, on whichever cores; and all of them have run when every core has left.
\<close>

theorem ag_queue_order:
  assumes "ag_reach ncores hi_prio s" "lossless s"
  shows "\<exists>rest. of_queue q (ag_in s) = of_queue q (ag_run s) @ rest \<and> (all_idle s \<longrightarrow> rest = [])"
  using assms by (rule queue_order)

theorem ag_queue_order_witness:
  "of_queue 1 (ag_in (sched_end demo_moves)) = of_queue 1 (ag_run (sched_end demo_moves)) \<and>
   of_queue 1 (ag_run (sched_end demo_moves)) = [(1, 10), (1, 11)]"
proof -
  have "ag_drop (sched_end demo_moves) = []" "of_queue 1 (ag_run (sched_end demo_moves)) = [(1, 10), (1, 11)]"
    by code_simp+
  moreover from this have "lossless (sched_end demo_moves)" using demo_idle by (simp add: lossless_def all_idle_def)
  ultimately show ?thesis using ag_queue_order [OF demo_reach, of 1] demo_idle by simp
qed





text \<open>
  The batches \<^verbatim>\<open>ag_dispatch_batches\<close> hands on are the dequeued entries in their order, none is empty,
  and two adjacent batches are of different queues, so that a batch is as long as it can be.
\<close>

theorem ag_dispatch_batches_exact:
  "concat (map (\<lambda>(q, evs). map (Pair q) evs) (ag_dispatch_batches es)) = es \<and>
   (\<forall>b \<in> set (ag_dispatch_batches es). snd b \<noteq> []) \<and>
   (\<forall>i. Suc i < length (ag_dispatch_batches es) \<longrightarrow>
      fst (ag_dispatch_batches es ! i) \<noteq> fst (ag_dispatch_batches es ! Suc i))"
  using batches_concat batches_runs by (rule conjI)

theorem ag_dispatch_batches_exact_witness:
  "ag_dispatch_batches [(1, 10), (1, 11), (2, 20), (1, 12)] = [(1, [10, 11]), (2, [20]), (1, [12])] \<and>
   fst (ag_dispatch_batches [(1, 10), (1, 11), (2, 20), (1, 12)] ! 0) \<noteq>
   fst (ag_dispatch_batches [(1, 10), (1, 11), (2, 20), (1, 12)] ! Suc 0)"
proof -
  have e: "ag_dispatch_batches [(1, 10), (1, 11), (2, 20), (1, 12)] = [(1, [10, 11]), (2, [20]), (1, [12])]" by code_simp
  then have "Suc 0 < length (ag_dispatch_batches [(1, 10), (1, 11), (2, 20), (1, 12)])" by simp
  then show ?thesis
    using e ag_dispatch_batches_exact [of "[(1, 10), (1, 11), (2, 20), (1, 12)]"] by blast
qed

end
