(* ===== verification/IntrusiveList.thy ===== *)
theory IntrusiveList
  imports Prelude
begin

text \<open>
  The doubly linked circular list of \<^verbatim>\<open>src/src/misc/list.h\<close>. A node is an address, the heap gives
  each node its \<^verbatim>\<open>next\<close> and \<^verbatim>\<open>prev\<close> pointer, a list is named by its head node. The operations are
  translated store by store; \<^verbatim>\<open>chain\<close> and \<^verbatim>\<open>dlist\<close> relate the pointers to the HOL list of the
  linked nodes, and the locale \<^verbatim>\<open>node_lists\<close> is the interface the object pool and the queue
  lists use.
\<close>

section \<open>Heap and operations\<close>

record lheap =
  lnext :: "ptr \<Rightarrow> ptr"
  lprev :: "ptr \<Rightarrow> ptr"

definition set_next :: "ptr \<Rightarrow> ptr \<Rightarrow> lheap \<Rightarrow> lheap" where
  "set_next n v h = h\<lparr>lnext := (lnext h)(n := v)\<rparr>"

definition set_prev :: "ptr \<Rightarrow> ptr \<Rightarrow> lheap \<Rightarrow> lheap" where
  "set_prev n v h = h\<lparr>lprev := (lprev h)(n := v)\<rparr>"

definition list_init :: "ptr \<Rightarrow> lheap \<Rightarrow> lheap" where
  "list_init head h = set_prev head head (set_next head head h)"

definition list_is_empty :: "ptr \<Rightarrow> lheap \<Rightarrow> bool" where
  "list_is_empty head h = (lnext h head = head)"

definition list_add :: "ptr \<Rightarrow> ptr \<Rightarrow> lheap \<Rightarrow> lheap" where
  "list_add head node h =
     (let nx = head;
          pv = lprev h head;
          h1 = set_next node nx h;
          h2 = set_prev node pv h1;
          h3 = set_next pv node h2
      in set_prev nx node h3)"

definition list_rem :: "ptr \<Rightarrow> ptr \<Rightarrow> lheap \<Rightarrow> lheap" where
  "list_rem head node h =
     (let nx = lnext h node;
          pv = lprev h node;
          h1 = set_next pv nx h;
          h2 = set_prev nx pv h1;
          h3 = set_next node node h2
      in set_prev node node h3)"

definition list_rem_first :: "ptr \<Rightarrow> lheap \<Rightarrow> ptr option \<times> lheap" where
  "list_rem_first head h =
     (if \<not> list_is_empty head h
      then (let node = lnext h head in (Some node, list_rem head node h))
      else (None, h))"

definition list_rem_last :: "ptr \<Rightarrow> lheap \<Rightarrow> ptr option \<times> lheap" where
  "list_rem_last head h =
     (if \<not> list_is_empty head h
      then (let node = lprev h head in (Some node, list_rem head node h))
      else (None, h))"

text \<open>
  \<^verbatim>\<open>list_for_each(head, cur) body\<close>: the position is advanced before the test and the body, so the
  body may unlink the current node. The heap is a component \<^verbatim>\<open>hp s\<close> of the state the body changes.
  A walk over a corrupted list need not end; then the value is \<^const>\<open>None\<close>.
\<close>

partial_function (option) list_walk ::
  "('s \<Rightarrow> lheap) \<Rightarrow> (ptr \<Rightarrow> 's \<Rightarrow> 's) \<Rightarrow> ptr \<Rightarrow> ptr \<Rightarrow> 's \<Rightarrow> 's option" where
  "list_walk hp body head pos s =
     (let cur = pos; pos' = lnext (hp s) pos
      in if cur \<noteq> head then list_walk hp body head pos' (body cur s) else Some s)"

definition list_for_each :: "('s \<Rightarrow> lheap) \<Rightarrow> (ptr \<Rightarrow> 's \<Rightarrow> 's) \<Rightarrow> ptr \<Rightarrow> 's \<Rightarrow> 's option" where
  "list_for_each hp body head s = list_walk hp body head (lnext (hp s) head) s"

lemma set_next_sel [heap_simps]:
  "lnext (set_next n v h) = (lnext h)(n := v)"
  "lprev (set_next n v h) = lprev h"
  by (simp_all add: set_next_def)

lemma set_prev_sel [heap_simps]:
  "lprev (set_prev n v h) = (lprev h)(n := v)"
  "lnext (set_prev n v h) = lnext h"
  by (simp_all add: set_prev_def)

section \<open>Abstraction to HOL lists\<close>

fun chain :: "lheap \<Rightarrow> ptr \<Rightarrow> ptr list \<Rightarrow> ptr \<Rightarrow> bool" where
  "chain h a [] b = (lnext h a = b \<and> lprev h b = a)"
| "chain h a (x # xs) b = (lnext h a = x \<and> lprev h x = a \<and> chain h x xs b)"

definition dlist :: "lheap \<Rightarrow> ptr \<Rightarrow> ptr list \<Rightarrow> bool" where
  "dlist h head xs \<longleftrightarrow> distinct (head # xs) \<and> chain h head xs head"

lemma chain_append:
  "chain h a (xs @ y # ys) b \<longleftrightarrow> chain h a xs y \<and> chain h y ys b"
  by (induction xs arbitrary: a) auto

lemma chain_cong:
  assumes "\<forall>n \<in> insert a (set xs). lnext h' n = lnext h n"
    and "\<forall>n \<in> insert b (set xs). lprev h' n = lprev h n"
  shows "chain h' a xs b \<longleftrightarrow> chain h a xs b"
  using assms by (induction xs arbitrary: a) auto

lemma chain_last:
  "chain h a xs b \<Longrightarrow> lprev h b = last (a # xs)"
  by (induction xs arbitrary: a) auto

lemma chain_first:
  "chain h a xs b \<Longrightarrow> lnext h a = hd (xs @ [b])"
  by (cases xs) auto

lemma dlist_init: "dlist (list_init head h) head []"
  by (simp add: dlist_def list_init_def heap_simps)

lemma dlist_empty_iff: "dlist h head xs \<Longrightarrow> list_is_empty head h \<longleftrightarrow> xs = []"
  by (cases xs) (auto simp: dlist_def list_is_empty_def)

lemma list_add_sel:
  "lnext (list_add head n h) = (lnext h)(n := head, lprev h head := n)"
  "lprev (list_add head n h) = (lprev h)(n := lprev h head, head := n)"
  by (simp_all add: list_add_def Let_def heap_simps)

lemma list_rem_sel:
  "lnext (list_rem head n h) = (lnext h)(lprev h n := lnext h n, n := n)"
  "lprev (list_rem head n h) = (lprev h)(lnext h n := lprev h n, n := n)"
  by (simp_all add: list_rem_def Let_def heap_simps)

lemma dlist_add:
  assumes d: "dlist h head xs" and n: "n \<noteq> head" "n \<notin> set xs"
  shows "dlist (list_add head n h) head (xs @ [n])"
proof -
  have c: "chain h head xs head" and dis: "distinct (head # xs)"
    using d by (auto simp: dlist_def)
  let ?h = "list_add head n h"
  have pl: "lprev h head = last (head # xs)" using chain_last [OF c] .
  show ?thesis
  proof (cases xs rule: rev_cases)
    case Nil
    with c n show ?thesis by (simp add: dlist_def list_add_sel)
  next
    case (snoc ys y)
    have y: "lprev h head = y" using pl snoc by simp
    have cy: "chain h head ys y" and ly: "lnext h y = head"
      using c snoc by (auto simp: chain_append)
    have "chain ?h head ys y \<longleftrightarrow> chain h head ys y"
      by (rule chain_cong) (use n dis snoc y in \<open>auto simp: list_add_sel\<close>)
    then show ?thesis
      using cy ly n dis snoc y by (auto simp: dlist_def chain_append list_add_sel)
  qed
qed

lemma dlist_rem_split:
  assumes d: "dlist h head (ys @ n # zs)"
  shows "dlist (list_rem head' n h) head (ys @ zs)"
proof -
  let ?h = "list_rem head' n h"
  have c1: "chain h head ys n" and c2: "chain h n zs head"
    and dis: "distinct (head # ys @ n # zs)"
    using d by (auto simp: dlist_def chain_append)
  have p: "lprev h n = last (head # ys)" using chain_last [OF c1] .
  have q: "lnext h n = hd (zs @ [head])" using chain_first [OF c2] .
  have "chain ?h head (ys @ zs) head"
  proof (cases zs)
    case Nil
    then have nh: "lnext h n = head" using q by simp
    show ?thesis
    proof (cases ys rule: rev_cases)
      case Nil
      then show ?thesis using p nh dis \<open>zs = []\<close> by (simp add: list_rem_sel)
    next
      case (snoc us u)
      have "chain ?h head us u \<longleftrightarrow> chain h head us u"
        by (rule chain_cong)
          (use dis snoc p nh \<open>zs = []\<close> in \<open>auto simp: list_rem_sel\<close>)
      with c1 snoc p nh dis \<open>zs = []\<close> show ?thesis
        by (auto simp: chain_append list_rem_sel)
    qed
  next
    case (Cons z zs')
    then have nz: "lnext h n = z" using q by simp
    have cz: "chain h z zs' head" using c2 Cons by simp
    have lp: "lprev h n \<in> set (head # ys)" using p by (metis last_in_set list.distinct(1))
    have cz': "chain ?h z zs' head \<longleftrightarrow> chain h z zs' head"
      by (rule chain_cong) (use dis Cons lp nz in \<open>auto simp: list_rem_sel\<close>)
    have "chain ?h head ys z"
    proof (cases ys rule: rev_cases)
      case Nil
      then show ?thesis using p nz dis Cons by (simp add: list_rem_sel)
    next
      case (snoc us u)
      have "chain ?h head us u \<longleftrightarrow> chain h head us u"
        by (rule chain_cong)
          (use dis snoc p nz Cons in \<open>auto simp: list_rem_sel\<close>)
      with c1 snoc p nz dis Cons show ?thesis
        by (auto simp: chain_append list_rem_sel)
    qed
    with cz cz' Cons show ?thesis by (simp add: chain_append)
  qed
  with dis show ?thesis by (auto simp: dlist_def)
qed

lemma dlist_rem:
  assumes "dlist h head xs" and "n \<in> set xs"
  shows "dlist (list_rem head' n h) head (remove1 n xs)"
proof -
  obtain ys zs where xs: "xs = ys @ n # zs" "n \<notin> set ys"
    using split_list_first [OF assms(2)] by blast
  show ?thesis using dlist_rem_split [of h head ys n zs] assms(1) xs
    by (simp add: remove1_append)
qed

lemma list_rem_self:
  "lnext (list_rem head n h) n = n" "lprev (list_rem head n h) n = n"
  by (simp_all add: list_rem_sel)

lemma dlist_rem_first:
  assumes "dlist h head xs"
  shows "list_rem_first head h =
    (case xs of [] \<Rightarrow> (None, h) | x # _ \<Rightarrow> (Some x, list_rem head x h))"
  using assms dlist_empty_iff [OF assms]
  by (cases xs) (auto simp: list_rem_first_def dlist_def Let_def)

lemma dlist_rem_last:
  assumes "dlist h head xs"
  shows "list_rem_last head h =
    (if xs = [] then (None, h) else (Some (last xs), list_rem head (last xs) h))"
proof -
  have "lprev h head = last (head # xs)"
    using assms chain_last by (auto simp: dlist_def)
  then show ?thesis
    using dlist_empty_iff [OF assms] by (auto simp: list_rem_last_def Let_def)
qed

text \<open>Frame: a list none of whose nodes is touched keeps its contents.\<close>

lemma dlist_add_frame:
  assumes "dlist h head xs" "dlist h k ys"
    and "n \<notin> set (k # ys)" "set (head # xs) \<inter> set (k # ys) = {}"
  shows "dlist (list_add head n h) k ys"
proof -
  have p: "lprev h head \<in> set (head # xs)"
    using assms(1) chain_last [of h head xs head] by (auto simp: dlist_def)
  then have "lprev h head \<notin> set (k # ys)" "head \<notin> set (k # ys)"
    using assms(4) by auto
  then have "chain (list_add head n h) k ys k \<longleftrightarrow> chain h k ys k"
    using assms(3) by (intro chain_cong) (auto simp: list_add_sel)
  with assms(2) show ?thesis by (simp add: dlist_def)
qed

lemma dlist_rem_frame:
  assumes "dlist h head xs" "n \<in> set xs" "dlist h k ys"
    and "set (head # xs) \<inter> set (k # ys) = {}"
  shows "dlist (list_rem head' n h) k ys"
proof -
  obtain us zs where xs: "xs = us @ n # zs" using assms(2) by (meson split_list)
  have c1: "chain h head us n" and c2: "chain h n zs head"
    using assms(1) xs by (auto simp: dlist_def chain_append)
  have "lprev h n \<in> set (head # us)" using chain_last [OF c1] by auto
  moreover have "lnext h n \<in> set (zs @ [head])"
    using chain_first [OF c2] by (cases zs) auto
  ultimately have "lprev h n \<notin> set (k # ys)" "lnext h n \<notin> set (k # ys)" "n \<notin> set (k # ys)"
    using assms(4) xs by auto
  then have "chain (list_rem head' n h) k ys k \<longleftrightarrow> chain h k ys k"
    by (intro chain_cong) (auto simp: list_rem_sel)
  with assms(3) show ?thesis by (simp add: dlist_def)
qed

lemma dlist_init_frame:
  assumes "dlist h k ys" "head \<notin> set (k # ys)"
  shows "dlist (list_init head h) k ys"
proof -
  have "chain (list_init head h) k ys k \<longleftrightarrow> chain h k ys k"
    using assms(2) by (intro chain_cong) (auto simp: list_init_def heap_simps)
  with assms(1) show ?thesis by (simp add: dlist_def)
qed

section \<open>Walking a list\<close>

lemma list_walk_chain:
  assumes "chain (hp s) pos' xs head" "pos' \<noteq> head \<or> xs = []" "head \<notin> set xs"
    and pres: "\<And>n s. n \<in> set xs \<Longrightarrow> hp (body n s) = hp s"
  shows "list_walk hp body head (lnext (hp s) pos') s = Some (fold body xs s)"
  using assms
proof (induction xs arbitrary: pos' s)
  case Nil
  then show ?case by (subst list_walk.simps) simp
next
  case (Cons x xs)
  have h: "hp (body x s) = hp s" using Cons.prems(4) by simp
  have "list_walk hp body head (lnext (hp (body x s)) x) (body x s) = Some (fold body xs (body x s))"
    by (rule Cons.IH) (use Cons.prems h in auto)
  with h Cons.prems show ?case by (subst list_walk.simps) (simp add: Let_def)
qed

text \<open>A walk whose body leaves the links alone visits every node once, in list order.\<close>

lemma list_for_each_fold:
  assumes "dlist (hp s) head xs" and "\<And>n s. n \<in> set xs \<Longrightarrow> hp (body n s) = hp s"
  shows "list_for_each hp body head s = Some (fold body xs s)"
proof (cases xs)
  case Nil
  with assms show ?thesis
    by (simp add: list_for_each_def dlist_def) (subst list_walk.simps, simp)
next
  case (Cons x ys)
  with assms(1) have c: "chain (hp s) x ys head" "lnext (hp s) head = x" "x \<noteq> head" "head \<notin> set ys"
    by (auto simp: dlist_def)
  have h: "hp (body x s) = hp s" using assms(2) Cons by simp
  have "list_walk hp body head (lnext (hp (body x s)) x) (body x s) = Some (fold body ys (body x s))"
    by (rule list_walk_chain) (use c h assms(2) Cons in auto)
  with c h show ?thesis
    unfolding list_for_each_def Cons by (subst list_walk.simps) (simp add: Let_def)
qed

text \<open>The macro reads the successor before the body, so a body that unlinks every node is safe.\<close>

lemma list_walk_unlink:
  assumes "dlist h head xs"
  shows "list_walk id (list_rem head) head (lnext h head) h = Some (fold (list_rem head) xs h)"
  using assms
proof (induction xs arbitrary: h)
  case Nil
  then show ?case by (subst list_walk.simps) (simp add: dlist_def)
next
  case (Cons x xs)
  have d: "dlist (list_rem head x h) head xs"
    using dlist_rem [OF Cons.prems, of x head] by simp
  have x: "lnext h head = x" "x \<noteq> head" "lprev h x = head"
    and q: "lnext h x = hd (xs @ [head])"
    using Cons.prems chain_first by (auto simp: dlist_def)
  have n: "lnext (list_rem head x h) head = lnext h x"
    using x by (simp add: list_rem_sel)
  show ?case
    using Cons.IH [OF d] x n by (subst list_walk.simps) (simp add: Let_def id_def)
qed

lemma fold_list_rem_empty:
  "dlist h head xs \<Longrightarrow> dlist (fold (list_rem head) xs h) head []"
proof (induction xs arbitrary: h)
  case (Cons x xs)
  from dlist_rem [OF Cons.prems, of x head] Cons.IH show ?case by simp
qed simp

section \<open>Families of lists in one heap\<close>

text \<open>
  Several lists live in one heap (the subpools of an object pool, the queue lists of all EOs and
  queue groups). \<^verbatim>\<open>family repr h H c\<close> says that the head \<^verbatim>\<open>k\<close> of each list in \<^verbatim>\<open>H\<close> carries the
  nodes \<^verbatim>\<open>c k\<close> and that no node is on two lists.
\<close>

definition family ::
  "('h \<Rightarrow> ptr \<Rightarrow> ptr list \<Rightarrow> bool) \<Rightarrow> 'h \<Rightarrow> ptr set \<Rightarrow> (ptr \<Rightarrow> ptr list) \<Rightarrow> bool" where
  "family repr h H c \<longleftrightarrow>
     (\<forall>k\<in>H. repr h k (c k)) \<and>
     (\<forall>k\<in>H. \<forall>k'\<in>H. k \<noteq> k' \<longrightarrow> set (k # c k) \<inter> set (k' # c k') = {})"

definition family_nodes :: "ptr set \<Rightarrow> (ptr \<Rightarrow> ptr list) \<Rightarrow> ptr set" where
  "family_nodes H c = (\<Union>k\<in>H. set (c k))"

lemma family_nodes_upd:
  "k \<in> H \<Longrightarrow> family_nodes H (c(k := xs)) = set xs \<union> family_nodes (H - {k}) c"
  by (auto simp: family_nodes_def split: if_splits)

lemma family_repr: "family repr h H c \<Longrightarrow> k \<in> H \<Longrightarrow> repr h k (c k)"
  by (simp add: family_def)

lemma family_shrink:
  assumes "\<And>k. k \<in> H \<Longrightarrow> repr h' k (c' k)" "\<And>k. set (c' k) \<subseteq> set (c k)" "family repr h H c"
  shows "family repr h' H c'"
proof -
  have "set (k # c' k) \<inter> set (k' # c' k') = {}" if "k \<in> H" "k' \<in> H" "k \<noteq> k'" for k k'
  proof -
    have "set (k # c k) \<inter> set (k' # c k') = {}" using that assms(3) by (auto simp: family_def)
    then show ?thesis using assms(2) [of k] assms(2) [of k'] by auto
  qed
  then show ?thesis using assms(1) by (simp add: family_def)
qed

lemma family_disjoint:
  "family repr h H c \<Longrightarrow> k \<in> H \<Longrightarrow> k' \<in> H \<Longrightarrow> k \<noteq> k' \<Longrightarrow>
   set (k # c k) \<inter> set (k' # c k') = {}"
  unfolding family_def by blast

locale node_lists =
  fixes repr :: "'h \<Rightarrow> ptr \<Rightarrow> ptr list \<Rightarrow> bool"
    and init :: "ptr \<Rightarrow> 'h \<Rightarrow> 'h"
    and add :: "ptr \<Rightarrow> ptr \<Rightarrow> 'h \<Rightarrow> 'h"
    and rem :: "ptr \<Rightarrow> ptr \<Rightarrow> 'h \<Rightarrow> 'h"
    and rem_first :: "ptr \<Rightarrow> 'h \<Rightarrow> ptr option \<times> 'h"
  assumes repr_distinct: "repr h k xs \<Longrightarrow> distinct (k # xs)"
    and init_repr: "repr (init k h) k []"
    and init_frame: "repr h k' ys \<Longrightarrow> k \<notin> set (k' # ys) \<Longrightarrow> repr (init k h) k' ys"
    and add_repr: "repr h k xs \<Longrightarrow> n \<noteq> k \<Longrightarrow> n \<notin> set xs \<Longrightarrow> repr (add k n h) k (xs @ [n])"
    and add_frame: "repr h k xs \<Longrightarrow> repr h k' ys \<Longrightarrow> n \<notin> set (k' # ys) \<Longrightarrow>
          set (k # xs) \<inter> set (k' # ys) = {} \<Longrightarrow> repr (add k n h) k' ys"
    and rem_repr: "repr h k xs \<Longrightarrow> n \<in> set xs \<Longrightarrow> repr (rem k n h) k (remove1 n xs)"
    and rem_frame: "repr h k xs \<Longrightarrow> n \<in> set xs \<Longrightarrow> repr h k' ys \<Longrightarrow>
          set (k # xs) \<inter> set (k' # ys) = {} \<Longrightarrow> repr (rem k n h) k' ys"
    and rem_first_repr: "repr h k xs \<Longrightarrow> rem_first k h =
          (case xs of [] \<Rightarrow> (None, h) | x # _ \<Rightarrow> (Some x, rem k x h))"
begin

lemma family_distinct: "family repr h H c \<Longrightarrow> k \<in> H \<Longrightarrow> distinct (k # c k)"
  unfolding family_def using repr_distinct by blast

lemma family_unique:
  "family repr h H c \<Longrightarrow> k \<in> H \<Longrightarrow> k' \<in> H \<Longrightarrow> n \<in> set (c k) \<Longrightarrow> n \<in> set (c k') \<Longrightarrow> k = k'"
  unfolding family_def by (metis disjoint_iff list.set_intros(2))

lemma family_head_not_node:
  "family repr h H c \<Longrightarrow> k \<in> H \<Longrightarrow> k' \<in> H \<Longrightarrow> k \<notin> set (c k')"
  using family_distinct [of h H c k'] unfolding family_def
  by (metis disjoint_iff distinct.simps(2) list.set_intros(1,2))

lemma family_add:
  assumes f: "family repr h H c" and k: "k \<in> H"
    and n: "n \<notin> H" "n \<notin> family_nodes H c"
  shows "family repr (add k n h) H (c(k := c k @ [n]))"
proof -
  have "repr (add k n h) k' ((c(k := c k @ [n])) k')" if k': "k' \<in> H" for k'
  proof (cases "k' = k")
    case True
    then show ?thesis using f k n unfolding family_def family_nodes_def
      by (auto intro!: add_repr)
  next
    case False
    have "n \<notin> set (k' # c k')" using n k' by (auto simp: family_nodes_def)
    with False show ?thesis
      using add_frame [OF family_repr [OF f k] family_repr [OF f k'] _ family_disjoint [OF f k k']]
      by auto
  qed
  then show ?thesis
    using f k n unfolding family_def family_nodes_def
    by simp (metis disjoint_iff list.set_intros)
qed

lemma family_rem:
  assumes f: "family repr h H c" and k: "k \<in> H" and n: "n \<in> set (c k)"
  shows "family repr (rem k n h) H (c(k := remove1 n (c k)))"
proof -
  have "repr (rem k n h) k' ((c(k := remove1 n (c k))) k')" if k': "k' \<in> H" for k'
    using rem_repr [OF family_repr [OF f k] n]
      rem_frame [OF family_repr [OF f k] n family_repr [OF f k'] family_disjoint [OF f k k']]
    by (cases "k' = k") auto
  moreover have "set ((c(k := remove1 n (c k))) j) \<subseteq> set (c j)" for j
    using set_remove1_subset [of n "c j"] by auto
  ultimately show ?thesis using f by (rule family_shrink)
qed

lemma family_init:
  assumes f: "family repr h H c" and k: "k \<notin> H" "k \<notin> family_nodes H c"
  shows "family repr (init k h) (insert k H) (c(k := []))"
proof -
  have "repr (init k h) k' ((c(k := [])) k')" if "k' \<in> insert k H" for k'
    using that f k unfolding family_def family_nodes_def
    by (cases "k' = k") (auto intro!: init_repr init_frame)
  then show ?thesis using f k unfolding family_def family_nodes_def by auto
qed

lemma family_empty: "family repr h {} c"
  by (simp add: family_def)

lemma family_rem_first:
  assumes f: "family repr h H c" and k: "k \<in> H"
  shows "rem_first k h = (case c k of [] \<Rightarrow> (None, h) | x # _ \<Rightarrow> (Some x, rem k x h))"
  using f k by (auto simp: family_def intro: rem_first_repr)

lemma family_rem_first_Cons:
  assumes f: "family repr h H c" and k: "k \<in> H" and c: "c k = x # xs"
  shows "rem_first k h = (Some x, rem k x h)"
    and "family repr (rem k x h) H (c(k := xs))"
  using family_rem_first [OF f k] family_rem [OF f k, of x] c by auto

end

interpretation dl: node_lists dlist list_init list_add list_rem list_rem_first
proof (unfold_locales, goal_cases)
  case (1 h k xs)
  then show ?case by (simp add: dlist_def)
next
  case (5 h k xs k' ys n)
  then show ?case by (rule dlist_add_frame)
next
  case (7 h k xs n k' ys)
  then show ?case by (rule dlist_rem_frame)
qed (auto simp: dlist_init dlist_rem_first intro: dlist_add dlist_rem dlist_init_frame)

section \<open>Properties\<close>

datatype list_op = Add ptr | Rem ptr | RemFirst | RemLast

fun list_run :: "ptr \<Rightarrow> list_op list \<Rightarrow> lheap \<Rightarrow> ptr option list \<times> lheap" where
  "list_run head [] h = ([], h)"
| "list_run head (Add n # ops) h =
     (let (outs, h') = list_run head ops (list_add head n h) in (None # outs, h'))"
| "list_run head (Rem n # ops) h =
     (let (outs, h') = list_run head ops (list_rem head n h) in (None # outs, h'))"
| "list_run head (RemFirst # ops) h =
     (let (r, h1) = list_rem_first head h; (outs, h') = list_run head ops h1 in (r # outs, h'))"
| "list_run head (RemLast # ops) h =
     (let (r, h1) = list_rem_last head h; (outs, h') = list_run head ops h1 in (r # outs, h'))"

text \<open>The deque the list stands for. Adding a linked node or removing an unlinked one is a misuse.\<close>

fun deque_run :: "list_op list \<Rightarrow> ptr list \<Rightarrow> ptr option list \<times> ptr list" where
  "deque_run [] xs = ([], xs)"
| "deque_run (Add n # ops) xs = (let (outs, ys) = deque_run ops (xs @ [n]) in (None # outs, ys))"
| "deque_run (Rem n # ops) xs = (let (outs, ys) = deque_run ops (remove1 n xs) in (None # outs, ys))"
| "deque_run (RemFirst # ops) xs =
     (let (outs, ys) = deque_run ops (tl xs) in ((if xs = [] then None else Some (hd xs)) # outs, ys))"
| "deque_run (RemLast # ops) xs =
     (let (outs, ys) = deque_run ops (butlast xs)
      in ((if xs = [] then None else Some (last xs)) # outs, ys))"

fun ops_legal :: "ptr \<Rightarrow> list_op list \<Rightarrow> ptr list \<Rightarrow> bool" where
  "ops_legal head [] xs = True"
| "ops_legal head (Add n # ops) xs = (n \<noteq> head \<and> n \<notin> set xs \<and> ops_legal head ops (xs @ [n]))"
| "ops_legal head (Rem n # ops) xs = (n \<in> set xs \<and> ops_legal head ops (remove1 n xs))"
| "ops_legal head (RemFirst # ops) xs = ops_legal head ops (tl xs)"
| "ops_legal head (RemLast # ops) xs = ops_legal head ops (butlast xs)"

lemma remove1_last: "distinct xs \<Longrightarrow> xs \<noteq> [] \<Longrightarrow> remove1 (last xs) xs = butlast xs"
  by (induction xs rule: rev_induct) (auto simp: remove1_append)

text \<open>
  C20: The pointer list implements a deque. For every legal sequence of additions, removals of a linked
  node, and removals from either end, the next/prev stores of \<^verbatim>\<open>list.h\<close> return the same nodes as the
  deque and leave the links of its contents; an empty list gives NULL and is unchanged.
\<close>

theorem list_implements_deque:
  assumes "dlist h head xs" "ops_legal head ops xs"
  shows "\<exists>outs ys h'. deque_run ops xs = (outs, ys) \<and> list_run head ops h = (outs, h') \<and> dlist h' head ys"
  using assms
proof (induction ops arbitrary: h xs)
  case Nil
  then show ?case by simp
next
  case (Cons op ops)
  show ?case
  proof (cases op)
    case (Add n)
    then show ?thesis using Cons.IH [OF dlist_add [OF Cons.prems(1), of n]] Cons.prems(2) by auto
  next
    case (Rem n)
    then show ?thesis using Cons.IH [OF dlist_rem [OF Cons.prems(1), of n head]] Cons.prems(2) by auto
  next
    case RemFirst
    then show ?thesis
      using dlist_rem_first [OF Cons.prems(1)] dlist_rem [OF Cons.prems(1), of "hd xs" head] Cons
      by (cases xs) (fastforce split: prod.splits)+
  next
    case RemLast
    have d: "distinct xs" using Cons.prems(1) by (simp add: dlist_def)
    show ?thesis
    proof (cases "xs = []")
      case True
      then show ?thesis
        using RemLast dlist_rem_last [OF Cons.prems(1)] Cons by (fastforce split: prod.splits)
    next
      case False
      have "dlist (list_rem head (last xs) h) head (butlast xs)"
        using dlist_rem [OF Cons.prems(1), of "last xs" head] remove1_last [OF d False] False by simp
      then show ?thesis
        using False RemLast dlist_rem_last [OF Cons.prems(1)] Cons.IH Cons.prems(2)
        by (fastforce split: prod.splits)
    qed
  qed
qed

definition empty_heap :: lheap where
  "empty_heap = \<lparr>lnext = id, lprev = id\<rparr>"

theorem list_implements_deque_witness:
  "\<exists>outs ys h'. deque_run [Add 1, Add 2, Add 3, RemFirst, Rem 3, RemLast, RemFirst] [] = (outs, ys) \<and>
     list_run 9 [Add 1, Add 2, Add 3, RemFirst, Rem 3, RemLast, RemFirst] (list_init 9 empty_heap)
       = (outs, h') \<and> dlist h' 9 ys"
  by (rule list_implements_deque [OF dlist_init]) simp

text \<open>
  The iteration macro tolerates unlinking. Walking a list with a body that unlinks the current
  node ends, visits every node in order, and leaves the list empty with every visited node linked
  to itself.
\<close>

theorem list_for_each_unlink:
  assumes "dlist h head xs"
  shows "\<exists>h'. list_for_each id (list_rem head) head h = Some h' \<and>
    h' = fold (list_rem head) xs h \<and> dlist h' head [] \<and> list_is_empty head h'"
proof -
  have "list_for_each id (list_rem head) head h = Some (fold (list_rem head) xs h)"
    using list_walk_unlink [OF assms] by (simp add: list_for_each_def)
  then show ?thesis
    using fold_list_rem_empty [OF assms] dlist_empty_iff by blast
qed

theorem list_for_each_unlink_witness:
  "\<exists>h'. list_for_each id (list_rem 9) 9 (list_add 9 2 (list_add 9 1 (list_init 9 empty_heap))) = Some h' \<and>
    h' = fold (list_rem 9) [1, 2] (list_add 9 2 (list_add 9 1 (list_init 9 empty_heap))) \<and>
    dlist h' 9 [] \<and> list_is_empty 9 h'"
  by (rule list_for_each_unlink)
    (use dlist_add [OF dlist_add [OF dlist_init, of 1 9], of 2] in simp)

end
