(* ===== verification/ObjPool.thy ===== *)
theory ObjPool
  imports IntrusiveList
begin

text \<open>
  The object pool of \<^verbatim>\<open>src/src/misc/objpool.c\<close>: up to eight subpools, each a list of free elements
  under its own lock. The element fields \<^verbatim>\<open>subpool_idx\<close> and \<^verbatim>\<open>in_pool\<close> live in the shared memory
  \<^verbatim>\<open>pool_mem\<close> beside the list links (several pools may share it), \<^verbatim>\<open>objpool\<close> holds the list heads and
  \<^verbatim>\<open>nbr_subpools\<close>. Each operation on a subpool is one critical section of the source.
  \<^verbatim>\<open>pool_repr\<close> is the well-formedness invariant with the free elements of every subpool made
  explicit; the locale \<^verbatim>\<open>obj_alloc\<close> is the allocator contract used by the tables of EOs, queues,
  queue groups and atomic groups.
\<close>

section \<open>State and operations\<close>

definition OBJSUBPOOLS_MAX :: u32 where "OBJSUBPOOLS_MAX = 8"

record objpool_elem =
  subpool_idx :: u32
  in_pool :: u32

record pool_mem =
  pm_heap :: lheap
  pm_elem :: "ptr \<Rightarrow> objpool_elem"

record objpool =
  op_heads :: "ptr list"
  nbr_subpools :: u32

definition set_elem :: "(objpool_elem \<Rightarrow> objpool_elem) \<Rightarrow> ptr \<Rightarrow> pool_mem \<Rightarrow> pool_mem" where
  "set_elem f n m = m\<lparr>pm_elem := (pm_elem m)(n := f (pm_elem m n))\<rparr>"

fun init_subpools :: "ptr list \<Rightarrow> nat \<Rightarrow> nat \<Rightarrow> lheap \<Rightarrow> lheap" where
  "init_subpools heads i 0 h = h"
| "init_subpools heads i (Suc k) h = init_subpools heads (Suc i) k (list_init (heads ! i) h)"

definition objpool_init ::
  "objpool option \<Rightarrow> u32 \<Rightarrow> pool_mem \<Rightarrow> int \<times> objpool option \<times> pool_mem" where
  "objpool_init pool n m =
     (case pool of
        None \<Rightarrow> (-1, None, m)
      | Some p \<Rightarrow>
          if n = 0 then (-1, Some p, m)
          else (let n' = (if n > OBJSUBPOOLS_MAX then OBJSUBPOOLS_MAX else n);
                    p' = p\<lparr>nbr_subpools := n'\<rparr>
                in (0, Some p',
                    m\<lparr>pm_heap := init_subpools (op_heads p') 0 (unat n') (pm_heap m)\<rparr>)))"

definition objpool_subpools :: "objpool \<Rightarrow> u32" where
  "objpool_subpools p = nbr_subpools p"

definition objpool_add :: "objpool \<Rightarrow> u32 \<Rightarrow> ptr \<Rightarrow> pool_mem \<Rightarrow> pool_mem" where
  "objpool_add p spidx elem m =
     (let idx = spidx mod nbr_subpools p;
          head = op_heads p ! unat idx;
          m1 = set_elem (\<lambda>e. e\<lparr>subpool_idx := idx\<rparr>) elem m;
          m2 = m1\<lparr>pm_heap := list_add head elem (pm_heap m1)\<rparr>
      in set_elem (\<lambda>e. e\<lparr>in_pool := 1\<rparr>) elem m2)"

text \<open>
  \<^verbatim>\<open>objpool_node2elem\<close> subtracts the offset of \<^verbatim>\<open>list_node\<close>, the first member of the element: the
  address of the node is the address of the element.
\<close>

definition objpool_node2elem :: "ptr \<Rightarrow> ptr" where
  "objpool_node2elem node = node - 0"

definition objpool_rem_subpool :: "objpool \<Rightarrow> u32 \<Rightarrow> pool_mem \<Rightarrow> ptr option \<times> pool_mem" where
  "objpool_rem_subpool p idx m =
     (case list_rem_first (op_heads p ! unat idx) (pm_heap m) of
        (None, h) \<Rightarrow> (None, m\<lparr>pm_heap := h\<rparr>)
      | (Some node, h) \<Rightarrow>
          let elem = objpool_node2elem node
          in (Some elem, set_elem (\<lambda>e. e\<lparr>in_pool := 0\<rparr>) elem (m\<lparr>pm_heap := h\<rparr>)))"

text \<open>The loop counter \<^verbatim>\<open>i\<close> and the sum \<^verbatim>\<open>subpool_idx + i\<close> are 32 bits wide, as in the source.\<close>

fun objpool_rem_loop ::
  "objpool \<Rightarrow> u32 \<Rightarrow> u32 \<Rightarrow> nat \<Rightarrow> pool_mem \<Rightarrow> ptr option \<times> pool_mem" where
  "objpool_rem_loop p spidx i 0 m = (None, m)"
| "objpool_rem_loop p spidx i (Suc k) m =
     (let idx = (spidx + i) mod nbr_subpools p
      in case objpool_rem_subpool p idx m of
           (Some elem, m') \<Rightarrow> (Some elem, m')
         | (None, m') \<Rightarrow> objpool_rem_loop p spidx (i + 1) k m')"

definition objpool_rem :: "objpool \<Rightarrow> u32 \<Rightarrow> pool_mem \<Rightarrow> ptr option \<times> pool_mem" where
  "objpool_rem p spidx m = objpool_rem_loop p spidx 0 (unat (nbr_subpools p)) m"

definition objpool_rem_elem :: "objpool \<Rightarrow> ptr \<Rightarrow> pool_mem \<Rightarrow> int \<times> pool_mem" where
  "objpool_rem_elem p elem m =
     (let idx = subpool_idx (pm_elem m elem);
          head = op_heads p ! unat idx
      in if in_pool (pm_elem m elem) \<noteq> 0
         then (0, set_elem (\<lambda>e. e\<lparr>in_pool := 0\<rparr>) elem
                    (m\<lparr>pm_heap := list_rem head elem (pm_heap m)\<rparr>))
         else (-1, m))"

definition objpool_in_pool :: "ptr \<Rightarrow> pool_mem \<Rightarrow> u32" where
  "objpool_in_pool elem m = in_pool (pm_elem m elem)"

section \<open>The representation invariant\<close>

definition active_heads :: "objpool \<Rightarrow> ptr set" where
  "active_heads p = set (take (unat (nbr_subpools p)) (op_heads p))"

definition pool_shape :: "objpool \<Rightarrow> ptr set \<Rightarrow> bool" where
  "pool_shape p E \<longleftrightarrow>
     1 \<le> unat (nbr_subpools p) \<and> unat (nbr_subpools p) \<le> length (op_heads p) \<and>
     distinct (op_heads p) \<and> E \<inter> set (op_heads p) = {}"

text \<open>
  \<^verbatim>\<open>pool_repr p E c m\<close>: the elements \<^verbatim>\<open>E\<close> belong to the pool, the list at head \<^verbatim>\<open>k\<close> links the
  free elements \<^verbatim>\<open>c k\<close>, and the element fields agree with the list membership.
\<close>

definition pool_repr :: "objpool \<Rightarrow> ptr set \<Rightarrow> (ptr \<Rightarrow> ptr list) \<Rightarrow> pool_mem \<Rightarrow> bool" where
  "pool_repr p E c m \<longleftrightarrow>
     pool_shape p E \<and>
     family dlist (pm_heap m) (active_heads p) c \<and>
     family_nodes (active_heads p) c \<subseteq> E \<and>
     (\<forall>n\<in>E. in_pool (pm_elem m n) \<noteq> 0 \<longleftrightarrow> n \<in> family_nodes (active_heads p) c) \<and>
     (\<forall>i<unat (nbr_subpools p). \<forall>n\<in>set (c (op_heads p ! i)). subpool_idx (pm_elem m n) = word_of_nat i)"

definition free_elems :: "objpool \<Rightarrow> (ptr \<Rightarrow> ptr list) \<Rightarrow> ptr set" where
  "free_elems p c = family_nodes (active_heads p) c"

lemma set_elem_sel [simp]:
  "pm_heap (set_elem f n m) = pm_heap m"
  "pm_elem (set_elem f n m) = (pm_elem m)(n := f (pm_elem m n))"
  by (simp_all add: set_elem_def)

lemma head_active:
  "pool_shape p E \<Longrightarrow> i < unat (nbr_subpools p) \<Longrightarrow> op_heads p ! i \<in> active_heads p"
  unfolding pool_shape_def active_heads_def by (auto simp: in_set_conv_nth intro!: exI [of _ i])

lemma head_inj:
  "pool_shape p E \<Longrightarrow> i < unat (nbr_subpools p) \<Longrightarrow> j < unat (nbr_subpools p) \<Longrightarrow>
   op_heads p ! i = op_heads p ! j \<Longrightarrow> i = j"
  unfolding pool_shape_def by (auto simp: nth_eq_iff_index_eq)

lemma active_headE:
  assumes "pool_shape p E" "k \<in> active_heads p"
  obtains i where "i < unat (nbr_subpools p)" "k = op_heads p ! i"
  using assms unfolding pool_shape_def active_heads_def by (auto simp: in_set_conv_nth)

lemma head_not_elem:
  "pool_shape p E \<Longrightarrow> n \<in> E \<Longrightarrow> n \<notin> active_heads p"
  unfolding pool_shape_def active_heads_def by (auto dest: in_set_takeD)

lemma mod_lt_nbr:
  "pool_shape p E \<Longrightarrow> unat (x mod nbr_subpools p) < unat (nbr_subpools p)"
  unfolding pool_shape_def by (simp add: unat_mod)

section \<open>Initialisation\<close>

lemma init_subpools_family:
  assumes "distinct heads" "i + k \<le> length heads"
    and "family dlist h (set (take i heads)) (\<lambda>_. [])"
  shows "family dlist (init_subpools heads i k h) (set (take (i + k) heads)) (\<lambda>_. [])"
  using assms
proof (induction heads i k h rule: init_subpools.induct)
  case (1 heads i h)
  then show ?case by simp
next
  case (2 heads i k h)
  have lt: "i < length heads" using 2 by simp
  have ni: "heads ! i \<notin> set (take i heads)"
    using 2(2) lt by (auto simp: in_set_conv_nth nth_eq_iff_index_eq)
  have "family dlist (list_init (heads ! i) h) (insert (heads ! i) (set (take i heads)))
          ((\<lambda>_. [])(heads ! i := []))"
    by (rule dl.family_init) (use 2 ni in \<open>auto simp: family_nodes_def\<close>)
  moreover have "insert (heads ! i) (set (take i heads)) = set (take (Suc i) heads)"
    using lt by (simp add: take_Suc_conv_app_nth)
  ultimately show ?case using 2 by (simp add: fun_upd_idem)
qed

lemma objpool_init_repr:
  assumes p: "distinct (op_heads p)" "length (op_heads p) = unat OBJSUBPOOLS_MAX"
    and E: "E \<inter> set (op_heads p) = {}" "\<forall>n\<in>E. in_pool (pm_elem m n) = 0"
    and n: "n \<noteq> 0"
  shows "\<exists>p' m'. objpool_init (Some p) n m = (0, Some p', m') \<and>
           pool_repr p' E (\<lambda>_. []) m' \<and> nbr_subpools p' = min n OBJSUBPOOLS_MAX \<and>
           op_heads p' = op_heads p"
proof -
  let ?n = "if n > OBJSUBPOOLS_MAX then OBJSUBPOOLS_MAX else n"
  let ?p = "p\<lparr>nbr_subpools := ?n\<rparr>"
  let ?m = "m\<lparr>pm_heap := init_subpools (op_heads p) 0 (unat ?n) (pm_heap m)\<rparr>"
  have n8: "unat ?n \<le> 8" "1 \<le> unat ?n"
    using n by (auto simp: OBJSUBPOOLS_MAX_def word_less_nat_alt Suc_le_eq unat_gt_0)
  have "family dlist (pm_heap ?m) (set (take (0 + unat ?n) (op_heads p))) (\<lambda>_. [])"
    using init_subpools_family [of "op_heads p" 0 "unat ?n" "pm_heap m"] p n8
    by (simp add: family_def OBJSUBPOOLS_MAX_def)
  then have "pool_repr ?p E (\<lambda>_. []) ?m"
    using p E n8
    by (auto simp: pool_repr_def pool_shape_def active_heads_def family_nodes_def OBJSUBPOOLS_MAX_def)
  moreover have "objpool_init (Some p) n m = (0, Some ?p, ?m)"
    using n by (simp add: objpool_init_def Let_def)
  ultimately show ?thesis by (auto simp: min_def)
qed

section \<open>Adding and removing elements\<close>

lemma pool_reprD:
  assumes "pool_repr p E c m"
  shows pool_repr_shape: "pool_shape p E"
    and pool_repr_family: "family dlist (pm_heap m) (active_heads p) c"
    and pool_repr_sub: "free_elems p c \<subseteq> E"
    and pool_repr_in_pool: "n \<in> E \<Longrightarrow> in_pool (pm_elem m n) \<noteq> 0 \<longleftrightarrow> n \<in> free_elems p c"
    and pool_repr_idx: "i < unat (nbr_subpools p) \<Longrightarrow> n \<in> set (c (op_heads p ! i)) \<Longrightarrow>
          subpool_idx (pm_elem m n) = word_of_nat i"
  using assms by (auto simp: pool_repr_def free_elems_def)

lemma free_elems_idx:
  assumes "pool_repr p E c m" "n \<in> free_elems p c"
  obtains i where "i < unat (nbr_subpools p)" "n \<in> set (c (op_heads p ! i))"
    "unat (subpool_idx (pm_elem m n)) = i"
proof -
  obtain k where k: "k \<in> active_heads p" "n \<in> set (c k)"
    using assms(2) by (auto simp: free_elems_def family_nodes_def)
  obtain i where i: "i < unat (nbr_subpools p)" "k = op_heads p ! i"
    using active_headE [OF pool_repr_shape [OF assms(1)] k(1)] .
  have "i < 2 ^ 32" using i(1) unat_lt_len [of "nbr_subpools p"] by simp
  moreover have "subpool_idx (pm_elem m n) = word_of_nat i"
    using pool_repr_idx [OF assms(1) i(1)] k(2) i(2) by simp
  ultimately have "unat (subpool_idx (pm_elem m n)) = i"
    by (simp add: unat_of_nat_small)
  with that i k show ?thesis by blast
qed

lemma family_nodes_update:
  "k \<in> H \<Longrightarrow> \<forall>k'\<in>H. k' \<noteq> k \<longrightarrow> x \<notin> set (c k') \<Longrightarrow>
   x \<in> family_nodes H (c(k := xs)) \<longleftrightarrow> x \<in> set xs"
  by (auto simp: family_nodes_def split: if_splits)

lemma free_elems_add:
  "k \<in> active_heads p \<Longrightarrow> free_elems p (c(k := c k @ [n])) = insert n (free_elems p c)"
  by (auto simp: free_elems_def family_nodes_def split: if_splits)

lemma free_elems_remove:
  assumes f: "family dlist h (active_heads p) c" and k: "k \<in> active_heads p" and n: "n \<in> set (c k)"
  shows "free_elems p (c(k := remove1 n (c k))) = free_elems p c - {n}"
proof -
  have d: "distinct (c k)" using dl.family_distinct [OF f k] by simp
  have u: "n \<notin> set (c k')" if "k' \<in> active_heads p" "k' \<noteq> k" for k'
    using dl.family_unique [OF f that(1) k _ n] that(2) by blast
  show ?thesis
    using d u k by (auto simp: free_elems_def family_nodes_def split: if_splits)
qed

lemma objpool_add_repr:
  fixes spidx :: u32
  assumes r: "pool_repr p E c m" and n: "n \<in> E" "in_pool (pm_elem m n) = 0"
  defines "k \<equiv> op_heads p ! unat (spidx mod nbr_subpools p)"
  shows "pool_repr p E (c(k := c k @ [n])) (objpool_add p spidx n m)"
proof -
  note sh = pool_repr_shape [OF r]
  have k: "k \<in> active_heads p" unfolding k_def by (rule head_active [OF sh mod_lt_nbr [OF sh]])
  have nf: "n \<notin> free_elems p c" using pool_repr_in_pool [OF r n(1)] n(2) by simp
  have "family dlist (list_add k n (pm_heap m)) (active_heads p) (c(k := c k @ [n]))"
    by (rule dl.family_add [OF pool_repr_family [OF r] k])
      (use head_not_elem [OF sh n(1)] nf in \<open>auto simp: free_elems_def\<close>)
  moreover have "subpool_idx (pm_elem (objpool_add p spidx n m) x) = word_of_nat i"
    if i: "i < unat (nbr_subpools p)" and x: "x \<in> set ((c(k := c k @ [n])) (op_heads p ! i))" for i x
  proof (cases "x = n")
    case True
    have "op_heads p ! i = k"
      using x True nf i head_active [OF sh i]
      by (auto simp: free_elems_def family_nodes_def split: if_splits)
    then have "i = unat (spidx mod nbr_subpools p)"
      using head_inj [OF sh i mod_lt_nbr [OF sh]] by (simp add: k_def)
    with True show ?thesis by (simp add: objpool_add_def Let_def)
  next
    case False
    with x have "x \<in> set (c (op_heads p ! i))" by (auto split: if_splits)
    with False show ?thesis using pool_repr_idx [OF r i] by (simp add: objpool_add_def Let_def)
  qed
  ultimately show ?thesis
    using r n free_elems_add [OF k, of c n]
    by (auto simp: pool_repr_def objpool_add_def Let_def k_def [symmetric] free_elems_def)
qed

text \<open>Unlinking one free element, the common step of both remove operations.\<close>

lemma unlink_repr:
  fixes i :: nat
  assumes r: "pool_repr p E c m" and i: "i < unat (nbr_subpools p)"
    and n: "n \<in> set (c (op_heads p ! i))"
  defines "k \<equiv> op_heads p ! i"
  shows "pool_repr p E (c(k := remove1 n (c k)))
           (set_elem (\<lambda>e. e\<lparr>in_pool := 0\<rparr>) n (m\<lparr>pm_heap := list_rem k n (pm_heap m)\<rparr>))"
proof -
  note sh = pool_repr_shape [OF r]
  have k: "k \<in> active_heads p" unfolding k_def by (rule head_active [OF sh i])
  have nk: "n \<in> set (c k)" using n by (simp add: k_def)
  note fe = free_elems_remove [OF pool_repr_family [OF r] k nk]
  have "family dlist (list_rem k n (pm_heap m)) (active_heads p) (c(k := remove1 n (c k)))"
    by (rule dl.family_rem [OF pool_repr_family [OF r] k nk])
  moreover have "subpool_idx (pm_elem m x) = word_of_nat j"
    if "j < unat (nbr_subpools p)" "x \<in> set ((c(k := remove1 n (c k))) (op_heads p ! j))" for j x
    using that pool_repr_idx [OF r that(1)] by (auto dest: notin_set_remove1 split: if_splits)
  moreover have "n \<in> E" using pool_repr_sub [OF r] nk k by (auto simp: free_elems_def family_nodes_def)
  ultimately show ?thesis
    using r fe by (auto simp: pool_repr_def free_elems_def)
qed

lemma rem_subpool_repr:
  fixes idx :: u32
  assumes r: "pool_repr p E c m" and i: "unat idx < unat (nbr_subpools p)"
  defines "k \<equiv> op_heads p ! unat idx"
  shows "objpool_rem_subpool p idx m =
    (case c k of [] \<Rightarrow> (None, m)
     | x # xs \<Rightarrow> (Some x, set_elem (\<lambda>e. e\<lparr>in_pool := 0\<rparr>) x
                    (m\<lparr>pm_heap := list_rem k x (pm_heap m)\<rparr>)))"
  using dl.family_rem_first [OF pool_repr_family [OF r] head_active [OF pool_repr_shape [OF r] i]]
  by (auto simp: objpool_rem_subpool_def objpool_node2elem_def k_def Let_def split: list.splits)

text \<open>The subpools in the order the loop visits them, and the element the loop takes.\<close>

fun scan_order :: "objpool \<Rightarrow> u32 \<Rightarrow> u32 \<Rightarrow> nat \<Rightarrow> nat list" where
  "scan_order p spidx i 0 = []"
| "scan_order p spidx i (Suc k) =
     unat ((spidx + i) mod nbr_subpools p) # scan_order p spidx (i + 1) k"

definition scan_elems :: "objpool \<Rightarrow> (ptr \<Rightarrow> ptr list) \<Rightarrow> nat list \<Rightarrow> ptr list" where
  "scan_elems p c is = concat (map (\<lambda>i. c (op_heads p ! i)) is)"

lemma scan_order_lt:
  "pool_shape p E \<Longrightarrow> i \<in> set (scan_order p spidx j k) \<Longrightarrow> i < unat (nbr_subpools p)"
  by (induction p spidx j k rule: scan_order.induct) (auto simp: mod_lt_nbr)

lemma objpool_rem_loop_repr:
  assumes r: "pool_repr p E c m"
  shows "case scan_elems p c (scan_order p spidx i k) of
      [] \<Rightarrow> objpool_rem_loop p spidx i k m = (None, m)
    | x # _ \<Rightarrow> \<exists>m' j. objpool_rem_loop p spidx i k m = (Some x, m') \<and>
        j < unat (nbr_subpools p) \<and> x \<in> set (c (op_heads p ! j)) \<and>
        pool_repr p E (c(op_heads p ! j := remove1 x (c (op_heads p ! j)))) m'"
proof (induction k arbitrary: i)
  case 0
  then show ?case by (simp add: scan_elems_def)
next
  case (Suc k)
  let ?idx = "(spidx + i) mod nbr_subpools p"
  have lt: "unat ?idx < unat (nbr_subpools p)" by (rule mod_lt_nbr [OF pool_repr_shape [OF r]])
  note sub = rem_subpool_repr [OF r lt]
  show ?case
  proof (cases "c (op_heads p ! unat ?idx)")
    case Nil
    then have e: "scan_elems p c (scan_order p spidx i (Suc k)) = scan_elems p c (scan_order p spidx (i + 1) k)"
      by (simp add: scan_elems_def)
    have l: "objpool_rem_loop p spidx i (Suc k) m = objpool_rem_loop p spidx (i + 1) k m"
      using sub Nil by (simp add: Let_def)
    show ?thesis unfolding e l by (rule Suc)
  next
    case (Cons x xs)
    then have "x \<in> set (c (op_heads p ! unat ?idx))" by simp
    with Cons sub unlink_repr [OF r lt this] lt show ?thesis
      by (auto simp: scan_elems_def Let_def intro!: exI [of _ "unat ?idx"])
  qed
qed

section \<open>Which subpools the removal visits\<close>

text \<open>
  The loop reaches every subpool when the 32-bit sum does not wrap, or when the number of subpools
  divides \<^verbatim>\<open>2 ^ 32\<close> (four in all the pools of the implementation).
\<close>

definition scan_complete :: "objpool \<Rightarrow> u32 \<Rightarrow> bool" where
  "scan_complete p spidx \<longleftrightarrow>
     unat spidx + unat (nbr_subpools p) \<le> 2 ^ 32 \<or> unat (nbr_subpools p) dvd 2 ^ 32"

lemma scan_order_eq:
  "scan_order p spidx i k = map (\<lambda>j. unat ((spidx + i + word_of_nat j) mod nbr_subpools p)) [0..<k]"
proof (induction k arbitrary: i)
  case 0
  then show ?case by simp
next
  case (Suc k)
  have "[0..<Suc k] = 0 # map Suc [0..<k]" by (simp add: map_Suc_upt upt_conv_Cons del: upt_Suc)
  then show ?case using Suc [of "i + 1"] by (simp add: ac_simps del: upt_Suc)
qed

lemma scan_index:
  assumes "scan_complete p spidx" "j < unat (nbr_subpools p)"
  shows "unat ((spidx + word_of_nat j) mod nbr_subpools p) = (unat spidx + j) mod unat (nbr_subpools p)"
proof -
  have j: "unat (word_of_nat j :: u32) = j"
    using assms(2) unat_lt_len [of "nbr_subpools p"] by (simp add: unat_of_nat_small)
  have s: "unat (spidx + word_of_nat j) = (unat spidx + j) mod 2 ^ 32"
    using j by (simp add: unat_word_ariths)
  show ?thesis
    using assms s by (auto simp: scan_complete_def unat_mod mod_mod_cancel)
qed

lemma mod_hits_all:
  fixes n a i :: nat
  assumes "i < n"
  shows "\<exists>j<n. (a + j) mod n = i"
proof (intro exI conjI)
  let ?j = "(i + (n - a mod n)) mod n"
  show "?j < n" using assms by simp
  have "(a + ?j) mod n = (a mod n + (i + (n - a mod n))) mod n"
    by (metis mod_add_left_eq mod_add_right_eq)
  also have "a mod n + (i + (n - a mod n)) = i + n"
    using assms by (metis (no_types, lifting) add.left_commute le_add_diff_inverse
        less_imp_le_nat mod_less_divisor bot_nat_0.not_eq_extremum not_less_zero)
  finally show "(a + ?j) mod n = i" using assms by simp
qed

lemma scan_order_all:
  assumes "scan_complete p spidx"
  shows "set (scan_order p spidx 0 (unat (nbr_subpools p))) = {0..<unat (nbr_subpools p)}"
    (is "?L = ?R")
proof
  show "?L \<subseteq> ?R"
    using scan_index [OF assms] by (auto simp: scan_order_eq)
  show "?R \<subseteq> ?L"
  proof
    fix i assume "i \<in> ?R"
    then obtain j where "j < unat (nbr_subpools p)" "(unat spidx + j) mod unat (nbr_subpools p) = i"
      using mod_hits_all [of i "unat (nbr_subpools p)" "unat spidx"] by auto
    then show "i \<in> ?L" using scan_index [OF assms] by (force simp: scan_order_eq)
  qed
qed

lemma scan_elems_all:
  assumes "pool_repr p E c m" "scan_complete p spidx"
  shows "set (scan_elems p c (scan_order p spidx 0 (unat (nbr_subpools p)))) = free_elems p c"
proof -
  note sh = pool_repr_shape [OF assms(1)]
  have "active_heads p = (\<lambda>i. op_heads p ! i) ` {0..<unat (nbr_subpools p)}"
    using head_active [OF sh] by (auto elim: active_headE [OF sh])
  then show ?thesis
    by (auto simp: scan_elems_def scan_order_all [OF assms(2)] free_elems_def family_nodes_def)
qed

section \<open>The allocator contract\<close>

text \<open>
  What the tables of objects rely on: allocation takes some free object and fails only when none is
  free, releasing a used object makes it free. \<^verbatim>\<open>rep F s\<close> says that exactly the objects \<^verbatim>\<open>F\<close> are
  free in the state \<^verbatim>\<open>s\<close>.
\<close>

datatype 'e alloc_op = Alloc u32 | Release 'e

fun alloc_run ::
  "(u32 \<Rightarrow> 'st \<Rightarrow> 'e option \<times> 'st) \<Rightarrow> ('e \<Rightarrow> 'st \<Rightarrow> 'st) \<Rightarrow> 'e alloc_op list \<Rightarrow>
   'e list \<Rightarrow> 'st \<Rightarrow> 'e list \<times> 'st" where
  "alloc_run alloc release [] used s = (used, s)"
| "alloc_run alloc release (Alloc i # ops) used s =
     (case alloc i s of
        (None, s') \<Rightarrow> alloc_run alloc release ops used s'
      | (Some x, s') \<Rightarrow> alloc_run alloc release ops (x # used) s')"
| "alloc_run alloc release (Release x # ops) used s =
     (if x \<in> set used then alloc_run alloc release ops (remove1 x used) (release x s)
      else alloc_run alloc release ops used s)"

locale obj_alloc =
  fixes E :: "'e set"
    and rep :: "'e set \<Rightarrow> 'st \<Rightarrow> bool"
    and alloc :: "u32 \<Rightarrow> 'st \<Rightarrow> 'e option \<times> 'st"
    and release :: "'e \<Rightarrow> 'st \<Rightarrow> 'st"
  assumes rep_sub: "rep F s \<Longrightarrow> F \<subseteq> E"
    and alloc_none: "rep {} s \<Longrightarrow> alloc i s = (None, s)"
    and alloc_some: "rep F s \<Longrightarrow> F \<noteq> {} \<Longrightarrow>
          \<exists>x s'. alloc i s = (Some x, s') \<and> x \<in> F \<and> rep (F - {x}) s'"
    and release_rep: "rep F s \<Longrightarrow> x \<in> E - F \<Longrightarrow> rep (insert x F) (release x s)"
begin

lemma alloc_cases:
  assumes "rep F s"
  obtains "F = {}" "alloc i s = (None, s)"
  | x s' where "alloc i s = (Some x, s')" "x \<in> F" "rep (F - {x}) s'"
proof (cases "F = {}")
  case True
  then show ?thesis using alloc_none [of s i] assms that(1) by simp
next
  case False
  then show ?thesis using alloc_some [OF assms False, of i] that(2) by blast
qed

lemma alloc_run_partition:
  assumes "rep F s" "distinct used" "set used \<inter> F = {}" "set used \<union> F = E"
    and "alloc_run alloc release ops used s = (used', s')"
  shows "\<exists>F'. rep F' s' \<and> distinct used' \<and> set used' \<inter> F' = {} \<and> set used' \<union> F' = E"
  using assms
proof (induction ops arbitrary: used s F)
  case Nil
  then show ?case by auto
next
  case (Cons op ops)
  show ?case
  proof (cases op)
    case (Alloc i)
    from \<open>rep F s\<close> show ?thesis
    proof (cases rule: alloc_cases [where i = i])
      case 1
      then show ?thesis using Cons Alloc by auto
    next
      case (2 x s'')
      then have "alloc_run alloc release ops (x # used) s'' = (used', s')"
        using Cons.prems(5) Alloc by simp
      then show ?thesis
        using Cons.IH [OF 2(3), of "x # used"] Cons.prems 2(2) by auto
    qed
  next
    case (Release x)
    show ?thesis
    proof (cases "x \<in> set used")
      case True
      then have "rep (insert x F) (release x s)"
        using release_rep [OF Cons.prems(1), of x] Cons.prems by auto
      then show ?thesis
        using Cons.IH [of "insert x F" "release x s" "remove1 x used"] Cons.prems Release True
        by auto
    next
      case False
      then show ?thesis using Cons Release by auto
    qed
  qed
qed

end

locale obj_alloc_by_id = obj_alloc E rep alloc release
  for E :: "'e set" and rep :: "'e set \<Rightarrow> 'st \<Rightarrow> bool"
    and alloc :: "u32 \<Rightarrow> 'st \<Rightarrow> 'e option \<times> 'st" and release :: "'e \<Rightarrow> 'st \<Rightarrow> 'st" +
  fixes take_elem :: "'e \<Rightarrow> 'st \<Rightarrow> int \<times> 'st"
  assumes take_free: "rep F s \<Longrightarrow> x \<in> F \<Longrightarrow> \<exists>s'. take_elem x s = (0, s') \<and> rep (F - {x}) s'"
    and take_used: "rep F s \<Longrightarrow> x \<in> E - F \<Longrightarrow> take_elem x s = (-1, s)"
begin

lemma take_twice:
  assumes "rep F s" "x \<in> F" "take_elem x s = (0, s')"
  shows "take_elem x s' = (-1, s')"
proof -
  have "rep (F - {x}) s'" using take_free [OF assms(1,2)] assms(3) by auto
  then show ?thesis using take_used [of "F - {x}" s' x] rep_sub [OF assms(1)] assms(2) by auto
qed

lemma take_release_take:
  assumes "rep F s" "x \<in> F" "take_elem x s = (0, s')"
  shows "\<exists>s''. take_elem x (release x s') = (0, s'') \<and> rep (F - {x}) s''"
proof -
  have r: "rep (F - {x}) s'" using take_free [OF assms(1,2)] assms(3) by auto
  have "x \<in> E - (F - {x})" using rep_sub [OF assms(1)] assms(2) by auto
  from release_rep [OF r this] have "rep F (release x s')"
    using assms(2) by (simp add: insert_absorb)
  from take_free [OF this assms(2)] show ?thesis .
qed

end

text \<open>The contract as the object pool provides it.\<close>

definition pool_free :: "objpool \<Rightarrow> ptr set \<Rightarrow> ptr set \<Rightarrow> pool_mem \<Rightarrow> bool" where
  "pool_free p E F m \<longleftrightarrow>
     unat (nbr_subpools p) dvd 2 ^ 32 \<and> (\<exists>c. pool_repr p E c m \<and> free_elems p c = F)"

lemma objpool_rem_repr:
  assumes r: "pool_repr p E c m" and sc: "scan_complete p spidx"
  shows "case scan_elems p c (scan_order p spidx 0 (unat (nbr_subpools p))) of
      [] \<Rightarrow> free_elems p c = {} \<and> objpool_rem p spidx m = (None, m)
    | x # _ \<Rightarrow> x \<in> free_elems p c \<and>
        (\<exists>m' c'. objpool_rem p spidx m = (Some x, m') \<and> pool_repr p E c' m' \<and>
           free_elems p c' = free_elems p c - {x})"
proof -
  let ?is = "scan_order p spidx 0 (unat (nbr_subpools p))"
  note loop = objpool_rem_loop_repr [OF r, of spidx 0 "unat (nbr_subpools p)"]
  note all = scan_elems_all [OF r sc]
  show ?thesis
  proof (cases "scan_elems p c ?is")
    case Nil
    then show ?thesis using loop all by (simp add: objpool_rem_def)
  next
    case (Cons x xs)
    then obtain m' j where 1: "objpool_rem p spidx m = (Some x, m')"
        "j < unat (nbr_subpools p)" "x \<in> set (c (op_heads p ! j))"
        "pool_repr p E (c(op_heads p ! j := remove1 x (c (op_heads p ! j)))) m'"
      using loop by (auto simp: objpool_rem_def)
    have "free_elems p (c(op_heads p ! j := remove1 x (c (op_heads p ! j)))) = free_elems p c - {x}"
      by (rule free_elems_remove [OF pool_repr_family [OF r] head_active [OF pool_repr_shape [OF r] 1(2)] 1(3)])
    moreover have "x \<in> free_elems p c" using all Cons by (metis list.set_intros(1))
    ultimately show ?thesis using 1 Cons by auto
  qed
qed

lemma objpool_rem_elem_repr:
  assumes r: "pool_repr p E c m" and n: "n \<in> E"
  shows "if n \<in> free_elems p c
    then \<exists>m' c'. objpool_rem_elem p n m = (0, m') \<and> pool_repr p E c' m' \<and>
           free_elems p c' = free_elems p c - {n}
    else objpool_rem_elem p n m = (-1, m)"
proof (cases "n \<in> free_elems p c")
  case False
  then show ?thesis using pool_repr_in_pool [OF r n] by (simp add: objpool_rem_elem_def)
next
  case True
  then obtain i where i: "i < unat (nbr_subpools p)" "n \<in> set (c (op_heads p ! i))"
    "unat (subpool_idx (pm_elem m n)) = i" using free_elems_idx [OF r] by blast
  note fe = free_elems_remove [OF pool_repr_family [OF r] head_active [OF pool_repr_shape [OF r] i(1)] i(2)]
  have "in_pool (pm_elem m n) \<noteq> 0" using pool_repr_in_pool [OF r n] True by simp
  then show ?thesis using True i fe unlink_repr [OF r i(1,2)]
    by (auto simp: objpool_rem_elem_def Let_def)
qed

lemma pool_free_rem:
  assumes "pool_free p E F m"
  shows "if F = {} then objpool_rem p spidx m = (None, m)
    else \<exists>x m'. objpool_rem p spidx m = (Some x, m') \<and> x \<in> F \<and> pool_free p E (F - {x}) m'"
proof -
  obtain c where c: "pool_repr p E c m" "free_elems p c = F" "unat (nbr_subpools p) dvd 2 ^ 32"
    using assms by (auto simp: pool_free_def)
  have "scan_complete p spidx" using c(3) by (simp add: scan_complete_def)
  from objpool_rem_repr [OF c(1) this] scan_elems_all [OF c(1) this] c show ?thesis
    by (auto simp: pool_free_def split: list.splits)
qed

lemma pool_free_add:
  assumes "pool_free p E F m" "n \<in> E - F"
  shows "pool_free p E (insert n F) (objpool_add p spidx n m)"
proof -
  obtain c where c: "pool_repr p E c m" "free_elems p c = F" "unat (nbr_subpools p) dvd 2 ^ 32"
    using assms by (auto simp: pool_free_def)
  note sh = pool_repr_shape [OF c(1)]
  have "in_pool (pm_elem m n) = 0" using pool_repr_in_pool [OF c(1), of n] assms(2) c(2) by auto
  from objpool_add_repr [OF c(1) _ this, of spidx] assms(2) c
    free_elems_add [OF head_active [OF sh mod_lt_nbr [OF sh]]]
  show ?thesis by (auto simp: pool_free_def)
qed

interpretation opool: obj_alloc_by_id E "pool_free p E" "objpool_rem p"
    "\<lambda>n m. objpool_add p (subpool_idx (pm_elem m n)) n m" "objpool_rem_elem p"
  for p E
proof (unfold_locales, goal_cases)
  case (1 F s)
  then show ?case by (auto simp: pool_free_def dest: pool_repr_sub)
next
  case (2 s i)
  then show ?case using pool_free_rem [of p E "{}" s i] by simp
next
  case (3 F s i)
  then show ?case using pool_free_rem [of p E F s i] by simp
next
  case (4 F s x)
  then show ?case by (rule pool_free_add)
next
  case (5 F s x)
  then obtain c where c: "pool_repr p E c s" "free_elems p c = F" "unat (nbr_subpools p) dvd 2 ^ 32"
    by (auto simp: pool_free_def)
  then have "x \<in> E" using pool_repr_sub 5 by blast
  from objpool_rem_elem_repr [OF c(1) this] 5 c show ?case by (auto simp: pool_free_def)
next
  case (6 F s x)
  then obtain c where c: "pool_repr p E c s" "free_elems p c = F"
    by (auto simp: pool_free_def)
  from objpool_rem_elem_repr [OF c(1), of x] 6 c show ?case by auto
qed

section \<open>Several pools in one memory\<close>

text \<open>
  Pools whose heads and elements are disjoint do not disturb each other: an operation leaves every
  other address as it was, and a pool is free of exactly \<^verbatim>\<open>F\<close> whatever happens outside its own.
\<close>

definition pool_same :: "ptr set \<Rightarrow> pool_mem \<Rightarrow> pool_mem \<Rightarrow> bool" where
  "pool_same S m m' \<longleftrightarrow>
     (\<forall>x\<in>S. lnext (pm_heap m') x = lnext (pm_heap m) x \<and> lprev (pm_heap m') x = lprev (pm_heap m) x \<and>
        pm_elem m' x = pm_elem m x)"

definition pool_area :: "objpool \<Rightarrow> ptr set \<Rightarrow> ptr set" where
  "pool_area p E = set (op_heads p) \<union> E"

lemma pool_free_same:
  assumes "pool_free p E F m" "pool_same (pool_area p E) m m'"
  shows "pool_free p E F m'"
proof -
  obtain c where c: "pool_repr p E c m" "free_elems p c = F" and d: "unat (nbr_subpools p) dvd 2 ^ 32"
    using assms(1) by (auto simp: pool_free_def)
  have heads: "active_heads p \<subseteq> pool_area p E" by (auto simp: active_heads_def pool_area_def dest: in_set_takeD)
  have nodes: "set (c k) \<subseteq> pool_area p E" if "k \<in> active_heads p" for k
    using pool_repr_sub [OF c(1)] that by (auto simp: free_elems_def family_nodes_def pool_area_def)
  have "dlist (pm_heap m') k (c k)" if k: "k \<in> active_heads p" for k
  proof -
    have "set (k # c k) \<subseteq> pool_area p E" using heads nodes [OF k] k by auto
    then have "chain (pm_heap m') k (c k) k \<longleftrightarrow> chain (pm_heap m) k (c k) k"
      using assms(2) by (intro chain_cong) (auto simp: pool_same_def)
    then show ?thesis using family_repr [OF pool_repr_family [OF c(1)] k] by (simp add: dlist_def)
  qed
  then have "family dlist (pm_heap m') (active_heads p) c"
    using pool_repr_family [OF c(1)] by (simp add: family_def)
  moreover have "pm_elem m' n = pm_elem m n" if "n \<in> E" for n
    using assms(2) that by (simp add: pool_same_def pool_area_def)
  moreover have "set (c (op_heads p ! i)) \<subseteq> E" if "i < unat (nbr_subpools p)" for i
    using head_active [OF pool_repr_shape [OF c(1)] that] pool_repr_sub [OF c(1)]
    by (auto simp: free_elems_def family_nodes_def)
  ultimately have "pool_repr p E c m'"
    using c(1) unfolding pool_repr_def by (simp add: subset_iff)
  then show ?thesis using c(2) d by (auto simp: pool_free_def)
qed

lemma list_add_same:
  assumes "dlist h k xs" "x \<noteq> n" "x \<notin> set (k # xs)"
  shows "lnext (list_add k n h) x = lnext h x" "lprev (list_add k n h) x = lprev h x"
  using assms chain_last [of h k xs k] by (auto simp: list_add_sel dlist_def split: if_splits)

lemma list_rem_same:
  assumes "dlist h k xs" "n \<in> set xs" "x \<notin> set (k # xs)"
  shows "lnext (list_rem k n h) x = lnext h x" "lprev (list_rem k n h) x = lprev h x"
proof -
  obtain ys zs where xs: "xs = ys @ n # zs" using assms(2) by (metis split_list)
  have c: "chain h k ys n" "chain h n zs k" using assms(1) unfolding xs dlist_def chain_append by auto
  have "lprev h n \<in> set (k # xs)" using chain_last [OF c(1)] unfolding xs by auto
  moreover have "lnext h n \<in> set (k # xs)" using chain_first [OF c(2)] unfolding xs by (cases zs) auto
  ultimately show "lnext (list_rem k n h) x = lnext h x" "lprev (list_rem k n h) x = lprev h x"
    using assms(2,3) by (auto simp: list_rem_sel)
qed

lemma list_in_area:
  assumes "pool_repr p E c m" "k \<in> active_heads p"
  shows "set (k # c k) \<subseteq> pool_area p E"
  using pool_repr_sub [OF assms(1)] assms(2)
  by (auto simp: active_heads_def free_elems_def family_nodes_def pool_area_def dest: in_set_takeD)

lemma objpool_add_same:
  assumes "pool_free p E F m" "n \<in> E" "S \<inter> pool_area p E = {}"
  shows "pool_same S m (objpool_add p i n m)"
proof -
  obtain c where c: "pool_repr p E c m" using assms(1) by (auto simp: pool_free_def)
  let ?k = "op_heads p ! unat (i mod nbr_subpools p)"
  have k: "?k \<in> active_heads p" by (rule head_active [OF pool_repr_shape [OF c] mod_lt_nbr [OF pool_repr_shape [OF c]]])
  have "x \<noteq> n \<and> x \<notin> set (?k # c ?k)" if "x \<in> S" for x
    using list_in_area [OF c k] assms(2,3) that by (auto simp: pool_area_def)
  then show ?thesis
    using list_add_same [OF family_repr [OF pool_repr_family [OF c] k]]
    by (auto simp: pool_same_def objpool_add_def Let_def)
qed

lemma unlink_same:
  assumes "pool_repr p E c m" "k \<in> active_heads p" "n \<in> set (c k)" "S \<inter> pool_area p E = {}"
  shows "pool_same S m (set_elem f n (m\<lparr>pm_heap := list_rem k n (pm_heap m)\<rparr>))"
proof -
  have "x \<noteq> n \<and> x \<notin> set (k # c k)" if "x \<in> S" for x
    using list_in_area [OF assms(1,2)] assms(3,4) that by (auto simp: pool_area_def)
  then show ?thesis
    using list_rem_same [OF family_repr [OF pool_repr_family [OF assms(1)] assms(2)] assms(3)]
    by (auto simp: pool_same_def)
qed

lemma pool_same_refl [simp]: "pool_same S m m"
  by (simp add: pool_same_def)

lemma objpool_rem_loop_same:
  assumes "pool_repr p E c m" "S \<inter> pool_area p E = {}"
  shows "pool_same S m (snd (objpool_rem_loop p spidx i k m))"
proof (induction k arbitrary: i)
  case (Suc k)
  let ?idx = "(spidx + i) mod nbr_subpools p"
  have lt: "unat ?idx < unat (nbr_subpools p)" by (rule mod_lt_nbr [OF pool_repr_shape [OF assms(1)]])
  note act = head_active [OF pool_repr_shape [OF assms(1)] lt]
  show ?case
    using rem_subpool_repr [OF assms(1) lt] unlink_same [OF assms(1) act _ assms(2)] Suc [of "i + 1"]
    by (auto simp: Let_def split: list.splits)
qed simp

lemma objpool_rem_same:
  assumes "pool_free p E F m" "S \<inter> pool_area p E = {}"
  shows "pool_same S m (snd (objpool_rem p spidx m))"
proof -
  obtain c where "pool_repr p E c m" using assms(1) by (auto simp: pool_free_def)
  from objpool_rem_loop_same [OF this assms(2)] show ?thesis unfolding objpool_rem_def .
qed

lemma objpool_rem_elem_same:
  assumes "pool_free p E F m" "n \<in> E" "S \<inter> pool_area p E = {}"
  shows "pool_same S m (snd (objpool_rem_elem p n m))"
proof -
  obtain c where c: "pool_repr p E c m" using assms(1) by (auto simp: pool_free_def)
  show ?thesis
  proof (cases "n \<in> free_elems p c")
    case True
    obtain i where i: "i < unat (nbr_subpools p)" "n \<in> set (c (op_heads p ! i))"
      "unat (subpool_idx (pm_elem m n)) = i" using free_elems_idx [OF c True] .
    show ?thesis
      using i(3) unlink_same [OF c head_active [OF pool_repr_shape [OF c] i(1)] i(2) assms(3)]
      by (simp add: objpool_rem_elem_def Let_def)
  next
    case False
    then show ?thesis using pool_repr_in_pool [OF c assms(2)] by (simp add: objpool_rem_elem_def)
  qed
qed

lemma init_subpools_same:
  assumes "x \<notin> set heads" "i + k \<le> length heads"
  shows "lnext (init_subpools heads i k h) x = lnext h x \<and> lprev (init_subpools heads i k h) x = lprev h x"
  using assms
proof (induction heads i k h rule: init_subpools.induct)
  case (2 heads i k h)
  have "heads ! i \<noteq> x" using 2(2,3) by (metis add_Suc_right less_add_Suc1 less_le_trans nth_mem)
  then show ?case using 2 by (simp add: list_init_def heap_simps)
qed simp

lemma objpool_init_free:
  assumes p: "distinct (op_heads p)" "length (op_heads p) = unat OBJSUBPOOLS_MAX"
    and E: "E \<inter> set (op_heads p) = {}" "\<forall>n\<in>E. in_pool (pm_elem m n) = 0"
    and S: "S \<inter> set (op_heads p) = {}"
  shows "\<exists>p' m'. objpool_init (Some p) 4 m = (0, Some p', m') \<and> pool_free p' E {} m' \<and>
    op_heads p' = op_heads p \<and> nbr_subpools p' = 4 \<and> pool_same S m m' \<and> pm_elem m' = pm_elem m"
proof -
  have "(4 :: u32) \<noteq> 0" by simp
  from objpool_init_repr [OF p E this] obtain p' m' where
    i: "objpool_init (Some p) 4 m = (0, Some p', m')" "pool_repr p' E (\<lambda>_. []) m'"
      "nbr_subpools p' = min 4 OBJSUBPOOLS_MAX" "op_heads p' = op_heads p" by blast
  have n: "nbr_subpools p' = 4" using i(3) by (simp add: OBJSUBPOOLS_MAX_def min_def)
  then have "pool_free p' E {} m'" using i(2) by (auto simp: pool_free_def free_elems_def family_nodes_def)
  moreover have "m' = m\<lparr>pm_heap := init_subpools (op_heads p) 0 4 (pm_heap m)\<rparr>"
    using i(1) by (auto simp: objpool_init_def Let_def OBJSUBPOOLS_MAX_def)
  then have "pool_same S m m'" "pm_elem m' = pm_elem m"
    using init_subpools_same [of _ "op_heads p" 0 4 "pm_heap m"] S p(2)
    by (auto simp: pool_same_def OBJSUBPOOLS_MAX_def)
  ultimately show ?thesis using i n by blast
qed

lemma pool_same_trans: "pool_same S m m' \<Longrightarrow> pool_same S m' m'' \<Longrightarrow> pool_same S m m''"
  by (simp add: pool_same_def)

section \<open>Properties\<close>

text \<open>Four subpools and four elements, the elements 100 to 103 one in each, as the tables set up.\<close>

definition demo_pool :: objpool where
  "demo_pool = \<lparr>op_heads = [1, 2, 3, 4, 5, 6, 7, 8], nbr_subpools = 4\<rparr>"

definition demo_mem0 :: pool_mem where
  "demo_mem0 = \<lparr>pm_heap = empty_heap, pm_elem = (\<lambda>_. \<lparr>subpool_idx = 0, in_pool = 0\<rparr>)\<rparr>"

definition demo_mem :: "objpool \<Rightarrow> pool_mem" where
  "demo_mem p = snd (snd (objpool_init (Some p) (nbr_subpools p) demo_mem0))"

lemma demo_pool_free:
  "pool_free demo_pool {100, 101} {} (demo_mem demo_pool)"
proof -
  have "\<exists>p' m'. objpool_init (Some demo_pool) 4 demo_mem0 = (0, Some p', m') \<and>
      pool_repr p' {100, 101} (\<lambda>_. []) m' \<and> nbr_subpools p' = min 4 OBJSUBPOOLS_MAX \<and>
      op_heads p' = op_heads demo_pool"
    by (rule objpool_init_repr) (simp_all add: demo_pool_def OBJSUBPOOLS_MAX_def demo_mem0_def)
  then obtain p' where p': "pool_repr p' {100, 101} (\<lambda>_. []) (demo_mem demo_pool)"
      "nbr_subpools p' = min 4 OBJSUBPOOLS_MAX" "op_heads p' = op_heads demo_pool"
    by (auto simp: demo_mem_def demo_pool_def)
  then have "p' = demo_pool"
    by (cases p') (simp add: demo_pool_def OBJSUBPOOLS_MAX_def min_def)
  with p' show ?thesis
    by (auto simp: pool_free_def demo_pool_def free_elems_def family_nodes_def)
qed

text \<open>
  C15: No object is handed out twice and none is lost. For every sequence of removals (with any
  preferred subpool) and returns on an object pool, the objects handed out are distinct, disjoint from
  the free ones, and together with them are all the objects of the pool.
\<close>

theorem objpool_no_double_alloc:
  assumes "pool_free p E F m" "distinct used" "set used \<inter> F = {}" "set used \<union> F = E"
    and "alloc_run (objpool_rem p) (\<lambda>n m. objpool_add p (subpool_idx (pm_elem m n)) n m) ops used m
      = (used', m')"
  shows "\<exists>F'. pool_free p E F' m' \<and> distinct used' \<and> set used' \<inter> F' = {} \<and> set used' \<union> F' = E"
  using opool.alloc_run_partition [OF assms] .

theorem objpool_no_double_alloc_witness:
  "\<exists>F'. pool_free demo_pool {100, 101} F'
      (snd (alloc_run (objpool_rem demo_pool)
        (\<lambda>n m. objpool_add demo_pool (subpool_idx (pm_elem m n)) n m)
        [Release 100, Alloc 7, Release 101] [100, 101] (demo_mem demo_pool))) \<and>
    distinct (fst (alloc_run (objpool_rem demo_pool)
        (\<lambda>n m. objpool_add demo_pool (subpool_idx (pm_elem m n)) n m)
        [Release 100, Alloc 7, Release 101] [100, 101] (demo_mem demo_pool))) \<and>
    set (fst (alloc_run (objpool_rem demo_pool)
        (\<lambda>n m. objpool_add demo_pool (subpool_idx (pm_elem m n)) n m)
        [Release 100, Alloc 7, Release 101] [100, 101] (demo_mem demo_pool))) \<inter> F' = {} \<and>
    set (fst (alloc_run (objpool_rem demo_pool)
        (\<lambda>n m. objpool_add demo_pool (subpool_idx (pm_elem m n)) n m)
        [Release 100, Alloc 7, Release 101] [100, 101] (demo_mem demo_pool))) \<union> F' = {100, 101}"
  by (rule objpool_no_double_alloc [OF demo_pool_free _ _ _ surjective_pairing]) auto

text \<open>
  C30: A removal finds a free object. When the subpool index plus the number of subpools fits in 32
  bits, or the number of subpools divides \<^verbatim>\<open>2 ^ 32\<close>, \<^verbatim>\<open>objpool_rem\<close> returns NULL only if no subpool
  has a free object; otherwise it returns the oldest element of the first non-empty subpool in
  round-robin order, and exactly this object stops being free.
\<close>

theorem objpool_rem_correct:
  assumes "pool_repr p E c m" "scan_complete p spidx"
  shows "case scan_elems p c (map (\<lambda>j. (unat spidx + j) mod unat (nbr_subpools p))
          [0..<unat (nbr_subpools p)]) of
      [] \<Rightarrow> free_elems p c = {} \<and> objpool_rem p spidx m = (None, m)
    | x # _ \<Rightarrow> x \<in> free_elems p c \<and>
        (\<exists>m' c'. objpool_rem p spidx m = (Some x, m') \<and> pool_repr p E c' m' \<and>
           free_elems p c' = free_elems p c - {x})"
proof -
  have "scan_order p spidx 0 (unat (nbr_subpools p)) =
      map (\<lambda>j. (unat spidx + j) mod unat (nbr_subpools p)) [0..<unat (nbr_subpools p)]"
    unfolding scan_order_eq using scan_index [OF assms(2)] by simp
  with objpool_rem_repr [OF assms] show ?thesis by simp
qed

theorem objpool_rem_correct_witness:
  "\<exists>c. case scan_elems demo_pool c (map (\<lambda>j. (unat (0xFFFFFFFF :: u32) + j) mod unat (nbr_subpools demo_pool))
          [0..<unat (nbr_subpools demo_pool)]) of
      [] \<Rightarrow> free_elems demo_pool c = {} \<and>
        objpool_rem demo_pool 0xFFFFFFFF (demo_mem demo_pool) = (None, demo_mem demo_pool)
    | x # _ \<Rightarrow> x \<in> free_elems demo_pool c \<and>
        (\<exists>m' c'. objpool_rem demo_pool 0xFFFFFFFF (demo_mem demo_pool) = (Some x, m') \<and>
           pool_repr demo_pool {100, 101} c' m' \<and> free_elems demo_pool c' = free_elems demo_pool c - {x})"
proof -
  obtain c where c: "pool_repr demo_pool {100, 101} c (demo_mem demo_pool)"
    using demo_pool_free by (auto simp: pool_free_def)
  show ?thesis
    by (rule exI, rule objpool_rem_correct [OF c]) (simp add: scan_complete_def demo_pool_def)
qed

definition wrap_pool :: objpool where
  "wrap_pool = \<lparr>op_heads = [1, 2, 3, 4, 5, 6, 7, 8], nbr_subpools = 3\<rparr>"


text \<open>
  Taking a specific object succeeds exactly when it is free: \<^verbatim>\<open>objpool_rem_elem\<close> returns 0 and
  removes just that object, or -1 and changes nothing when the object is in use, and a second call
  for the same object fails.
\<close>

theorem objpool_rem_elem_exact:
  assumes "pool_free p E F m" "n \<in> E"
  shows "if n \<in> F
    then \<exists>m'. objpool_rem_elem p n m = (0, m') \<and> pool_free p E (F - {n}) m' \<and>
           objpool_rem_elem p n m' = (-1, m')
    else objpool_rem_elem p n m = (-1, m)"
  using opool.take_free [OF assms(1), of n] opool.take_used [OF assms(1), of n]
    opool.take_twice [OF assms(1), of n] assms(2) by auto

theorem objpool_rem_elem_exact_witness:
  "if (100::nat) \<in> {}
    then \<exists>m'. objpool_rem_elem demo_pool 100 (demo_mem demo_pool) = (0, m') \<and>
           pool_free demo_pool {100, 101} ({} - {100}) m' \<and> objpool_rem_elem demo_pool 100 m' = (-1, m')
    else objpool_rem_elem demo_pool 100 (demo_mem demo_pool) = (-1, demo_mem demo_pool)"
  by (rule objpool_rem_elem_exact [OF demo_pool_free]) simp

end
