(* ===== verification/QueueTable.thy ===== *)
theory QueueTable
  imports ObjPool
begin

text \<open>
  The queue table (\<^verbatim>\<open>em_queue.c\<close>, \<^verbatim>\<open>em_queue_inline.h\<close>, \<^verbatim>\<open>em_queue_types.h\<close>): the configuration, the
  identifier ranges of static, internal, dynamic and aggregator queues, the conversions between handle,
  identifier and index, the three pools of free queues and the allocation of a queue.
\<close>

unbundle bit_operations_syntax

section \<open>Constants and configuration\<close>

definition EM_MAX_CORES :: u32 where "EM_MAX_CORES = 64"
definition EM_MAX_EXTTHRS :: u32 where "EM_MAX_EXTTHRS = 32"
definition MAX_INTERNAL_QUEUES :: u32 where "MAX_INTERNAL_QUEUES = EM_MAX_CORES + EM_MAX_EXTTHRS + 1"
definition UINT16_MAX :: u32 where "UINT16_MAX = 0xFFFF"
definition INVALID_QUEUE_ID :: u16 where "INVALID_QUEUE_ID = 0xFFFF"
definition EM_QUEUE_PRIO_NUM :: nat where "EM_QUEUE_PRIO_NUM = 8"
definition EM_MAX_OUTPUT_QUEUES :: u32 where "EM_MAX_OUTPUT_QUEUES = 64"

datatype vector_backend = EM_VECTOR_BACKEND_PACKET | EM_VECTOR_BACKEND_EVENT | VECTOR_BACKEND_OTHER

record queue_opt =
  num_static :: u32
  num_dynamic :: u32
  num_aggr :: u32
  min_events_default :: u32
  map_mode :: int
  custom_map :: "int list"

text \<open>
  \<^verbatim>\<open>em_libconfig_lookup_int\<close> and \<^verbatim>\<open>em_libconfig_lookup_array\<close> are the functions \<^verbatim>\<open>cfg\<close> and \<^verbatim>\<open>cfg_arr\<close>: the
  value of an option, or None when it is missing or ill-formed. A value is a C \<^verbatim>\<open>int\<close>.
\<close>

definition max_config_queues :: u32 where "max_config_queues = UINT16_MAX - MAX_INTERNAL_QUEUES"

definition read_num :: "(string \<Rightarrow> int option) \<Rightarrow> string \<Rightarrow> u32 option" where
  "read_num cfg name =
     (case cfg name of
        None \<Rightarrow> None
      | Some val \<Rightarrow>
          if val < 0 \<or> (word_of_int val :: u32) > max_config_queues then None else Some (word_of_int val))"

definition read_num_aggr_config :: "(string \<Rightarrow> int option) \<Rightarrow> vector_backend \<Rightarrow> u32 option" where
  "read_num_aggr_config cfg backend =
     (case backend of
        EM_VECTOR_BACKEND_EVENT \<Rightarrow> read_num cfg ''queue.num_aggr''
      | EM_VECTOR_BACKEND_PACKET \<Rightarrow> Some 0
      | VECTOR_BACKEND_OTHER \<Rightarrow> None)"

text \<open>\<^verbatim>\<open>cfg_arr\<close> gives the elements it copied; the rest of the shared array keeps the zeros it starts with.\<close>

definition read_prio_config :: "(string \<Rightarrow> int option) \<Rightarrow> (string \<Rightarrow> nat \<Rightarrow> int list option) \<Rightarrow> (int \<times> int list) option" where
  "read_prio_config cfg cfg_arr =
     (case cfg ''queue.priority.map_mode'' of
        None \<Rightarrow> None
      | Some val \<Rightarrow>
          if val < 0 \<or> val > 2 then None
          else if val = 2
          then (case cfg_arr ''queue.priority.custom_map'' EM_QUEUE_PRIO_NUM of
                  None \<Rightarrow> None | Some m \<Rightarrow> Some (val, m @ replicate (EM_QUEUE_PRIO_NUM - length m) 0))
          else Some (val, []))"

text \<open>The result is the options and \<^verbatim>\<open>max_queue_num\<close>; None is the error return.\<close>

definition read_config_file ::
  "(string \<Rightarrow> int option) \<Rightarrow> (string \<Rightarrow> nat \<Rightarrow> int list option) \<Rightarrow> vector_backend \<Rightarrow> u32 \<Rightarrow> (queue_opt \<times> u16) option" where
  "read_config_file cfg cfg_arr backend odp_max_queues =
     (case read_num cfg ''queue.num_static'' of None \<Rightarrow> None | Some ns \<Rightarrow>
      (case read_num cfg ''queue.num_dynamic'' of None \<Rightarrow> None | Some nd \<Rightarrow>
       if ns = 0 \<and> nd = 0 then None
       else
       (case read_num_aggr_config cfg backend of None \<Rightarrow> None | Some na \<Rightarrow>
        (let max_queues = ns + nd + na + MAX_INTERNAL_QUEUES
         in if max_queues > UINT16_MAX then None
            else if max_queues > odp_max_queues then None
            else
            (case cfg ''queue.min_events_default'' of None \<Rightarrow> None | Some ev \<Rightarrow>
             if ev < 0 then None
             else
             (case read_prio_config cfg cfg_arr of None \<Rightarrow> None | Some (mode, cm) \<Rightarrow>
              Some (\<lparr>num_static = ns, num_dynamic = nd, num_aggr = na,
                     min_events_default = word_of_int ev, map_mode = mode, custom_map = cm\<rparr>,
                    ucast max_queues)))))))"

section \<open>Handles, identifiers, indexes\<close>

text \<open>
  \<^verbatim>\<open>internal_queue_t\<close>: the low 16 bits of a 64-bit handle are the queue identifier, the next 16 the
  device identifier, the rest is unused.
\<close>

type_synonym em_queue_t = u64

definition EM_QUEUE_UNDEF :: em_queue_t where "EM_QUEUE_UNDEF = 0"

definition iq_queue_id :: "em_queue_t \<Rightarrow> u16" where "iq_queue_id q = ucast q"
definition iq_device_id :: "em_queue_t \<Rightarrow> u16" where "iq_device_id q = ucast (drop_bit 16 q)"

definition internal_queue :: "u16 \<Rightarrow> u16 \<Rightarrow> em_queue_t" where
  "internal_queue dev qid = ucast qid + push_bit 16 (ucast dev)"

definition queue_id2idx :: "u16 \<Rightarrow> int" where "queue_id2idx qid = uint qid - 1"
definition queue_idx2id :: "int \<Rightarrow> u16" where "queue_idx2id idx = word_of_int idx + 1"
definition queue_hdl2idx :: "em_queue_t \<Rightarrow> int" where "queue_hdl2idx q = uint (iq_queue_id q) - 1"
definition queue_idx2hdl :: "u16 \<Rightarrow> int \<Rightarrow> em_queue_t" where
  "queue_idx2hdl dev idx = internal_queue dev (word_of_int (idx + 1))"
definition queue_id2hdl :: "u16 \<Rightarrow> u16 \<Rightarrow> em_queue_t" where "queue_id2hdl dev qid = internal_queue dev qid"

definition queue_external :: "u16 \<Rightarrow> em_queue_t \<Rightarrow> bool" where
  "queue_external dev q = (if q = EM_QUEUE_UNDEF then False else iq_device_id q \<noteq> dev)"

definition queue_elem_get :: "u16 \<Rightarrow> u16 \<Rightarrow> em_queue_t \<Rightarrow> nat option" where
  "queue_elem_get dev max_queue_num q =
     (let idx = queue_id2idx (iq_queue_id q)
      in if iq_device_id q \<noteq> dev \<or> uint (word_of_int idx :: u16) > uint max_queue_num - 1 then None
         else Some (nat idx))"

section \<open>Identifier ranges\<close>

record queue_ids =
  first_static_queue_id :: u16
  last_static_queue_id :: u16
  first_internal_queue_id :: u16
  last_internal_queue_id :: u16
  shared_internal_queue_id :: u16
  first_dyn_queue_id :: u16
  last_dyn_queue_id :: u16
  first_aggr_queue_id :: u16
  last_aggr_queue_id :: u16

definition queue_init_ids :: "queue_opt \<Rightarrow> queue_ids" where
  "queue_init_ids opt =
     (let (fs, ls, fi) =
            (if num_static opt \<noteq> 0
             then let fs = queue_idx2id 0; ls = fs + ucast (num_static opt) - 1 in (fs, ls, ls + 1)
             else (INVALID_QUEUE_ID, INVALID_QUEUE_ID, queue_idx2id 0));
          li = fi + ucast MAX_INTERNAL_QUEUES - 1;
          (fd, ld) =
            (if num_dynamic opt \<noteq> 0
             then let fd = li + 1 in (fd, fd + ucast (num_dynamic opt) - 1)
             else (INVALID_QUEUE_ID, INVALID_QUEUE_ID));
          (fa, la) =
            (if num_aggr opt \<noteq> 0
             then let fa = (if num_dynamic opt \<noteq> 0 then ld + 1 else li + 1)
                  in (fa, fa + ucast (num_aggr opt) - 1)
             else (INVALID_QUEUE_ID, INVALID_QUEUE_ID))
      in \<lparr>first_static_queue_id = fs, last_static_queue_id = ls,
          first_internal_queue_id = fi, last_internal_queue_id = li, shared_internal_queue_id = li,
          first_dyn_queue_id = fd, last_dyn_queue_id = ld, first_aggr_queue_id = fa, last_aggr_queue_id = la\<rparr>)"

definition id_in_queue_pool_static :: "queue_opt \<Rightarrow> queue_ids \<Rightarrow> u16 \<Rightarrow> bool" where
  "id_in_queue_pool_static opt ids qid =
     (if num_static opt = 0
      then qid \<ge> first_internal_queue_id ids \<and> qid \<le> last_internal_queue_id ids
      else qid \<ge> first_static_queue_id ids \<and> qid \<le> last_internal_queue_id ids)"

section \<open>Facts on handles\<close>

lemma internal_queue_bits:
  "internal_queue dev qid = or (ucast qid) (push_bit 16 (ucast dev))"
proof -
  have "and (ucast qid) (push_bit 16 (ucast dev)) = (0 :: u64)"
    by (rule bit_word_eqI) (auto simp: bit_simps dest: bit_imp_le_length)
  then show ?thesis unfolding internal_queue_def by (rule disjunctive_add_eq_or)
qed

lemma internal_queue_parts [handle_simps]:
  "iq_queue_id (internal_queue dev qid) = qid" "iq_device_id (internal_queue dev qid) = dev"
  unfolding iq_queue_id_def iq_device_id_def internal_queue_bits
  by (rule bit_word_eqI, auto simp: bit_simps dest: bit_imp_le_length)+

lemma internal_queue_of_parts:
  "internal_queue (iq_device_id q) (iq_queue_id q) = take_bit 32 q"
  unfolding iq_queue_id_def iq_device_id_def internal_queue_bits
  by (rule bit_word_eqI) (auto simp: bit_simps)

lemma queue_id2idx_of_nat:
  assumes "i < 65535"
  shows "queue_id2idx (queue_idx2id (int i)) = int i"
proof -
  have "queue_idx2id (int i) = word_of_nat (Suc i)" by (simp add: queue_idx2id_def)
  moreover have "unat (word_of_nat (Suc i) :: u16) = Suc i" using assms by (intro unat_of_nat_small) simp
  then have "uint (word_of_nat (Suc i) :: u16) = int (Suc i)" by (metis uint_nat)
  ultimately show ?thesis by (simp add: queue_id2idx_def)
qed

lemma queue_idx2hdl_id: "queue_idx2hdl dev (int i) = internal_queue dev (queue_idx2id (int i))"
  by (simp add: queue_idx2hdl_def queue_idx2id_def add.commute)

lemma queue_elem_get_iff:
  "queue_elem_get dev n q = Some i \<longleftrightarrow> i < unat n \<and> take_bit 32 q = queue_idx2hdl dev (int i)"
proof -
  let ?id = "iq_queue_id q"
  have idx: "uint (word_of_int (queue_id2idx ?id) :: u16) = (if ?id = 0 then 65535 else uint ?id - 1)"
  proof (cases "?id = 0")
    case False
    then have "1 \<le> uint ?id" by (metis uint_0_iff uint_ge_0 zless_imp_add1_zle zero_le add_0 order_le_imp_less_or_eq)
    moreover have "uint ?id < 2 ^ 16" using uint_bounded [of ?id] by simp
    ultimately show ?thesis using False unfolding queue_id2idx_def uint_word_of_int by simp
  next
    case True
    then show ?thesis unfolding queue_id2idx_def uint_word_of_int by simp
  qed
  have n: "uint n < 65536" using uint_bounded [of n] by simp
  have dec: "take_bit 32 q = queue_idx2hdl dev (int i) \<longleftrightarrow> iq_device_id q = dev \<and> ?id = queue_idx2id (int i)"
    unfolding queue_idx2hdl_id internal_queue_of_parts [symmetric] by (metis internal_queue_parts)
  show ?thesis
  proof (cases "?id = 0")
    case True
    have "?id \<noteq> queue_idx2id (int i)" if "i < unat n"
    proof
      assume e: "?id = queue_idx2id (int i)"
      have "i < 65535" using that unat_lt_len [of n] by simp
      from queue_id2idx_of_nat [OF this] True e show False by (simp add: queue_id2idx_def)
    qed
    moreover have "queue_elem_get dev n q = None"
      unfolding queue_elem_get_def Let_def idx using True n by simp
    ultimately show ?thesis using dec by auto
  next
    case False
    then have ge: "1 \<le> uint ?id" by (metis uint_0_iff uint_ge_0 zless_imp_add1_zle zero_le add_0 order_le_imp_less_or_eq)
    have id: "?id = queue_idx2id (int j) \<longleftrightarrow> queue_id2idx ?id = int j" if "j < unat n" for j
    proof
      assume "queue_id2idx ?id = int j"
      then have "uint ?id = int j + 1" by (simp add: queue_id2idx_def)
      then have "?id = word_of_int (int j + 1)" by (metis word_of_int_uint)
      then show "?id = queue_idx2id (int j)" by (simp add: queue_idx2id_def)
    qed (use queue_id2idx_of_nat [of j] that unat_lt_len [of n] in simp)
    have un: "int (unat n) = uint n" by simp
    have "queue_elem_get dev n q = Some i \<longleftrightarrow>
        iq_device_id q = dev \<and> uint ?id - 1 \<le> uint n - 1 \<and> nat (uint ?id - 1) = i"
      unfolding queue_elem_get_def Let_def idx using False by (simp add: queue_id2idx_def not_less)
    also have "\<dots> \<longleftrightarrow> iq_device_id q = dev \<and> i < unat n \<and> queue_id2idx ?id = int i"
    proof -
      have 1: "nat (uint ?id - 1) = i \<longleftrightarrow> uint ?id - 1 = int i" using ge by arith
      have 2: "i < unat n \<longleftrightarrow> int i < uint n" unfolding un [symmetric] by (rule of_nat_less_iff [symmetric])
      show ?thesis unfolding 1 2 queue_id2idx_def by auto
    qed
    finally show ?thesis using dec id [of i] by blast
  qed
qed

section \<open>Facts on the ranges\<close>

lemma read_num_bound: "read_num cfg name = Some n \<Longrightarrow> n \<le> max_config_queues"
  by (auto simp: read_num_def split: option.splits if_splits)

lemma read_num_aggr_bound:
  assumes "read_num_aggr_config cfg be = Some n"
  shows "n \<le> max_config_queues"
proof (cases be)
  case EM_VECTOR_BACKEND_PACKET
  then have "n = 0" using assms by (simp add: read_num_aggr_config_def)
  then show ?thesis by simp
next
  case EM_VECTOR_BACKEND_EVENT
  then show ?thesis using assms read_num_bound by (simp add: read_num_aggr_config_def)
qed (use assms in \<open>simp add: read_num_aggr_config_def\<close>)

text \<open>The sizes of the ranges as numbers.\<close>

definition opt_ok :: "queue_opt \<Rightarrow> u16 \<Rightarrow> bool" where
  "opt_ok opt maxn \<longleftrightarrow>
     unat maxn = unat (num_static opt) + unat (num_dynamic opt) + unat (num_aggr opt) + 97 \<and>
     (num_static opt \<noteq> 0 \<or> num_dynamic opt \<noteq> 0)"

lemma read_config_file_ok:
  assumes "read_config_file cfg cfg_arr backend odp_max = Some (opt, maxn)"
  shows "opt_ok opt maxn" "unat maxn \<le> unat odp_max"
proof -
  obtain ns nd na ev mode cm where
    n: "read_num cfg ''queue.num_static'' = Some ns" "read_num cfg ''queue.num_dynamic'' = Some nd"
      "read_num_aggr_config cfg backend = Some na" and
    nz: "ns \<noteq> 0 \<or> nd \<noteq> 0" and
    le: "ns + nd + na + MAX_INTERNAL_QUEUES \<le> UINT16_MAX" "ns + nd + na + MAX_INTERNAL_QUEUES \<le> odp_max" and
    r: "opt = \<lparr>num_static = ns, num_dynamic = nd, num_aggr = na, min_events_default = word_of_int ev,
          map_mode = mode, custom_map = cm\<rparr>" "maxn = ucast (ns + nd + na + MAX_INTERNAL_QUEUES)"
    using assms by (auto simp: read_config_file_def Let_def split: option.splits if_splits prod.splits)
  have b: "unat ns \<le> 65438" "unat nd \<le> 65438" "unat na \<le> 65438"
    using read_num_bound [OF n(1)] read_num_bound [OF n(2)] read_num_aggr_bound [OF n(3)]
    by (simp_all add: word_le_nat_alt max_config_queues_def UINT16_MAX_def MAX_INTERNAL_QUEUES_def
        EM_MAX_CORES_def EM_MAX_EXTTHRS_def)
  have m: "unat MAX_INTERNAL_QUEUES = 97" by (simp add: MAX_INTERNAL_QUEUES_def EM_MAX_CORES_def EM_MAX_EXTTHRS_def)
  have s1: "unat (ns + nd) = unat ns + unat nd" using b by (intro unat_add_no_wrap) simp
  have s2: "unat (ns + nd + na) = unat ns + unat nd + unat na" using b s1 unat_add_no_wrap [of "ns + nd" na] by simp
  have s3: "unat (ns + nd + na + MAX_INTERNAL_QUEUES) = unat ns + unat nd + unat na + 97"
    using b s2 m unat_add_no_wrap [of "ns + nd + na" MAX_INTERNAL_QUEUES] by simp
  have "unat (ns + nd + na + MAX_INTERNAL_QUEUES) \<le> 65535"
    using le(1) by (simp add: word_le_nat_alt UINT16_MAX_def)
  then have "unat (ucast (ns + nd + na + MAX_INTERNAL_QUEUES) :: u16) = unat (ns + nd + na + MAX_INTERNAL_QUEUES)"
    unfolding ucast_of_nat by (intro unat_of_nat_small) simp
  then show "opt_ok opt maxn" "unat maxn \<le> unat odp_max"
    using s3 nz le(2) unfolding opt_ok_def r(1) by (simp_all add: r(2) word_le_nat_alt)
qed

lemma queue_init_ids_nat:
  defines "W \<equiv> (word_of_nat :: nat \<Rightarrow> u16)"
  shows "queue_init_ids opt =
    (let ns = unat (num_static opt); nd = unat (num_dynamic opt); na = unat (num_aggr opt)
     in \<lparr>first_static_queue_id = if ns = 0 then INVALID_QUEUE_ID else W 1,
         last_static_queue_id = if ns = 0 then INVALID_QUEUE_ID else W ns,
         first_internal_queue_id = W (ns + 1), last_internal_queue_id = W (ns + 97),
         shared_internal_queue_id = W (ns + 97),
         first_dyn_queue_id = if nd = 0 then INVALID_QUEUE_ID else W (ns + 98),
         last_dyn_queue_id = if nd = 0 then INVALID_QUEUE_ID else W (ns + 97 + nd),
         first_aggr_queue_id = if na = 0 then INVALID_QUEUE_ID else W (ns + nd + 98),
         last_aggr_queue_id = if na = 0 then INVALID_QUEUE_ID else W (ns + nd + 97 + na)\<rparr>)"
proof -
  have m: "(ucast MAX_INTERNAL_QUEUES :: u16) = 97"
    by (simp add: MAX_INTERNAL_QUEUES_def EM_MAX_CORES_def EM_MAX_EXTTHRS_def)
  show ?thesis
    unfolding queue_init_ids_def Let_def m W_def
    by (simp add: queue_idx2id_def unat_eq_0 algebra_simps)
qed

lemma queue_id2idx_nat: "1 \<le> k \<Longrightarrow> k \<le> 65535 \<Longrightarrow> queue_id2idx (word_of_nat k) = int k - 1"
proof -
  assume "1 \<le> k" "k \<le> 65535"
  then have "unat (word_of_nat k :: u16) = k" by (intro unat_of_nat_small) simp
  then have "uint (word_of_nat k :: u16) = int k" by (metis uint_nat)
  then show ?thesis by (simp add: queue_id2idx_def)
qed

lemma opt_ok_bound: "opt_ok opt maxn \<Longrightarrow> unat (num_static opt) + unat (num_dynamic opt) + unat (num_aggr opt) + 97 \<le> 65535"
  using unat_lt_len [of maxn] by (simp add: opt_ok_def)

lemma id_static_iff:
  assumes "opt_ok opt maxn" "i < unat maxn"
  shows "id_in_queue_pool_static opt (queue_init_ids opt) (queue_idx2id (int i)) \<longleftrightarrow> i < unat (num_static opt) + 97"
proof -
  note b = opt_ok_bound [OF assms(1)]
  have W: "unat (word_of_nat k :: u16) = k" if "k \<le> 65535" for k
    using that by (intro unat_of_nat_small) simp
  have id: "queue_idx2id (int i) = word_of_nat (i + 1)" by (simp add: queue_idx2id_def)
  have i: "i + 1 \<le> 65535" using assms(2) unat_lt_len [of maxn] by simp
  have z: "num_static opt = 0 \<longleftrightarrow> unat (num_static opt) = 0" by (simp add: unat_eq_0)
  show ?thesis
    unfolding id_in_queue_pool_static_def queue_init_ids_nat Let_def id word_le_nat_alt z
    using b i by (simp add: W del: of_nat_add of_nat_Suc) auto
qed

section \<open>The pools of free queues\<close>

text \<open>
  The queue elements are at fixed addresses: \<^verbatim>\<open>qe i\<close> is \<^verbatim>\<open>&queue_elem[i].queue_pool_elem\<close>. All three pools
  link these elements, so they share one heap.
\<close>

definition queue_pool_init :: "objpool \<Rightarrow> pool_mem \<Rightarrow> int \<times> objpool \<times> pool_mem" where
  "queue_pool_init p m =
     (case objpool_init (Some p) (min 4 OBJSUBPOOLS_MAX) m of
        (r, Some p', m') \<Rightarrow> (if r \<noteq> 0 then (-1, p', m') else (0, p', m'))
      | (r, None, m') \<Rightarrow> (-1, p, m'))"

fun populate_loop ::
  "(nat \<Rightarrow> ptr) \<Rightarrow> objpool \<Rightarrow> int \<Rightarrow> nat list \<Rightarrow> int \<Rightarrow> u32 \<Rightarrow> int \<Rightarrow> pool_mem \<Rightarrow> pool_mem" where
  "populate_loop qe p per_subpool [] leftover sidx add_cnt m = m"
| "populate_loop qe p per_subpool (i # is) leftover sidx add_cnt m =
     (let m' = objpool_add p sidx (qe i) m;
          add_cnt' = add_cnt + 1
      in if add_cnt' = per_subpool + leftover
         then populate_loop qe p per_subpool is 0 (sidx + 1) 0 m'
         else populate_loop qe p per_subpool is leftover sidx add_cnt' m')"

definition queue_pool_populate :: "(nat \<Rightarrow> ptr) \<Rightarrow> objpool \<Rightarrow> nat \<Rightarrow> nat \<Rightarrow> pool_mem \<Rightarrow> pool_mem" where
  "queue_pool_populate qe p min_qidx max_qidx m =
     (let num_subpools = uint (objpool_subpools p);
          qs_per_pool = int max_qidx - int min_qidx + 1
      in populate_loop qe p (qs_per_pool div num_subpools) [min_qidx..<max_qidx + 1]
           (qs_per_pool mod num_subpools) 0 0 m)"

lemma populate_loop_free:
  assumes "pool_free p E F m" "qe ` set is \<subseteq> E - F" "distinct (map qe is)"
  shows "pool_free p E (F \<union> qe ` set is) (populate_loop qe p k is l s c m)"
  using assms
proof (induction qe p k "is" l s c m arbitrary: F rule: populate_loop.induct)
  case (2 qe p k i "is" l s c m)
  have add: "pool_free p E (insert (qe i) F) (objpool_add p s (qe i) m)"
    by (rule pool_free_add [OF 2(3)]) (use 2(4) in auto)
  have "qe i \<notin> qe ` set is" "distinct (map qe is)" "qe ` set is \<subseteq> E - F" using 2(4,5) by simp_all
  then have rest: "qe ` set is \<subseteq> E - insert (qe i) F" "distinct (map qe is)" by blast+
  show ?case
    using 2(1) [OF refl refl _ add rest] 2(2) [OF refl refl _ add rest]
    by (simp add: Let_def)
qed simp

section \<open>Queue elements\<close>

datatype em_queue_type_t =
    EM_QUEUE_TYPE_UNDEF
  | EM_QUEUE_TYPE_ATOMIC
  | EM_QUEUE_TYPE_PARALLEL
  | EM_QUEUE_TYPE_ORDERED
  | EM_QUEUE_TYPE_UNSCHEDULED
  | EM_QUEUE_TYPE_LOCAL
  | EM_QUEUE_TYPE_OUTPUT
  | EM_QUEUE_TYPE_AGGR
  | QUEUE_TYPE_OTHER

type_synonym queue_state_t = u8

definition EM_QUEUE_STATE_INVALID :: queue_state_t where "EM_QUEUE_STATE_INVALID = 0"
definition EM_QUEUE_STATE_INIT :: queue_state_t where "EM_QUEUE_STATE_INIT = 1"
definition EM_QUEUE_STATE_BIND :: queue_state_t where "EM_QUEUE_STATE_BIND = 2"
definition EM_QUEUE_STATE_READY :: queue_state_t where "EM_QUEUE_STATE_READY = 3"
definition EM_QUEUE_STATE_UNSCHEDULED :: queue_state_t where "EM_QUEUE_STATE_UNSCHEDULED = 255"

lemmas queue_state_defs = EM_QUEUE_STATE_INVALID_def EM_QUEUE_STATE_INIT_def EM_QUEUE_STATE_BIND_def
  EM_QUEUE_STATE_READY_def EM_QUEUE_STATE_UNSCHEDULED_def

text \<open>
  The flags, and the variants of the union (\<^verbatim>\<open>aggr_parent\<close>, \<^verbatim>\<open>aggr\<close>, \<^verbatim>\<open>output\<close>), are fields of their own.
  Function pointers, contexts, pools and ODP handles are numbers, 0 being NULL, undefined or invalid.
\<close>

record queue_elem =
  valid_check :: u16
  use_multi_rcv :: bool
  scheduled :: bool
  in_atomic_group :: bool
  is_pktin :: bool
  has_aggr :: bool
  q_state :: queue_state_t
  q_priority :: u8
  q_type :: em_queue_type_t
  q_max_events :: u16
  q_eo :: u16
  q_queue :: u32
  odp_queue :: nat
  q_context :: nat
  receive_func :: nat
  q_eo_ctx :: nat
  q_atomic_group :: hdl
  aggr_queues :: "u32 list"
  parent_queue :: em_queue_t
  aggr_pool :: nat
  aggr_max_tmo_ns :: u64
  aggr_max_size :: u32
  aggr_event_type :: u32
  output_fn :: nat
  output_fn_args :: nat
  output_fn_args_event :: nat
  output_idx :: u32
  q_eo_elem :: nat
  q_queue_group :: hdl

text \<open>
  The shared state of the queues. \<^verbatim>\<open>qs_base\<close> is the address of element 0's pool node; the node of
  element \<^verbatim>\<open>i\<close> is \<^verbatim>\<open>qs_base + i\<close>. \<^verbatim>\<open>qgrp_queues\<close> and \<^verbatim>\<open>agrp_queues\<close> are the lists of queues of the queue
  and atomic groups (as the HOL lists that the intrusive lists represent), \<^verbatim>\<open>..._num_queues\<close> their counters
  and \<^verbatim>\<open>agrp_hi_prio\<close> an atomic group's \<^verbatim>\<open>num_hi_prio_queues\<close>.
\<close>

record queue_shm =
  qs_device_id :: u16
  qs_opt :: queue_opt
  qs_ids :: queue_ids
  max_queue_num :: u16
  qs_base :: ptr
  queue_pool :: objpool
  queue_pool_static :: objpool
  queue_pool_aggr :: objpool
  qs_mem :: pool_mem
  queue_elem :: "nat \<Rightarrow> queue_elem"
  queue_names :: "nat \<Rightarrow> string"
  queue_count :: u32
  output_queue_count :: u32
  output_queue_idx_free :: "bool list"
  qgrp_queues :: "hdl \<Rightarrow> nat list"
  qgrp_num_queues :: "hdl \<Rightarrow> u32"
  agrp_queues :: "hdl \<Rightarrow> nat list"
  agrp_num_queues :: "hdl \<Rightarrow> u32"
  agrp_hi_prio :: "hdl \<Rightarrow> u32"

definition qe :: "queue_shm \<Rightarrow> nat \<Rightarrow> ptr" where "qe s i = qs_base s + i"

definition queue_poolelem2queue :: "queue_shm \<Rightarrow> ptr \<Rightarrow> nat" where
  "queue_poolelem2queue s p = p - qs_base s"

definition get_elem :: "queue_shm \<Rightarrow> em_queue_t \<Rightarrow> nat option" where
  "get_elem s q = queue_elem_get (qs_device_id s) (max_queue_num s) q"

definition upd_elem :: "nat \<Rightarrow> (queue_elem \<Rightarrow> queue_elem) \<Rightarrow> queue_shm \<Rightarrow> queue_shm" where
  "upd_elem i f s = s\<lparr>queue_elem := (queue_elem s)(i := f (queue_elem s i))\<rparr>"

definition queue_allocated :: "queue_shm \<Rightarrow> nat \<Rightarrow> bool" where
  "queue_allocated s i \<longleftrightarrow> objpool_in_pool (qe s i) (qs_mem s) = 0"

definition queue_hdl :: "queue_shm \<Rightarrow> nat \<Rightarrow> em_queue_t" where
  "queue_hdl s i = ucast (q_queue (queue_elem s i))"

section \<open>Allocation\<close>

text \<open>\<^verbatim>\<open>thr\<close> is \<^verbatim>\<open>odp_thread_id()\<close>. The left result is the error text.\<close>

definition queue_alloc :: "u32 \<Rightarrow> em_queue_t \<Rightarrow> queue_shm \<Rightarrow> (string + em_queue_t) \<times> queue_shm" where
  "queue_alloc thr q s =
     (if q = EM_QUEUE_UNDEF
      then (case objpool_rem (queue_pool s) thr (qs_mem s) of
              (None, m) \<Rightarrow> (Inl ''queue pool element alloc failed!'', s\<lparr>qs_mem := m\<rparr>)
            | (Some el, m) \<Rightarrow>
                let i = queue_poolelem2queue s el;
                    s' = s\<lparr>qs_mem := m, queue_count := queue_count s + 1\<rparr>
                in (Inr (queue_hdl s' i), s'))
      else if iq_device_id q \<noteq> qs_device_id s \<or> \<not> id_in_queue_pool_static (qs_opt s) (qs_ids s) (iq_queue_id q)
      then (Inl ''Invalid queue requested or handle not from static range!'', s)
      else (case get_elem s q of
              None \<Rightarrow> (Inl ''queue_elem ptr NULL!'', s)
            | Some i \<Rightarrow>
                if queue_allocated s i then (Inl ''queue already allocated!'', s)
                else (case objpool_rem_elem (queue_pool_static s) (qe s i) (qs_mem s) of
                        (ret, m) \<Rightarrow>
                          if ret \<noteq> 0 then (Inl ''static queue pool element alloc failed!'', s\<lparr>qs_mem := m\<rparr>)
                          else let s' = s\<lparr>qs_mem := m, queue_count := queue_count s + 1\<rparr>
                               in (Inr (queue_hdl s' i), s'))))"

definition queue_free :: "em_queue_t \<Rightarrow> queue_shm \<Rightarrow> em_status_t \<times> queue_shm" where
  "queue_free q s =
     (case get_elem s q of
        None \<Rightarrow> (EM_ERR_BAD_ID, s)
      | Some i \<Rightarrow>
          let p = (if id_in_queue_pool_static (qs_opt s) (qs_ids s) (iq_queue_id q) then queue_pool_static s else queue_pool s);
              s1 = upd_elem i (\<lambda>e. e\<lparr>q_state := EM_QUEUE_STATE_INVALID\<rparr>) s;
              m = objpool_add p (subpool_idx (pm_elem (qs_mem s1) (qe s i))) (qe s i) (qs_mem s1)
          in (EM_OK, s1\<lparr>qs_mem := m, queue_count := queue_count s1 - 1\<rparr>))"

definition queue_aggr_alloc :: "u32 \<Rightarrow> queue_shm \<Rightarrow> (string + em_queue_t) \<times> queue_shm" where
  "queue_aggr_alloc thr s =
     (case objpool_rem (queue_pool_aggr s) thr (qs_mem s) of
        (None, m) \<Rightarrow> (Inl ''aggregator queue pool element alloc failed!'', s\<lparr>qs_mem := m\<rparr>)
      | (Some el, m) \<Rightarrow>
          let i = queue_poolelem2queue s el;
              s' = s\<lparr>qs_mem := m, queue_count := queue_count s + 1\<rparr>
          in (Inr (queue_hdl s' i), s'))"

definition queue_aggr_free :: "nat \<Rightarrow> queue_shm \<Rightarrow> queue_shm" where
  "queue_aggr_free i s =
     (let s1 = upd_elem i (\<lambda>e. e\<lparr>q_state := EM_QUEUE_STATE_INVALID, parent_queue := EM_QUEUE_UNDEF, aggr_pool := 0,
                 aggr_max_tmo_ns := 0, aggr_max_size := 0, aggr_event_type := 0\<rparr>) s;
          m = objpool_add (queue_pool_aggr s1) (subpool_idx (pm_elem (qs_mem s1) (qe s i))) (qe s i) (qs_mem s1)
      in s1\<lparr>qs_mem := m, queue_count := queue_count s1 - 1\<rparr>)"

text \<open>
  \<^verbatim>\<open>queue_init\<close>: the result of the two capability queries, of the reservation of shared memory and of
  the priority mapping are its arguments. \<^verbatim>\<open>memset\<close> of the reserved memory clears the elements.
\<close>

definition zero_queue_elem :: queue_elem where
  "zero_queue_elem = \<lparr>valid_check = 0, use_multi_rcv = False, scheduled = False, in_atomic_group = False,
     is_pktin = False, has_aggr = False, q_state = 0, q_priority = 0, q_type = EM_QUEUE_TYPE_UNDEF,
     q_max_events = 0, q_eo = 0, q_queue = 0, odp_queue = 0, q_context = 0, receive_func = 0, q_eo_ctx = 0,
     q_atomic_group = 0, aggr_queues = [], parent_queue = 0, aggr_pool = 0, aggr_max_tmo_ns = 0,
     aggr_max_size = 0, aggr_event_type = 0, output_fn = 0, output_fn_args = 0, output_fn_args_event = 0,
     output_idx = 0, q_eo_elem = 0, q_queue_group = 0\<rparr>"

definition clear_nodes :: "ptr \<Rightarrow> nat \<Rightarrow> pool_mem \<Rightarrow> pool_mem" where
  "clear_nodes base n m =
     (let inr = (\<lambda>x. base \<le> x \<and> x < base + n)
      in \<lparr>pm_heap = \<lparr>lnext = (\<lambda>x. if inr x then 0 else lnext (pm_heap m) x),
                       lprev = (\<lambda>x. if inr x then 0 else lprev (pm_heap m) x)\<rparr>,
          pm_elem = (\<lambda>x. if inr x then \<lparr>subpool_idx = 0, in_pool = 0\<rparr> else pm_elem m x)\<rparr>)"

definition queue_init_pools :: "queue_shm \<Rightarrow> queue_shm" where
  "queue_init_pools s =
     (let ids = qs_ids s; opt = qs_opt s;
          min1 = queue_id2idx (if num_static opt \<noteq> 0 then first_static_queue_id ids else first_internal_queue_id ids);
          max1 = queue_id2idx (last_internal_queue_id ids);
          s1 = s\<lparr>qs_mem := queue_pool_populate (qe s) (queue_pool_static s) (nat min1) (nat max1) (qs_mem s)\<rparr>;
          s2 = (if num_dynamic opt \<noteq> 0
                then s1\<lparr>qs_mem := queue_pool_populate (qe s) (queue_pool s) (nat (queue_id2idx (first_dyn_queue_id ids)))
                         (nat (queue_id2idx (last_dyn_queue_id ids))) (qs_mem s1)\<rparr>
                else s1)
      in if num_aggr opt \<noteq> 0
         then s2\<lparr>qs_mem := queue_pool_populate (qe s) (queue_pool_aggr s) (nat (queue_id2idx (first_aggr_queue_id ids)))
                  (nat (queue_id2idx (last_aggr_queue_id ids))) (qs_mem s2)\<rparr>
         else s2)"

definition queue_init ::
  "int \<Rightarrow> int \<Rightarrow> (queue_opt \<times> u16) option \<Rightarrow> bool \<Rightarrow> int \<Rightarrow> queue_shm \<Rightarrow> em_status_t reported \<times> queue_shm" where
  "queue_init odp_queue_capa odp_sched_capa conf reserved prio_ret s =
     (let s0 = s\<lparr>queue_count := 0, output_queue_count := 0\<rparr>;
          (r1, p1, m1) = queue_pool_init (queue_pool s0) (qs_mem s0);
          s1 = s0\<lparr>queue_pool := p1, qs_mem := m1\<rparr>;
          (r2, p2, m2) = (if r1 = 0 then queue_pool_init (queue_pool_static s1) (qs_mem s1)
                          else (r1, queue_pool_static s1, qs_mem s1));
          s2 = s1\<lparr>queue_pool_static := p2, qs_mem := m2\<rparr>;
          (r3, p3, m3) = (if r2 = 0 then queue_pool_init (queue_pool_aggr s2) (qs_mem s2)
                          else (r2, queue_pool_aggr s2, qs_mem s2));
          s3 = s2\<lparr>queue_pool_aggr := p3, qs_mem := m3\<rparr>
      in if r3 \<noteq> 0 then (Inr EM_ERR_LIB_FAILED, s3)
         else if odp_queue_capa \<noteq> 0 then (Inl (EM_ERR_LIB_FAILED, ''EM_ESCOPE_INIT''), s3)
         else if odp_sched_capa \<noteq> 0 then (Inl (EM_ERR_LIB_FAILED, ''EM_ESCOPE_INIT''), s3)
         else (case conf of
             None \<Rightarrow> (Inr EM_ERR_LIB_FAILED, s3)
           | Some (opt, maxn) \<Rightarrow>
               let s4 = s3\<lparr>qs_opt := opt, max_queue_num := maxn, qs_ids := queue_init_ids opt\<rparr>
               in if \<not> reserved then (Inl (EM_ERR_LIB_FAILED, ''EM_ESCOPE_INIT''), s4)
                  else let s5 = s4\<lparr>qs_mem := clear_nodes (qs_base s4) (unat maxn) (qs_mem s4),
                             queue_names := (\<lambda>_. []),
                             queue_elem := (\<lambda>i. if i < unat maxn
                               then zero_queue_elem\<lparr>q_queue := ucast (queue_idx2hdl (qs_device_id s4) (int i))\<rparr>
                               else queue_elem s4 i)\<rparr>;
                           s6 = queue_init_pools s5
                       in if prio_ret \<noteq> 0 then (Inl (EM_ERR_LIB_FAILED, ''EM_ESCOPE_INIT''), s6)
                          else (Inr EM_OK, s6\<lparr>output_queue_idx_free := replicate (unat EM_MAX_OUTPUT_QUEUES) True\<rparr>)))"

section \<open>The allocation invariant\<close>

definition static_idx :: "queue_opt \<Rightarrow> nat set" where
  "static_idx opt = {i. i < unat (num_static opt) + 97}"

definition dyn_idx :: "queue_opt \<Rightarrow> nat set" where
  "dyn_idx opt = {i. unat (num_static opt) + 97 \<le> i \<and> i < unat (num_static opt) + 97 + unat (num_dynamic opt)}"

definition aggr_idx :: "queue_opt \<Rightarrow> nat set" where
  "aggr_idx opt = {i. unat (num_static opt) + 97 + unat (num_dynamic opt) \<le> i \<and>
     i < unat (num_static opt) + 97 + unat (num_dynamic opt) + unat (num_aggr opt)}"

definition node_area :: "queue_shm \<Rightarrow> ptr set" where
  "node_area s = qe s ` {i. i < unat (max_queue_num s)}"

definition pools_apart :: "queue_shm \<Rightarrow> bool" where
  "pools_apart s \<longleftrightarrow>
     set (op_heads (queue_pool s)) \<inter> set (op_heads (queue_pool_static s)) = {} \<and>
     set (op_heads (queue_pool s)) \<inter> set (op_heads (queue_pool_aggr s)) = {} \<and>
     set (op_heads (queue_pool_static s)) \<inter> set (op_heads (queue_pool_aggr s)) = {} \<and>
     (set (op_heads (queue_pool s)) \<union> set (op_heads (queue_pool_static s)) \<union> set (op_heads (queue_pool_aggr s))) \<inter>
       node_area s = {}"

text \<open>Exactly the queues \<^verbatim>\<open>FS\<close>, \<^verbatim>\<open>FD\<close> and \<^verbatim>\<open>FA\<close> of the static, dynamic and aggregator ranges are free.\<close>

definition queue_tbl_ok :: "queue_shm \<Rightarrow> bool" where
  "queue_tbl_ok s \<longleftrightarrow>
     opt_ok (qs_opt s) (max_queue_num s) \<and> qs_ids s = queue_init_ids (qs_opt s) \<and> pools_apart s \<and>
     (\<forall>i < unat (max_queue_num s). q_queue (queue_elem s i) = ucast (queue_idx2hdl (qs_device_id s) (int i)))"

definition queue_rep :: "nat set \<Rightarrow> nat set \<Rightarrow> nat set \<Rightarrow> queue_shm \<Rightarrow> bool" where
  "queue_rep FS FD FA s \<longleftrightarrow>
     queue_tbl_ok s \<and> FS \<subseteq> static_idx (qs_opt s) \<and> FD \<subseteq> dyn_idx (qs_opt s) \<and> FA \<subseteq> aggr_idx (qs_opt s) \<and>
     pool_free (queue_pool_static s) (qe s ` static_idx (qs_opt s)) (qe s ` FS) (qs_mem s) \<and>
     pool_free (queue_pool s) (qe s ` dyn_idx (qs_opt s)) (qe s ` FD) (qs_mem s) \<and>
     pool_free (queue_pool_aggr s) (qe s ` aggr_idx (qs_opt s)) (qe s ` FA) (qs_mem s) \<and>
     queue_count s = of_nat (card (static_idx (qs_opt s) - FS) + card (dyn_idx (qs_opt s) - FD) + card (aggr_idx (qs_opt s) - FA))"

lemma qe_inj [simp]: "qe s i = qe s j \<longleftrightarrow> i = j"
  by (simp add: qe_def)

lemma qe_image_iff [simp]: "qe s i \<in> qe s ` F \<longleftrightarrow> i \<in> F"
  by (auto simp: image_iff)

lemma qe_image_diff: "qe s ` F - {qe s i} = qe s ` (F - {i})"
  by (auto simp: image_iff)

lemma poolelem2queue_qe [simp]: "queue_poolelem2queue s (qe s i) = i"
  by (simp add: queue_poolelem2queue_def qe_def)

lemma idx_lt:
  assumes "opt_ok opt maxn"
  shows "i \<in> static_idx opt \<Longrightarrow> i < unat maxn" "i \<in> dyn_idx opt \<Longrightarrow> i < unat maxn" "i \<in> aggr_idx opt \<Longrightarrow> i < unat maxn"
    "i < unat maxn \<Longrightarrow> i \<in> static_idx opt \<or> i \<in> dyn_idx opt \<or> i \<in> aggr_idx opt"
  using assms by (auto simp: opt_ok_def static_idx_def dyn_idx_def aggr_idx_def)

lemma idx_disjoint: "static_idx opt \<inter> dyn_idx opt = {}" "static_idx opt \<inter> aggr_idx opt = {}" "dyn_idx opt \<inter> aggr_idx opt = {}"
  by (auto simp: static_idx_def dyn_idx_def aggr_idx_def)

lemma areas_apart:
  assumes "queue_tbl_ok s"
  shows "pool_area (queue_pool_static s) (qe s ` static_idx (qs_opt s)) \<inter>
      pool_area (queue_pool s) (qe s ` dyn_idx (qs_opt s)) = {}" (is ?A)
    "pool_area (queue_pool_static s) (qe s ` static_idx (qs_opt s)) \<inter>
      pool_area (queue_pool_aggr s) (qe s ` aggr_idx (qs_opt s)) = {}" (is ?B)
    "pool_area (queue_pool s) (qe s ` dyn_idx (qs_opt s)) \<inter>
      pool_area (queue_pool_aggr s) (qe s ` aggr_idx (qs_opt s)) = {}" (is ?C)
proof -
  have ok: "opt_ok (qs_opt s) (max_queue_num s)" and ap: "pools_apart s" using assms by (simp_all add: queue_tbl_ok_def)
  have sub: "qe s ` static_idx (qs_opt s) \<subseteq> node_area s" "qe s ` dyn_idx (qs_opt s) \<subseteq> node_area s"
    "qe s ` aggr_idx (qs_opt s) \<subseteq> node_area s"
    using idx_lt [OF ok] by (auto simp: node_area_def)
  have dis: "qe s ` static_idx (qs_opt s) \<inter> qe s ` dyn_idx (qs_opt s) = {}"
    "qe s ` static_idx (qs_opt s) \<inter> qe s ` aggr_idx (qs_opt s) = {}"
    "qe s ` dyn_idx (qs_opt s) \<inter> qe s ` aggr_idx (qs_opt s) = {}"
    using idx_disjoint [of "qs_opt s"] by auto
  have apart: "(HA \<union> A) \<inter> (HB \<union> B) = {}"
    if "HA \<inter> HB = {}" "HA \<inter> N = {}" "HB \<inter> N = {}" "A \<subseteq> N" "B \<subseteq> N" "A \<inter> B = {}" for HA HB N A B :: "ptr set"
    using that by blast
  have heads: "set (op_heads (queue_pool s)) \<inter> node_area s = {}" "set (op_heads (queue_pool_static s)) \<inter> node_area s = {}"
    "set (op_heads (queue_pool_aggr s)) \<inter> node_area s = {}"
    "set (op_heads (queue_pool_static s)) \<inter> set (op_heads (queue_pool s)) = {}"
    "set (op_heads (queue_pool_static s)) \<inter> set (op_heads (queue_pool_aggr s)) = {}"
    "set (op_heads (queue_pool s)) \<inter> set (op_heads (queue_pool_aggr s)) = {}"
    using ap unfolding pools_apart_def by blast+
  show ?A unfolding pool_area_def by (rule apart [OF heads(4,2,1) sub(1,2) dis(1)])
  show ?B unfolding pool_area_def by (rule apart [OF heads(5,2,3) sub(1,3) dis(2)])
  show ?C unfolding pool_area_def by (rule apart [OF heads(6,1,3) sub(2,3) dis(3)])
qed

lemma queue_repD:
  assumes "queue_rep FS FD FA s"
  shows "queue_tbl_ok s" "opt_ok (qs_opt s) (max_queue_num s)"
    "FS \<subseteq> static_idx (qs_opt s)" "FD \<subseteq> dyn_idx (qs_opt s)" "FA \<subseteq> aggr_idx (qs_opt s)"
    "pool_free (queue_pool_static s) (qe s ` static_idx (qs_opt s)) (qe s ` FS) (qs_mem s)"
    "pool_free (queue_pool s) (qe s ` dyn_idx (qs_opt s)) (qe s ` FD) (qs_mem s)"
    "pool_free (queue_pool_aggr s) (qe s ` aggr_idx (qs_opt s)) (qe s ` FA) (qs_mem s)"
    "queue_count s = of_nat (card (static_idx (qs_opt s) - FS) + card (dyn_idx (qs_opt s) - FD) + card (aggr_idx (qs_opt s) - FA))"
  using assms unfolding queue_rep_def queue_tbl_ok_def by blast+

lemma ucast_ucast_take: "(ucast (ucast q :: u32) :: u64) = take_bit 32 q"
  by (rule bit_word_eqI) (auto simp: bit_simps)

lemma queue_hdl_idx:
  assumes "queue_tbl_ok s" "i < unat (max_queue_num s)"
  shows "queue_hdl s i = queue_idx2hdl (qs_device_id s) (int i)"
proof -
  have "queue_idx2hdl (qs_device_id s) (int i) = take_bit 32 (queue_idx2hdl (qs_device_id s) (int i))"
    using queue_elem_get_iff [of "qs_device_id s" "max_queue_num s" "queue_idx2hdl (qs_device_id s) (int i)" i] assms(2)
    by (metis internal_queue_of_parts internal_queue_parts queue_idx2hdl_id)
  then have "(ucast (ucast (queue_idx2hdl (qs_device_id s) (int i)) :: u32) :: u64) = queue_idx2hdl (qs_device_id s) (int i)"
    by (simp add: ucast_ucast_take)
  then show ?thesis using assms by (simp add: queue_hdl_def queue_tbl_ok_def)
qed

section \<open>Correctness of the allocation\<close>

text \<open>What an operation on the queues leaves alone so that only the pool memory and the count matter.\<close>

definition queue_frame :: "queue_shm \<Rightarrow> queue_shm \<Rightarrow> bool" where
  "queue_frame s s' \<longleftrightarrow>
     qs_device_id s' = qs_device_id s \<and> qs_opt s' = qs_opt s \<and> qs_ids s' = qs_ids s \<and>
     max_queue_num s' = max_queue_num s \<and> qs_base s' = qs_base s \<and> queue_pool s' = queue_pool s \<and>
     queue_pool_static s' = queue_pool_static s \<and> queue_pool_aggr s' = queue_pool_aggr s \<and>
     (\<forall>i. q_queue (queue_elem s' i) = q_queue (queue_elem s i))"

lemma qe_frame: "queue_frame s s' \<Longrightarrow> qe s' = qe s"
  by (simp add: queue_frame_def qe_def fun_eq_iff)

lemma frame_tbl_ok: "queue_frame s s' \<Longrightarrow> queue_tbl_ok s \<Longrightarrow> queue_tbl_ok s'"
  using qe_frame [of s s'] by (simp add: queue_tbl_ok_def queue_frame_def pools_apart_def node_area_def)

lemma queue_rep_frame:
  assumes "queue_rep FS FD FA s" "queue_frame s s'"
    "FS' \<subseteq> static_idx (qs_opt s)" "FD' \<subseteq> dyn_idx (qs_opt s)" "FA' \<subseteq> aggr_idx (qs_opt s)"
    "pool_free (queue_pool_static s) (qe s ` static_idx (qs_opt s)) (qe s ` FS') (qs_mem s')"
    "pool_free (queue_pool s) (qe s ` dyn_idx (qs_opt s)) (qe s ` FD') (qs_mem s')"
    "pool_free (queue_pool_aggr s) (qe s ` aggr_idx (qs_opt s)) (qe s ` FA') (qs_mem s')"
    "queue_count s' = of_nat (card (static_idx (qs_opt s) - FS') + card (dyn_idx (qs_opt s) - FD') + card (aggr_idx (qs_opt s) - FA'))"
  shows "queue_rep FS' FD' FA' s'"
proof -
  have "queue_tbl_ok s'" using frame_tbl_ok [OF assms(2) queue_repD(1) [OF assms(1)]] .
  then show ?thesis
    using assms(2-) qe_frame [OF assms(2)] unfolding queue_rep_def queue_frame_def by simp
qed

text \<open>Only one pool changes; the others are as before.\<close>

lemma queue_rep_static:
  assumes r: "queue_rep FS FD FA s" and f: "queue_frame s s'" and F: "FS' \<subseteq> static_idx (qs_opt s)"
    and p: "pool_free (queue_pool_static s) (qe s ` static_idx (qs_opt s)) (qe s ` FS') (qs_mem s')"
    and same: "\<And>S. S \<inter> pool_area (queue_pool_static s) (qe s ` static_idx (qs_opt s)) = {} \<Longrightarrow> pool_same S (qs_mem s) (qs_mem s')"
    and c: "queue_count s' = of_nat (card (static_idx (qs_opt s) - FS') + card (dyn_idx (qs_opt s) - FD) + card (aggr_idx (qs_opt s) - FA))"
  shows "queue_rep FS' FD FA s'"
proof -
  note D = queue_repD [OF r] and ap = areas_apart [OF queue_repD(1) [OF r]]
  show ?thesis
  proof (rule queue_rep_frame [OF r f F D(4,5) p _ _ c])
    show "pool_free (queue_pool s) (qe s ` dyn_idx (qs_opt s)) (qe s ` FD) (qs_mem s')"
      by (rule pool_free_same [OF D(7) same]) (use ap(1) in blast)
    show "pool_free (queue_pool_aggr s) (qe s ` aggr_idx (qs_opt s)) (qe s ` FA) (qs_mem s')"
      by (rule pool_free_same [OF D(8) same]) (use ap(2) in blast)
  qed
qed

lemma queue_rep_dyn:
  assumes r: "queue_rep FS FD FA s" and f: "queue_frame s s'" and F: "FD' \<subseteq> dyn_idx (qs_opt s)"
    and p: "pool_free (queue_pool s) (qe s ` dyn_idx (qs_opt s)) (qe s ` FD') (qs_mem s')"
    and same: "\<And>S. S \<inter> pool_area (queue_pool s) (qe s ` dyn_idx (qs_opt s)) = {} \<Longrightarrow> pool_same S (qs_mem s) (qs_mem s')"
    and c: "queue_count s' = of_nat (card (static_idx (qs_opt s) - FS) + card (dyn_idx (qs_opt s) - FD') + card (aggr_idx (qs_opt s) - FA))"
  shows "queue_rep FS FD' FA s'"
proof -
  note D = queue_repD [OF r] and ap = areas_apart [OF queue_repD(1) [OF r]]
  show ?thesis
  proof (rule queue_rep_frame [OF r f D(3) F D(5) _ p _ c])
    show "pool_free (queue_pool_static s) (qe s ` static_idx (qs_opt s)) (qe s ` FS) (qs_mem s')"
      by (rule pool_free_same [OF D(6) same]) (use ap(1) in blast)
    show "pool_free (queue_pool_aggr s) (qe s ` aggr_idx (qs_opt s)) (qe s ` FA) (qs_mem s')"
      by (rule pool_free_same [OF D(8) same]) (use ap(3) in blast)
  qed
qed

lemma queue_rep_aggr:
  assumes r: "queue_rep FS FD FA s" and f: "queue_frame s s'" and F: "FA' \<subseteq> aggr_idx (qs_opt s)"
    and p: "pool_free (queue_pool_aggr s) (qe s ` aggr_idx (qs_opt s)) (qe s ` FA') (qs_mem s')"
    and same: "\<And>S. S \<inter> pool_area (queue_pool_aggr s) (qe s ` aggr_idx (qs_opt s)) = {} \<Longrightarrow> pool_same S (qs_mem s) (qs_mem s')"
    and c: "queue_count s' = of_nat (card (static_idx (qs_opt s) - FS) + card (dyn_idx (qs_opt s) - FD) + card (aggr_idx (qs_opt s) - FA'))"
  shows "queue_rep FS FD FA' s'"
proof -
  note D = queue_repD [OF r] and ap = areas_apart [OF queue_repD(1) [OF r]]
  show ?thesis
  proof (rule queue_rep_frame [OF r f D(3,4) F _ _ p c])
    show "pool_free (queue_pool_static s) (qe s ` static_idx (qs_opt s)) (qe s ` FS) (qs_mem s')"
      by (rule pool_free_same [OF D(6) same]) (use ap(2) in blast)
    show "pool_free (queue_pool s) (qe s ` dyn_idx (qs_opt s)) (qe s ` FD) (qs_mem s')"
      by (rule pool_free_same [OF D(7) same]) (use ap(3) in blast)
  qed
qed

lemma card_take:
  assumes "finite A" "F \<subseteq> A" "x \<in> F"
  shows "card (A - (F - {x})) = Suc (card (A - F))"
proof -
  have "A - (F - {x}) = insert x (A - F)" using assms(2,3) by auto
  then show ?thesis using assms by simp
qed

lemma card_give: "finite A \<Longrightarrow> x \<in> A \<Longrightarrow> x \<notin> F \<Longrightarrow> card (A - F) = Suc (card (A - insert x F))"
  by (metis Diff_iff Diff_insert card_Suc_Diff1 finite_Diff)

lemma idx_finite [simp]: "finite (static_idx opt)" "finite (dyn_idx opt)" "finite (aggr_idx opt)"
  by (auto simp: static_idx_def dyn_idx_def aggr_idx_def)

lemma queue_alloc_dyn:
  assumes r: "queue_rep FS FD FA s"
  shows "if FD = {} then queue_alloc thr EM_QUEUE_UNDEF s = (Inl ''queue pool element alloc failed!'', s)
    else \<exists>i s'. i \<in> FD \<and> queue_alloc thr EM_QUEUE_UNDEF s = (Inr (queue_idx2hdl (qs_device_id s) (int i)), s') \<and>
      queue_frame s s' \<and> queue_elem s' = queue_elem s \<and> queue_rep FS (FD - {i}) FA s'"
proof -
  note D = queue_repD [OF r]
  note rem = pool_free_rem [OF D(7), of thr]
  show ?thesis
  proof (cases "FD = {}")
    case True
    then show ?thesis using rem by (simp add: queue_alloc_def)
  next
    case False
    then obtain i m where i: "i \<in> FD" "objpool_rem (queue_pool s) thr (qs_mem s) = (Some (qe s i), m)"
      "pool_free (queue_pool s) (qe s ` dyn_idx (qs_opt s)) (qe s ` FD - {qe s i}) m"
      using rem by auto
    let ?s = "s\<lparr>qs_mem := m, queue_count := queue_count s + 1\<rparr>"
    have f: "queue_frame s ?s" by (simp add: queue_frame_def)
    have lt: "i < unat (max_queue_num s)" using idx_lt(2) [OF D(2)] D(4) i(1) by blast
    have "queue_rep FS (FD - {i}) FA ?s"
    proof (rule queue_rep_dyn [OF r f])
      show "FD - {i} \<subseteq> dyn_idx (qs_opt s)" using D(4) by blast
      show "pool_free (queue_pool s) (qe s ` dyn_idx (qs_opt s)) (qe s ` (FD - {i})) (qs_mem ?s)"
        using i(3) by (simp add: qe_image_diff)
      show "pool_same S (qs_mem s) (qs_mem ?s)" if "S \<inter> pool_area (queue_pool s) (qe s ` dyn_idx (qs_opt s)) = {}" for S
        using objpool_rem_same [OF D(7) that, of thr] i(2) by simp
    qed (use D(9) card_take [OF idx_finite(2) D(4) i(1)] in simp)
    moreover have "queue_alloc thr EM_QUEUE_UNDEF s = (Inr (queue_idx2hdl (qs_device_id s) (int i)), ?s)"
      using i(2) queue_hdl_idx [OF D(1) lt] by (simp add: queue_alloc_def Let_def queue_hdl_def)
    ultimately show ?thesis using False i(1) f by auto
  qed
qed

lemma allocated_static:
  assumes "queue_rep FS FD FA s" "i \<in> static_idx (qs_opt s)"
  shows "queue_allocated s i \<longleftrightarrow> i \<notin> FS"
proof -
  obtain c where c: "pool_repr (queue_pool_static s) (qe s ` static_idx (qs_opt s)) c (qs_mem s)"
    "free_elems (queue_pool_static s) c = qe s ` FS"
    using queue_repD(6) [OF assms(1)] by (auto simp: pool_free_def)
  show ?thesis
    using pool_repr_in_pool [OF c(1), of "qe s i"] assms(2) c(2) by (auto simp: queue_allocated_def objpool_in_pool_def)
qed

lemma static_id:
  assumes "queue_tbl_ok s" "get_elem s q = Some i"
  shows "id_in_queue_pool_static (qs_opt s) (qs_ids s) (iq_queue_id q) \<longleftrightarrow> i \<in> static_idx (qs_opt s)"
proof -
  have i: "i < unat (max_queue_num s)" "take_bit 32 q = queue_idx2hdl (qs_device_id s) (int i)"
    using assms(2) by (simp_all add: get_elem_def queue_elem_get_iff)
  then have "iq_queue_id q = queue_idx2id (int i)"
    by (metis internal_queue_of_parts internal_queue_parts(1) queue_idx2hdl_id)
  then show ?thesis using id_static_iff [OF _ i(1)] assms(1) by (simp add: queue_tbl_ok_def static_idx_def)
qed

lemma queue_alloc_static:
  assumes r: "queue_rep FS FD FA s" and q: "q \<noteq> EM_QUEUE_UNDEF"
  shows "if \<exists>i \<in> FS. take_bit 32 q = queue_idx2hdl (qs_device_id s) (int i)
    then \<exists>i s'. i \<in> FS \<and> take_bit 32 q = queue_idx2hdl (qs_device_id s) (int i) \<and>
      queue_alloc thr q s = (Inr (take_bit 32 q), s') \<and> queue_frame s s' \<and> queue_elem s' = queue_elem s \<and>
      queue_rep (FS - {i}) FD FA s'
    else \<exists>e. queue_alloc thr q s = (Inl e, s)"
proof (cases "\<exists>i \<in> FS. take_bit 32 q = queue_idx2hdl (qs_device_id s) (int i)")
  case True
  note D = queue_repD [OF r]
  obtain i where i: "i \<in> FS" "take_bit 32 q = queue_idx2hdl (qs_device_id s) (int i)" using True by blast
  have si: "i \<in> static_idx (qs_opt s)" using D(3) i(1) by blast
  have lt: "i < unat (max_queue_num s)" using idx_lt(1) [OF D(2) si] .
  have g: "get_elem s q = Some i" using i(2) lt by (simp add: get_elem_def queue_elem_get_iff)
  have dev: "iq_device_id q = qs_device_id s"
    using i(2) by (metis internal_queue_of_parts internal_queue_parts(2) queue_idx2hdl_id)
  have "qe s i \<in> qe s ` FS" using i(1) by simp
  from opool.take_free [OF D(6) this] obtain m where
    m: "objpool_rem_elem (queue_pool_static s) (qe s i) (qs_mem s) = (0, m)"
      "pool_free (queue_pool_static s) (qe s ` static_idx (qs_opt s)) (qe s ` FS - {qe s i}) m" by blast
  let ?s = "s\<lparr>qs_mem := m, queue_count := queue_count s + 1\<rparr>"
  have f: "queue_frame s ?s" by (simp add: queue_frame_def)
  have "queue_rep (FS - {i}) FD FA ?s"
  proof (rule queue_rep_static [OF r f])
    show "FS - {i} \<subseteq> static_idx (qs_opt s)" using D(3) by blast
    show "pool_free (queue_pool_static s) (qe s ` static_idx (qs_opt s)) (qe s ` (FS - {i})) (qs_mem ?s)"
      using m(2) by (simp add: qe_image_diff)
    show "pool_same S (qs_mem s) (qs_mem ?s)"
      if "S \<inter> pool_area (queue_pool_static s) (qe s ` static_idx (qs_opt s)) = {}" for S
      using objpool_rem_elem_same [OF D(6) _ that, of "qe s i"] si m(1) by simp
  qed (use D(9) card_take [OF idx_finite(1) D(3) i(1)] in simp)
  moreover have "queue_alloc thr q s = (Inr (take_bit 32 q), ?s)"
    using q g dev static_id [OF D(1) g] si allocated_static [OF r si] i m(1) queue_hdl_idx [OF D(1) lt]
    by (simp add: queue_alloc_def Let_def queue_hdl_def)
  ultimately show ?thesis using True i f by auto
next
  case False
  note D = queue_repD [OF r]
  have "\<exists>e. queue_alloc thr q s = (Inl e, s)"
  proof (cases "get_elem s q")
    case None
    then show ?thesis using q by (simp add: queue_alloc_def)
  next
    case (Some i)
    then have t: "take_bit 32 q = queue_idx2hdl (qs_device_id s) (int i)"
      by (simp add: get_elem_def queue_elem_get_iff)
    then have "i \<notin> FS" using False by blast
    then have "i \<in> static_idx (qs_opt s) \<Longrightarrow> queue_allocated s i" using allocated_static [OF r] by blast
    then show ?thesis using q Some static_id [OF D(1) Some] by (simp add: queue_alloc_def)
  qed
  then show ?thesis using False by simp
qed

lemma queue_free_rep:
  assumes r: "queue_rep FS FD FA s" and g: "get_elem s q = Some i" and i: "i \<notin> FS" "i \<notin> FD" "i \<notin> aggr_idx (qs_opt s)"
  shows "\<exists>s'. queue_free q s = (EM_OK, s') \<and> queue_frame s s' \<and>
    queue_elem s' = (queue_elem s)(i := (queue_elem s i)\<lparr>q_state := EM_QUEUE_STATE_INVALID\<rparr>) \<and>
    (if i \<in> static_idx (qs_opt s) then queue_rep (insert i FS) FD FA s' else queue_rep FS (insert i FD) FA s')"
proof -
  note D = queue_repD [OF r]
  let ?s1 = "upd_elem i (\<lambda>e. e\<lparr>q_state := EM_QUEUE_STATE_INVALID\<rparr>) s"
  define p where "p = (if i \<in> static_idx (qs_opt s) then queue_pool_static s else queue_pool s)"
  let ?m = "objpool_add p (subpool_idx (pm_elem (qs_mem s) (qe s i))) (qe s i) (qs_mem s)"
  let ?s = "?s1\<lparr>qs_mem := ?m, queue_count := queue_count s - 1\<rparr>"
  have q: "queue_free q s = (EM_OK, ?s)"
    using g static_id [OF D(1) g] by (simp add: queue_free_def Let_def upd_elem_def p_def)
  have f: "queue_frame s ?s" by (simp add: queue_frame_def upd_elem_def)
  have lt: "i < unat (max_queue_num s)" using g by (simp add: get_elem_def queue_elem_get_iff)
  have rep: "if i \<in> static_idx (qs_opt s) then queue_rep (insert i FS) FD FA ?s else queue_rep FS (insert i FD) FA ?s"
  proof (cases "i \<in> static_idx (qs_opt s)")
    case True
    have n: "qe s i \<in> qe s ` static_idx (qs_opt s) - qe s ` FS" using True i(1) by auto
    have "queue_rep (insert i FS) FD FA ?s"
    proof (rule queue_rep_static [OF r f])
      show "insert i FS \<subseteq> static_idx (qs_opt s)" using D(3) True by blast
      show "pool_free (queue_pool_static s) (qe s ` static_idx (qs_opt s)) (qe s ` insert i FS) (qs_mem ?s)"
        using pool_free_add [OF D(6) n] True by (simp add: p_def)
      show "pool_same S (qs_mem s) (qs_mem ?s)"
        if "S \<inter> pool_area (queue_pool_static s) (qe s ` static_idx (qs_opt s)) = {}" for S
        using objpool_add_same [OF D(6) _ that, of "qe s i"] True by (simp add: p_def)
    qed (use D(9) card_give [OF idx_finite(1) True i(1)] in simp)
    then show ?thesis using True by simp
  next
    case False
    then have d: "i \<in> dyn_idx (qs_opt s)" using idx_lt(4) [OF D(2) lt] i(3) by blast
    have n: "qe s i \<in> qe s ` dyn_idx (qs_opt s) - qe s ` FD" using d i(2) by auto
    have "queue_rep FS (insert i FD) FA ?s"
    proof (rule queue_rep_dyn [OF r f])
      show "insert i FD \<subseteq> dyn_idx (qs_opt s)" using D(4) d by blast
      show "pool_free (queue_pool s) (qe s ` dyn_idx (qs_opt s)) (qe s ` insert i FD) (qs_mem ?s)"
        using pool_free_add [OF D(7) n] False by (simp add: p_def)
      show "pool_same S (qs_mem s) (qs_mem ?s)"
        if "S \<inter> pool_area (queue_pool s) (qe s ` dyn_idx (qs_opt s)) = {}" for S
        using objpool_add_same [OF D(7) _ that, of "qe s i"] False d by (simp add: p_def)
    qed (use D(9) card_give [OF idx_finite(2) d i(2)] in simp)
    then show ?thesis using False by simp
  qed
  show ?thesis using q f rep by (auto simp: upd_elem_def)
qed

lemma queue_aggr_alloc_rep:
  assumes r: "queue_rep FS FD FA s"
  shows "if FA = {} then \<exists>e. queue_aggr_alloc thr s = (Inl e, s)
    else \<exists>i s'. i \<in> FA \<and> queue_aggr_alloc thr s = (Inr (queue_idx2hdl (qs_device_id s) (int i)), s') \<and>
      queue_frame s s' \<and> queue_elem s' = queue_elem s \<and> queue_rep FS FD (FA - {i}) s'"
proof -
  note D = queue_repD [OF r]
  note rem = pool_free_rem [OF D(8), of thr]
  show ?thesis
  proof (cases "FA = {}")
    case True
    then show ?thesis using rem by (simp add: queue_aggr_alloc_def)
  next
    case False
    then obtain i m where i: "i \<in> FA" "objpool_rem (queue_pool_aggr s) thr (qs_mem s) = (Some (qe s i), m)"
      "pool_free (queue_pool_aggr s) (qe s ` aggr_idx (qs_opt s)) (qe s ` FA - {qe s i}) m"
      using rem by auto
    let ?s = "s\<lparr>qs_mem := m, queue_count := queue_count s + 1\<rparr>"
    have f: "queue_frame s ?s" by (simp add: queue_frame_def)
    have lt: "i < unat (max_queue_num s)" using idx_lt(3) [OF D(2)] D(5) i(1) by blast
    have "queue_rep FS FD (FA - {i}) ?s"
    proof (rule queue_rep_aggr [OF r f])
      show "FA - {i} \<subseteq> aggr_idx (qs_opt s)" using D(5) by blast
      show "pool_free (queue_pool_aggr s) (qe s ` aggr_idx (qs_opt s)) (qe s ` (FA - {i})) (qs_mem ?s)"
        using i(3) by (simp add: qe_image_diff)
      show "pool_same S (qs_mem s) (qs_mem ?s)" if "S \<inter> pool_area (queue_pool_aggr s) (qe s ` aggr_idx (qs_opt s)) = {}" for S
        using objpool_rem_same [OF D(8) that, of thr] i(2) by simp
    qed (use D(9) card_take [OF idx_finite(3) D(5) i(1)] in simp)
    moreover have "queue_aggr_alloc thr s = (Inr (queue_idx2hdl (qs_device_id s) (int i)), ?s)"
      using i(2) queue_hdl_idx [OF D(1) lt] by (simp add: queue_aggr_alloc_def Let_def queue_hdl_def)
    ultimately show ?thesis using False i(1) f by auto
  qed
qed

lemma queue_aggr_free_rep:
  assumes r: "queue_rep FS FD FA s" and i: "i \<in> aggr_idx (qs_opt s)" "i \<notin> FA"
  shows "queue_frame s (queue_aggr_free i s) \<and> queue_rep FS FD (insert i FA) (queue_aggr_free i s)"
proof -
  note D = queue_repD [OF r]
  let ?s = "queue_aggr_free i s"
  have f: "queue_frame s ?s" by (simp add: queue_frame_def queue_aggr_free_def upd_elem_def Let_def)
  have n: "qe s i \<in> qe s ` aggr_idx (qs_opt s) - qe s ` FA" using i by auto
  have "queue_rep FS FD (insert i FA) ?s"
  proof (rule queue_rep_aggr [OF r f])
    show "insert i FA \<subseteq> aggr_idx (qs_opt s)" using D(5) i(1) by blast
    show "pool_free (queue_pool_aggr s) (qe s ` aggr_idx (qs_opt s)) (qe s ` insert i FA) (qs_mem ?s)"
      using pool_free_add [OF D(8) n] by (simp add: queue_aggr_free_def upd_elem_def Let_def)
    show "pool_same S (qs_mem s) (qs_mem ?s)"
      if "S \<inter> pool_area (queue_pool_aggr s) (qe s ` aggr_idx (qs_opt s)) = {}" for S
      using objpool_add_same [OF D(8) _ that, of "qe s i"] i(1) by (simp add: queue_aggr_free_def upd_elem_def Let_def)
  qed (use D(9) card_give [OF idx_finite(3) i] in \<open>simp add: queue_aggr_free_def upd_elem_def Let_def\<close>)
  then show ?thesis using f by blast
qed

section \<open>Initialisation\<close>

lemma pool_free_extend:
  assumes "pool_free p {} {} m" "E \<inter> set (op_heads p) = {}" "\<forall>n\<in>E. in_pool (pm_elem m n) = 0"
  shows "pool_free p E {} m"
proof -
  obtain c where c: "pool_repr p {} c m" "free_elems p c = {}" "unat (nbr_subpools p) dvd 2 ^ 32"
    using assms(1) by (auto simp: pool_free_def)
  then have "pool_repr p E c m"
    using assms(2,3) by (auto simp: pool_repr_def pool_shape_def free_elems_def)
  then show ?thesis using c by (auto simp: pool_free_def)
qed

lemma populate_free:
  assumes "pool_free p E {} m" "E = f ` {lo..<hi + 1}" "inj f"
  shows "pool_free p E E (queue_pool_populate f p lo hi m)"
  unfolding queue_pool_populate_def Let_def
  using populate_loop_free [OF assms(1), of f "[lo..<hi + 1]"] assms(2,3)
  by (simp add: distinct_map inj_on_subset del: upt_Suc)

lemma populate_loop_same:
  assumes "pool_free p E F m" "f ` set is \<subseteq> E - F" "distinct (map f is)" "S \<inter> pool_area p E = {}"
  shows "pool_same S m (populate_loop f p k is l s c m)"
  using assms
proof (induction f p k "is" l s c m arbitrary: F rule: populate_loop.induct)
  case (2 f p k i "is" l s c m)
  have "f i \<in> E - F" using 2(4) by auto
  note add = pool_free_add [OF 2(3) this, of s] and same = objpool_add_same [OF 2(3) _ 2(6), of "f i" s]
  have "f i \<notin> f ` set is" "distinct (map f is)" "f ` set is \<subseteq> E - F" using 2(4,5) by simp_all
  then have rest: "f ` set is \<subseteq> E - insert (f i) F" "distinct (map f is)" by blast+
  show ?case
    using 2(1) [OF refl refl _ add rest 2(6)] 2(2) [OF refl refl _ add rest 2(6)] same \<open>f i \<in> E - F\<close>
    by (auto simp: Let_def intro: pool_same_trans)
qed simp

lemma populate_same:
  assumes "pool_free p E {} m" "E = f ` {lo..<hi + 1}" "inj f" "S \<inter> pool_area p E = {}"
  shows "pool_same S m (queue_pool_populate f p lo hi m)"
  unfolding queue_pool_populate_def Let_def
  using populate_loop_same [OF assms(1), of f "[lo..<hi + 1]" S] assms(2-)
  by (simp add: distinct_map inj_on_subset del: upt_Suc)

lemma qe_inj_fun: "inj (qe s)"
  by (auto simp: inj_def)

lemma init_ranges:
  assumes "opt_ok opt maxn"
  defines "ids \<equiv> queue_init_ids opt" and "ns \<equiv> unat (num_static opt)" and "nd \<equiv> unat (num_dynamic opt)"
    and "na \<equiv> unat (num_aggr opt)"
  shows "queue_id2idx (if num_static opt \<noteq> 0 then first_static_queue_id ids else first_internal_queue_id ids) = 0"
    "num_static opt \<noteq> 0 \<Longrightarrow> queue_id2idx (last_static_queue_id ids) = int ns - 1"
    "queue_id2idx (first_internal_queue_id ids) = int ns"
    "queue_id2idx (last_internal_queue_id ids) = int ns + 96"
    "num_dynamic opt \<noteq> 0 \<Longrightarrow> queue_id2idx (first_dyn_queue_id ids) = int ns + 97"
    "num_dynamic opt \<noteq> 0 \<Longrightarrow> queue_id2idx (last_dyn_queue_id ids) = int ns + 96 + int nd"
    "num_aggr opt \<noteq> 0 \<Longrightarrow> queue_id2idx (first_aggr_queue_id ids) = int ns + int nd + 97"
    "num_aggr opt \<noteq> 0 \<Longrightarrow> queue_id2idx (last_aggr_queue_id ids) = int ns + int nd + 96 + int na"
proof -
  note b = opt_ok_bound [OF assms(1)]
  have z: "num_static opt = 0 \<longleftrightarrow> ns = 0" "num_dynamic opt = 0 \<longleftrightarrow> nd = 0" "num_aggr opt = 0 \<longleftrightarrow> na = 0"
    by (simp_all add: ns_def nd_def na_def unat_eq_0)
  note I = queue_init_ids_nat [of opt, unfolded Let_def, folded ns_def nd_def na_def, folded ids_def]
  note W = queue_id2idx_nat
  have b: "ns + nd + na + 97 \<le> 65535" using b by (simp add: ns_def nd_def na_def)
  show "queue_id2idx (if num_static opt \<noteq> 0 then first_static_queue_id ids else first_internal_queue_id ids) = 0"
    using W [of 1] unfolding I z by auto
  show "queue_id2idx (last_static_queue_id ids) = int ns - 1" if "num_static opt \<noteq> 0"
    using that W [of ns] b unfolding I z by (simp del: of_nat_add)
  show "queue_id2idx (first_internal_queue_id ids) = int ns" using W [of "ns + 1"] b unfolding I by (simp del: of_nat_add of_nat_Suc)
  show "queue_id2idx (last_internal_queue_id ids) = int ns + 96" using W [of "ns + 97"] b unfolding I by (auto simp del: of_nat_add)
  show "queue_id2idx (first_dyn_queue_id ids) = int ns + 97" if "num_dynamic opt \<noteq> 0"
    using that W [of "ns + 98"] b unfolding I z by (auto simp del: of_nat_add)
  show "queue_id2idx (last_dyn_queue_id ids) = int ns + 96 + int nd" if "num_dynamic opt \<noteq> 0"
    using that W [of "ns + 97 + nd"] b unfolding I z by (auto simp del: of_nat_add)
  show "queue_id2idx (first_aggr_queue_id ids) = int ns + int nd + 97" if "num_aggr opt \<noteq> 0"
    using that W [of "ns + nd + 98"] b unfolding I z by (auto simp del: of_nat_add)
  show "queue_id2idx (last_aggr_queue_id ids) = int ns + int nd + 96 + int na" if "num_aggr opt \<noteq> 0"
    using that W [of "ns + nd + 97 + na"] b unfolding I z by (auto simp del: of_nat_add)
qed

lemma populate_if:
  assumes "pool_free p (f ` E) {} m" "inj f" "b \<Longrightarrow> E = {lo..<hi + 1}" "\<not> b \<Longrightarrow> E = {}"
  defines "m' \<equiv> if b then queue_pool_populate f p lo hi m else m"
  shows "pool_free p (f ` E) (f ` E) m'" "S \<inter> pool_area p (f ` E) = {} \<Longrightarrow> pool_same S m m'"
proof -
  have *: "pool_free p (f ` E) (f ` E) m' \<and> (S \<inter> pool_area p (f ` E) = {} \<longrightarrow> pool_same S m m')"
  proof (cases b)
    case True
    then have E: "f ` E = f ` {lo..<hi + 1}" using assms(3) by simp
    show ?thesis
      using populate_free [OF assms(1) E assms(2)] populate_same [OF assms(1) E assms(2), of S] True by (simp add: m'_def)
  next
    case False
    then show ?thesis using assms(1,4) by (simp add: m'_def)
  qed
  then show "pool_free p (f ` E) (f ` E) m'" "S \<inter> pool_area p (f ` E) = {} \<Longrightarrow> pool_same S m m'" by blast+
qed

lemma queue_init_pools_rep:
  assumes ok: "queue_tbl_ok s" and c: "queue_count s = 0"
    and p: "pool_free (queue_pool_static s) (qe s ` static_idx (qs_opt s)) {} (qs_mem s)"
      "pool_free (queue_pool s) (qe s ` dyn_idx (qs_opt s)) {} (qs_mem s)"
      "pool_free (queue_pool_aggr s) (qe s ` aggr_idx (qs_opt s)) {} (qs_mem s)"
  shows "queue_rep (static_idx (qs_opt s)) (dyn_idx (qs_opt s)) (aggr_idx (qs_opt s)) (queue_init_pools s) \<and>
    queue_frame s (queue_init_pools s) \<and> queue_elem (queue_init_pools s) = queue_elem s"
proof -
  define ns nd na where "ns = unat (num_static (qs_opt s))" "nd = unat (num_dynamic (qs_opt s))" "na = unat (num_aggr (qs_opt s))"
  have o: "opt_ok (qs_opt s) (max_queue_num s)" and ids: "qs_ids s = queue_init_ids (qs_opt s)"
    using ok by (simp_all add: queue_tbl_ok_def)
  note R = init_ranges [OF o, folded ids ns_nd_na_def] and ap = areas_apart [OF ok]
  have E: "static_idx (qs_opt s) = {0..<(ns + 96) + 1}"
    "num_dynamic (qs_opt s) \<noteq> 0 \<Longrightarrow> dyn_idx (qs_opt s) = {ns + 97..<(ns + 96 + nd) + 1}"
    "num_dynamic (qs_opt s) = 0 \<Longrightarrow> dyn_idx (qs_opt s) = {}"
    "num_aggr (qs_opt s) \<noteq> 0 \<Longrightarrow> aggr_idx (qs_opt s) = {ns + nd + 97..<(ns + nd + 96 + na) + 1}"
    "num_aggr (qs_opt s) = 0 \<Longrightarrow> aggr_idx (qs_opt s) = {}"
    by (auto simp: static_idx_def dyn_idx_def aggr_idx_def ns_nd_na_def)
  define m1 where "m1 = (if True then queue_pool_populate (qe s) (queue_pool_static s) 0 (ns + 96) (qs_mem s) else qs_mem s)"
  define m2 where "m2 = (if num_dynamic (qs_opt s) \<noteq> 0
    then queue_pool_populate (qe s) (queue_pool s) (ns + 97) (ns + 96 + nd) m1 else m1)"
  define m3 where "m3 = (if num_aggr (qs_opt s) \<noteq> 0
    then queue_pool_populate (qe s) (queue_pool_aggr s) (ns + nd + 97) (ns + nd + 96 + na) m2 else m2)"
  have f1: "pool_free (queue_pool_static s) (qe s ` static_idx (qs_opt s)) (qe s ` static_idx (qs_opt s)) m1"
    unfolding m1_def by (rule populate_if(1) [OF p(1) qe_inj_fun]) (simp_all only: E(1) not_True_eq_False)
  have s1: "pool_same S (qs_mem s) m1" if "S \<inter> pool_area (queue_pool_static s) (qe s ` static_idx (qs_opt s)) = {}" for S
    unfolding m1_def by (rule populate_if(2) [OF p(1) qe_inj_fun _ _ that]) (simp_all only: E(1) not_True_eq_False)
  have d1: "pool_free (queue_pool s) (qe s ` dyn_idx (qs_opt s)) {} m1"
    by (rule pool_free_same [OF p(2) s1]) (use ap(1) in blast)
  have f2: "pool_free (queue_pool s) (qe s ` dyn_idx (qs_opt s)) (qe s ` dyn_idx (qs_opt s)) m2"
    unfolding m2_def by (rule populate_if(1) [OF d1 qe_inj_fun]) (erule E(2), use E(3) in blast)
  have s2: "pool_same S m1 m2" if "S \<inter> pool_area (queue_pool s) (qe s ` dyn_idx (qs_opt s)) = {}" for S
    unfolding m2_def by (rule populate_if(2) [OF d1 qe_inj_fun _ _ that]) (erule E(2), use E(3) in blast)
  have a2: "pool_free (queue_pool_aggr s) (qe s ` aggr_idx (qs_opt s)) {} m2"
    by (rule pool_free_same [OF p(3) pool_same_trans [OF s1 s2]]) (use ap(2,3) in blast)+
  have f3: "pool_free (queue_pool_aggr s) (qe s ` aggr_idx (qs_opt s)) (qe s ` aggr_idx (qs_opt s)) m3"
    unfolding m3_def by (rule populate_if(1) [OF a2 qe_inj_fun]) (erule E(4), use E(5) in blast)
  have s3: "pool_same S m2 m3" if "S \<inter> pool_area (queue_pool_aggr s) (qe s ` aggr_idx (qs_opt s)) = {}" for S
    unfolding m3_def by (rule populate_if(2) [OF a2 qe_inj_fun _ _ that]) (erule E(4), use E(5) in blast)
  have nats: "nat (int ns + 96) = ns + 96" "nat (int ns + 97) = ns + 97" "nat (int ns + 96 + int nd) = ns + 96 + nd"
    "nat (int ns + int nd + 97) = ns + nd + 97" "nat (int ns + int nd + 96 + int na) = ns + nd + 96 + na" by simp_all
  have i: "queue_init_pools s = s\<lparr>qs_mem := m3\<rparr>"
    unfolding queue_init_pools_def Let_def R(1,4) m3_def m2_def m1_def
    using R(5-8) nats by (simp add: qe_def [abs_def])
  have g1: "pool_free (queue_pool_static s) (qe s ` static_idx (qs_opt s)) (qe s ` static_idx (qs_opt s)) m3"
    by (rule pool_free_same [OF f1 pool_same_trans [OF s2 s3]]) (use ap(1,2) in blast)+
  have g2: "pool_free (queue_pool s) (qe s ` dyn_idx (qs_opt s)) (qe s ` dyn_idx (qs_opt s)) m3"
    by (rule pool_free_same [OF f2 s3]) (use ap(3) in blast)
  have fr: "queue_frame s (s\<lparr>qs_mem := m3\<rparr>)" by (simp add: queue_frame_def)
  have q: "qe (s\<lparr>qs_mem := m3\<rparr>) = qe s" by (simp add: qe_def fun_eq_iff)
  have "queue_rep (static_idx (qs_opt s)) (dyn_idx (qs_opt s)) (aggr_idx (qs_opt s)) (s\<lparr>qs_mem := m3\<rparr>)"
    unfolding queue_rep_def q using frame_tbl_ok [OF fr ok] g1 g2 f3 c by simp
  then show ?thesis unfolding i using fr by simp
qed

text \<open>The memory before \<^verbatim>\<open>queue_init\<close>: three pools of eight heads, apart from each other and the table.\<close>

definition pools_raw :: "queue_shm \<Rightarrow> nat \<Rightarrow> bool" where
  "pools_raw s maxn \<longleftrightarrow>
     (\<forall>p \<in> {queue_pool s, queue_pool_static s, queue_pool_aggr s}.
        distinct (op_heads p) \<and> length (op_heads p) = unat OBJSUBPOOLS_MAX) \<and>
     set (op_heads (queue_pool s)) \<inter> set (op_heads (queue_pool_static s)) = {} \<and>
     set (op_heads (queue_pool s)) \<inter> set (op_heads (queue_pool_aggr s)) = {} \<and>
     set (op_heads (queue_pool_static s)) \<inter> set (op_heads (queue_pool_aggr s)) = {} \<and>
     (set (op_heads (queue_pool s)) \<union> set (op_heads (queue_pool_static s)) \<union> set (op_heads (queue_pool_aggr s))) \<inter>
       qe s ` {i. i < maxn} = {}"

lemma queue_pool_init_free:
  assumes "distinct (op_heads p)" "length (op_heads p) = unat OBJSUBPOOLS_MAX"
  shows "\<exists>p' m'. queue_pool_init p m = (0, p', m') \<and> pool_free p' {} {} m' \<and> op_heads p' = op_heads p \<and>
    (\<forall>S. S \<inter> set (op_heads p) = {} \<longrightarrow> pool_same S m m')"
proof -
  have n: "min 4 OBJSUBPOOLS_MAX = 4" by (simp add: OBJSUBPOOLS_MAX_def min_def)
  obtain p' m' where i: "objpool_init (Some p) 4 m = (0, Some p', m')" "pool_free p' {} {} m'" "op_heads p' = op_heads p"
    using objpool_init_free [OF assms, of "{}" m "{}"] by auto
  have "pool_same S m m'" if "S \<inter> set (op_heads p) = {}" for S
    using objpool_init_free [OF assms, of "{}" m S] that i(1) by auto
  then show ?thesis using i by (simp add: queue_pool_init_def n)
qed

lemma clear_nodes_same: "S \<inter> {x. base \<le> x \<and> x < base + n} = {} \<Longrightarrow> pool_same S m (clear_nodes base n m)"
  by (auto simp: pool_same_def clear_nodes_def Let_def)

lemma three_pools_init:
  assumes raw: "pools_raw s maxn"
  obtains p1 m1 p2 m2 p3 m3 where
    "queue_pool_init (queue_pool s) (qs_mem s) = (0, p1, m1)" "queue_pool_init (queue_pool_static s) m1 = (0, p2, m2)"
    "queue_pool_init (queue_pool_aggr s) m2 = (0, p3, m3)"
    "op_heads p1 = op_heads (queue_pool s)" "op_heads p2 = op_heads (queue_pool_static s)"
    "op_heads p3 = op_heads (queue_pool_aggr s)"
    "pool_free p1 {} {} m3" "pool_free p2 {} {} m3" "pool_free p3 {} {} m3"
proof -
  have sh: "distinct (op_heads (queue_pool s))" "length (op_heads (queue_pool s)) = unat OBJSUBPOOLS_MAX"
    "distinct (op_heads (queue_pool_static s))" "length (op_heads (queue_pool_static s)) = unat OBJSUBPOOLS_MAX"
    "distinct (op_heads (queue_pool_aggr s))" "length (op_heads (queue_pool_aggr s)) = unat OBJSUBPOOLS_MAX"
    and ap: "set (op_heads (queue_pool s)) \<inter> set (op_heads (queue_pool_static s)) = {}"
    "set (op_heads (queue_pool s)) \<inter> set (op_heads (queue_pool_aggr s)) = {}"
    "set (op_heads (queue_pool_static s)) \<inter> set (op_heads (queue_pool_aggr s)) = {}"
    using raw unfolding pools_raw_def by blast+
  obtain p1 m1 where 1: "queue_pool_init (queue_pool s) (qs_mem s) = (0, p1, m1)" "pool_free p1 {} {} m1"
    "op_heads p1 = op_heads (queue_pool s)" using queue_pool_init_free [OF sh(1,2)] by blast
  obtain p2 m2 where 2: "queue_pool_init (queue_pool_static s) m1 = (0, p2, m2)" "pool_free p2 {} {} m2"
    "op_heads p2 = op_heads (queue_pool_static s)" "\<And>S. S \<inter> set (op_heads (queue_pool_static s)) = {} \<Longrightarrow> pool_same S m1 m2"
    using queue_pool_init_free [OF sh(3,4), of m1] by blast
  obtain p3 m3 where 3: "queue_pool_init (queue_pool_aggr s) m2 = (0, p3, m3)" "pool_free p3 {} {} m3"
    "op_heads p3 = op_heads (queue_pool_aggr s)" "\<And>S. S \<inter> set (op_heads (queue_pool_aggr s)) = {} \<Longrightarrow> pool_same S m2 m3"
    using queue_pool_init_free [OF sh(5,6), of m2] by blast
  have "pool_same (pool_area p1 {}) m1 m2" "pool_same (pool_area p1 {}) m2 m3" "pool_same (pool_area p2 {}) m2 m3"
    using 2(3,4) 3(3,4) 1(3) ap by (auto simp: pool_area_def)
  then have "pool_free p1 {} {} m3" "pool_free p2 {} {} m3"
    using pool_free_same [OF 1(2)] pool_free_same [OF 2(2)] pool_free_same by blast+
  then show thesis using that 1 2 3 by blast
qed

lemma node_range: "qe s ` {i. i < n} = {x. qs_base s \<le> x \<and> x < qs_base s + n}"
proof -
  have "x \<in> qe s ` {i. i < n}" if "qs_base s \<le> x" "x < qs_base s + n" for x
    using that by (intro image_eqI [of _ _ "x - qs_base s"]) (auto simp: qe_def)
  then show ?thesis by (auto simp: qe_def)
qed

lemma cleared_pool:
  assumes "pool_free p {} {} m" "set (op_heads p) \<inter> qe s ` {i. i < n} = {}" "I \<subseteq> {i. i < n}"
  shows "pool_free p (qe s ` I) {} (clear_nodes (qs_base s) n m)"
proof (rule pool_free_extend)
  show "pool_free p {} {} (clear_nodes (qs_base s) n m)"
    by (rule pool_free_same [OF assms(1) clear_nodes_same]) (use assms(2) in \<open>simp add: pool_area_def node_range\<close>)
  have "qe s ` I \<subseteq> qe s ` {i. i < n}" using assms(3) by auto
  then show "qe s ` I \<inter> set (op_heads p) = {}" using assms(2) by blast
  show "\<forall>x\<in>qe s ` I. in_pool (pm_elem (clear_nodes (qs_base s) n m) x) = 0"
    using \<open>qe s ` I \<subseteq> qe s ` {i. i < n}\<close> unfolding node_range by (auto simp: clear_nodes_def Let_def)
qed

lemma queue_init_rep:
  assumes raw: "pools_raw s (unat maxn)" and ok: "opt_ok opt maxn"
  shows "\<exists>s'. queue_init 0 0 (Some (opt, maxn)) True 0 s = (Inr EM_OK, s') \<and> qs_opt s' = opt \<and> max_queue_num s' = maxn \<and>
    qs_device_id s' = qs_device_id s \<and> queue_rep (static_idx opt) (dyn_idx opt) (aggr_idx opt) s' \<and> queue_count s' = 0 \<and>
    output_queue_count s' = 0 \<and> output_queue_idx_free s' = replicate 64 True"
proof -
  obtain p1 m1 p2 m2 p3 m3 where
    I: "queue_pool_init (queue_pool s) (qs_mem s) = (0, p1, m1)" "queue_pool_init (queue_pool_static s) m1 = (0, p2, m2)"
      "queue_pool_init (queue_pool_aggr s) m2 = (0, p3, m3)" and
    H: "op_heads p1 = op_heads (queue_pool s)" "op_heads p2 = op_heads (queue_pool_static s)"
      "op_heads p3 = op_heads (queue_pool_aggr s)" and
    F: "pool_free p1 {} {} m3" "pool_free p2 {} {} m3" "pool_free p3 {} {} m3"
    by (rule three_pools_init [OF raw])
  define s5 where "s5 = s\<lparr>queue_count := 0, output_queue_count := 0, queue_pool := p1, queue_pool_static := p2,
    queue_pool_aggr := p3, qs_opt := opt, max_queue_num := maxn, qs_ids := queue_init_ids opt,
    qs_mem := clear_nodes (qs_base s) (unat maxn) m3, queue_names := (\<lambda>_. []),
    queue_elem := (\<lambda>i. if i < unat maxn then zero_queue_elem\<lparr>q_queue := ucast (queue_idx2hdl (qs_device_id s) (int i))\<rparr>
      else queue_elem s i)\<rparr>"
  have q: "qe s5 = qe s" "qs_opt s5 = opt" "max_queue_num s5 = maxn"
    by (simp_all add: s5_def qe_def fun_eq_iff)
  have heads: "set (op_heads p) \<inter> qe s ` {i. i < unat maxn} = {}" if "p \<in> {p1, p2, p3}" for p
    using raw H that unfolding pools_raw_def by auto
  have ap: "pools_apart s5"
    using raw H unfolding pools_apart_def pools_raw_def node_area_def q by (simp add: s5_def)
  have tbl: "queue_tbl_ok s5" using ok ap by (simp add: queue_tbl_ok_def s5_def)
  have sub: "static_idx opt \<subseteq> {i. i < unat maxn}" "dyn_idx opt \<subseteq> {i. i < unat maxn}" "aggr_idx opt \<subseteq> {i. i < unat maxn}"
    using idx_lt [OF ok] by auto
  have "queue_rep (static_idx opt) (dyn_idx opt) (aggr_idx opt) (queue_init_pools s5) \<and> queue_frame s5 (queue_init_pools s5)"
    using queue_init_pools_rep [OF tbl] cleared_pool [OF F(1) heads sub(2)] cleared_pool [OF F(2) heads sub(1)]
      cleared_pool [OF F(3) heads sub(3)] unfolding q by (simp add: s5_def)
  moreover have "queue_count (queue_init_pools s5) = 0" "output_queue_count (queue_init_pools s5) = 0"
    by (simp_all add: queue_init_pools_def Let_def s5_def)
  moreover have "queue_init 0 0 (Some (opt, maxn)) True 0 s =
      (Inr EM_OK, (queue_init_pools s5)\<lparr>output_queue_idx_free := replicate 64 True\<rparr>)"
    unfolding queue_init_def Let_def by (simp add: I s5_def EM_MAX_OUTPUT_QUEUES_def cong: if_cong)
  moreover have "queue_rep FS FD FA (t\<lparr>output_queue_idx_free := x\<rparr>) = queue_rep FS FD FA t" for FS FD FA t x
    by (simp add: queue_rep_def queue_tbl_ok_def pools_apart_def node_area_def qe_def [abs_def])
  ultimately show ?thesis by (auto simp: queue_frame_def s5_def)
qed

section \<open>The priority map\<close>

definition EM_QUEUE_PRIO_LOW :: nat where "EM_QUEUE_PRIO_LOW = 2"
definition EM_QUEUE_PRIO_NORMAL :: nat where "EM_QUEUE_PRIO_NORMAL = 4"
definition EM_QUEUE_PRIO_HIGH :: nat where "EM_QUEUE_PRIO_HIGH = 6"
definition EM_QUEUE_PRIO_HIGHEST :: nat where "EM_QUEUE_PRIO_HIGHEST = 7"

definition queue_init_prio_legacy :: "int \<Rightarrow> int \<Rightarrow> int \<Rightarrow> int list" where
  "queue_init_prio_legacy minp maxp dflt =
     (let m0 = map (\<lambda>i. if i < EM_QUEUE_PRIO_NUM div 2 then minp else maxp) [0..<EM_QUEUE_PRIO_NUM];
          m1 = m0[EM_QUEUE_PRIO_NORMAL := dflt];
          m2 = (if EM_QUEUE_PRIO_NORMAL - EM_QUEUE_PRIO_LOW > 1 then m1[EM_QUEUE_PRIO_NORMAL - 1 := dflt] else m1)
      in if EM_QUEUE_PRIO_HIGH - EM_QUEUE_PRIO_NORMAL > 1 then m2[EM_QUEUE_PRIO_NORMAL + 1 := dflt] else m2)"

text \<open>
  The doubles of \<^verbatim>\<open>queue_init_prio_adaptive\<close> are multiples of 1/8 of small size, hence exact: \<^verbatim>\<open>step\<close> and
  \<^verbatim>\<open>cur\<close> are counted in eighths, and the conversion to \<^verbatim>\<open>int\<close> truncates towards zero.
\<close>

definition trunc_div :: "int \<Rightarrow> int \<Rightarrow> int" where
  "trunc_div a b = (if a \<ge> 0 then a div b else - (- a div b))"

definition queue_init_prio_adaptive :: "int \<Rightarrow> int \<Rightarrow> int \<Rightarrow> int list" where
  "queue_init_prio_adaptive minp maxp nump =
     (let m = map (\<lambda>i. trunc_div (int EM_QUEUE_PRIO_NUM * minp + int i * nump) (int EM_QUEUE_PRIO_NUM)) [0..<EM_QUEUE_PRIO_NUM]
      in if m ! (EM_QUEUE_PRIO_NUM - 1) \<noteq> maxp then m[EM_QUEUE_PRIO_NUM - 1 := maxp] else m)"

definition queue_init_prio_custom :: "int \<Rightarrow> int \<Rightarrow> int list \<Rightarrow> int list option" where
  "queue_init_prio_custom minp maxp cm =
     (let m = map (\<lambda>i. minp + cm ! i) [0..<EM_QUEUE_PRIO_NUM]
      in if \<exists>p \<in> set m. p > maxp \<or> p < minp then None else Some m)"

definition queue_init_prio_map :: "int \<Rightarrow> int list \<Rightarrow> int \<Rightarrow> int \<Rightarrow> int \<Rightarrow> int \<Rightarrow> int list option" where
  "queue_init_prio_map mode cm dflt minp maxp nump =
     (if mode = 0 then Some (queue_init_prio_legacy minp maxp dflt)
      else if mode = 1 then Some (queue_init_prio_adaptive minp maxp nump)
      else if mode = 2 then queue_init_prio_custom minp maxp cm
      else None)"

definition prio_em2odp :: "int list \<Rightarrow> u32 \<Rightarrow> int option" where
  "prio_em2odp m em_prio = (if unat em_prio < EM_QUEUE_PRIO_NUM then Some (m ! unat em_prio) else None)"

lemma legacy_value: "queue_init_prio_legacy minp maxp dflt = [minp, minp, minp, dflt, dflt, dflt, maxp, maxp]"
  by (simp add: queue_init_prio_legacy_def EM_QUEUE_PRIO_NUM_def EM_QUEUE_PRIO_NORMAL_def EM_QUEUE_PRIO_LOW_def
      EM_QUEUE_PRIO_HIGH_def Let_def upt_rec)

lemma adaptive_eq:
  assumes "0 \<le> minp" "0 \<le> nump"
  shows "queue_init_prio_adaptive minp maxp nump = map (\<lambda>i. (8 * minp + int i * nump) div 8) [0..<7] @ [maxp]"
proof -
  let ?f = "\<lambda>i. (8 * minp + int i * nump) div 8"
  have f: "map (\<lambda>i. trunc_div (8 * minp + int i * nump) 8) [0..<8] = map ?f [0..<7] @ [?f 7]"
    using assms by (simp add: trunc_div_def upt_rec)
  have "(map ?f [0..<7] @ [x])[7 := y] = map ?f [0..<7] @ [y]" "(map ?f [0..<7] @ [x]) ! 7 = x" for x y
    by (simp_all add: list_update_append nth_append)
  then show ?thesis unfolding queue_init_prio_adaptive_def Let_def EM_QUEUE_PRIO_NUM_def using f by simp
qed

lemma adaptive_props:
  fixes minp :: int
  assumes "0 \<le> minp" "minp \<le> maxp" "nump = maxp - minp + 1"
  defines "m \<equiv> queue_init_prio_adaptive minp maxp nump"
  shows "length m = 8" "sorted m" "\<forall>p \<in> set m. minp \<le> p \<and> p \<le> maxp" "m ! 7 = maxp" "m ! 0 = minp"
proof -
  let ?f = "\<lambda>i. (8 * minp + int i * nump) div 8"
  have n: "nump \<ge> 1" using assms by simp
  have m: "m = map ?f [0..<7] @ [maxp]" unfolding m_def by (rule adaptive_eq) (use assms(1) n in auto)
  have mono: "?f i \<le> ?f j" if "i \<le> j" for i j
    by (intro zdiv_mono1 add_left_mono mult_right_mono) (use that n in auto)
  have hi: "?f i \<le> maxp" if "i \<le> 7" for i
  proof -
    have "int i * nump \<le> 7 * nump" using that n by (intro mult_right_mono) auto
    then have "?f i \<le> (8 * maxp + 7) div 8" by (intro zdiv_mono1) (use assms(3) n in auto)
    then show ?thesis by simp
  qed
  have lo: "minp \<le> ?f i" for i using mono [of 0 i] by simp
  show "length m = 8" using m by simp
  have "sorted (map ?f [0..<7])"
    unfolding sorted_map by (rule sorted_wrt_mono_rel [OF _ sorted_upt]) (use mono in auto)
  then show "sorted m" unfolding m sorted_append using hi by auto
  show "\<forall>p \<in> set m. minp \<le> p \<and> p \<le> maxp" using m lo hi assms(2) by auto
  show "m ! 7 = maxp" using m by (simp add: nth_append)
  show "m ! 0 = minp" using m by (simp add: upt_rec)
qed

lemma custom_props:
  assumes "queue_init_prio_custom minp maxp cm = Some m"
  shows "length m = 8" "\<forall>p \<in> set m. minp \<le> p \<and> p \<le> maxp" "\<forall>i < 8. m ! i = minp + cm ! i"
proof -
  have m: "m = map (\<lambda>i. minp + cm ! i) [0..<8]" "\<not> (\<exists>p \<in> set m. p > maxp \<or> p < minp)"
    using assms by (auto simp: queue_init_prio_custom_def Let_def EM_QUEUE_PRIO_NUM_def split: if_splits)
  show "length m = 8" "\<forall>i < 8. m ! i = minp + cm ! i" using m(1) by (simp_all del: upt_rec_numeral)
  show "\<forall>p \<in> set m. minp \<le> p \<and> p \<le> maxp" using m(2) by (meson not_less)
qed

section \<open>The dynamic queues as an allocator\<close>

lemma take_bit_hdl: "take_bit 32 (queue_idx2hdl dev (int i)) = queue_idx2hdl dev (int i)"
  by (metis internal_queue_of_parts internal_queue_parts queue_idx2hdl_id)

lemma get_elem_hdl: "i < unat (max_queue_num s) \<Longrightarrow> get_elem s (queue_idx2hdl (qs_device_id s) (int i)) = Some i"
  by (simp add: get_elem_def queue_elem_get_iff take_bit_hdl)

definition dyn_hdls :: "queue_opt \<Rightarrow> u16 \<Rightarrow> nat set \<Rightarrow> em_queue_t set" where
  "dyn_hdls opt dev F = (\<lambda>i. queue_idx2hdl dev (int i)) ` F"

definition dyn_rep :: "queue_opt \<Rightarrow> u16 \<Rightarrow> em_queue_t set \<Rightarrow> queue_shm \<Rightarrow> bool" where
  "dyn_rep opt dev F s \<longleftrightarrow>
     qs_opt s = opt \<and> qs_device_id s = dev \<and> (\<exists>FS FD FA. queue_rep FS FD FA s \<and> F = dyn_hdls opt dev FD)"

definition dyn_alloc :: "u32 \<Rightarrow> queue_shm \<Rightarrow> em_queue_t option \<times> queue_shm" where
  "dyn_alloc thr s =
     (case queue_alloc thr EM_QUEUE_UNDEF s of (Inl e, s') \<Rightarrow> (None, s') | (Inr q, s') \<Rightarrow> (Some q, s'))"

lemma dyn_hdls_diff:
  assumes "queue_rep FS FD FA s" "qs_opt s = opt" "i \<in> dyn_idx opt" "FD' \<subseteq> dyn_idx opt"
  shows "dyn_hdls opt (qs_device_id s) (FD' - {i}) = dyn_hdls opt (qs_device_id s) FD' - {queue_idx2hdl (qs_device_id s) (int i)}"
    "queue_idx2hdl (qs_device_id s) (int i) \<in> dyn_hdls opt (qs_device_id s) FD' \<longleftrightarrow> i \<in> FD'"
proof -
  have lt: "j < unat (max_queue_num s)" if "j \<in> dyn_idx opt" for j
    using idx_lt(2) [OF queue_repD(2) [OF assms(1)]] that assms(2) by simp
  have inj: "inj_on (\<lambda>i. queue_idx2hdl (qs_device_id s) (int i)) (dyn_idx opt)"
  proof (rule inj_onI)
    fix j k
    assume j: "j \<in> dyn_idx opt" and k: "k \<in> dyn_idx opt"
      and e: "queue_idx2hdl (qs_device_id s) (int j) = queue_idx2hdl (qs_device_id s) (int k)"
    have "Some j = Some k"
      unfolding get_elem_hdl [OF lt [OF j], symmetric] get_elem_hdl [OF lt [OF k], symmetric] e by (rule refl)
    then show "j = k" by (rule option.inject [THEN iffD1])
  qed
  show "queue_idx2hdl (qs_device_id s) (int i) \<in> dyn_hdls opt (qs_device_id s) FD' \<longleftrightarrow> i \<in> FD'"
    unfolding dyn_hdls_def by (rule inj_on_image_mem_iff [OF inj assms(3,4)])
  show "dyn_hdls opt (qs_device_id s) (FD' - {i}) = dyn_hdls opt (qs_device_id s) FD' - {queue_idx2hdl (qs_device_id s) (int i)}"
    unfolding dyn_hdls_def using inj_on_image_set_diff [OF inj, of FD' "{i}"] assms(3,4) by auto
qed

interpretation dynq: obj_alloc "dyn_hdls opt dev (dyn_idx opt)" "dyn_rep opt dev" dyn_alloc "\<lambda>q s. snd (queue_free q s)"
  for opt dev
proof (unfold_locales, goal_cases)
  case (1 F s)
  then show ?case by (auto simp: dyn_rep_def dyn_hdls_def dest: queue_repD(4))
next
  case (2 s i)
  then obtain FS FD FA where "queue_rep FS FD FA s" "dyn_hdls opt dev FD = {}" by (auto simp: dyn_rep_def)
  then show ?case using queue_alloc_dyn [of FS FD FA s i] by (simp add: dyn_hdls_def dyn_alloc_def)
next
  case (3 F s thr)
  then obtain FS FD FA where r: "queue_rep FS FD FA s" "qs_opt s = opt" "qs_device_id s = dev" "F = dyn_hdls opt dev FD"
    by (auto simp: dyn_rep_def)
  then have "FD \<noteq> {}" using 3(2) by (auto simp: dyn_hdls_def)
  then obtain i s' where i: "i \<in> FD" "queue_alloc thr EM_QUEUE_UNDEF s = (Inr (queue_idx2hdl dev (int i)), s')"
    "queue_frame s s'" "queue_rep FS (FD - {i}) FA s'"
    using queue_alloc_dyn [OF r(1), of thr] r(3) by auto
  have FD: "FD \<subseteq> dyn_idx opt" using queue_repD(4) [OF r(1)] r(2) by simp
  have "F - {queue_idx2hdl dev (int i)} = dyn_hdls opt dev (FD - {i})"
    using r(3,4) dyn_hdls_diff(1) [OF r(1,2) _ FD, of i] i(1) FD by auto
  then have "dyn_rep opt dev (F - {queue_idx2hdl dev (int i)}) s'"
    using i(3,4) r(2,3) unfolding dyn_rep_def queue_frame_def by metis
  then show ?case using i r(4) by (auto simp: dyn_alloc_def dyn_hdls_def)
next
  case (4 F s q)
  then obtain FS FD FA where r: "queue_rep FS FD FA s" "qs_opt s = opt" "qs_device_id s = dev" "F = dyn_hdls opt dev FD"
    by (auto simp: dyn_rep_def)
  have FD: "FD \<subseteq> dyn_idx opt" using queue_repD(4) [OF r(1)] r(2) by simp
  obtain i where i: "i \<in> dyn_idx opt" "q = queue_idx2hdl dev (int i)" using 4(2) by (auto simp: dyn_hdls_def)
  have nFD: "i \<notin> FD" using 4(2) i r dyn_hdls_diff(2) [OF r(1,2) i(1) FD] by auto
  have nS: "i \<notin> static_idx opt" "i \<notin> aggr_idx opt" using i(1) idx_disjoint [of opt] by blast+
  have "i \<notin> FS" using queue_repD(3) [OF r(1)] r(2) nS by auto
  moreover have "get_elem s q = Some i"
    using get_elem_hdl [OF idx_lt(2) [OF queue_repD(2) [OF r(1)]], of i] i r(2,3) by simp
  ultimately obtain s' where s': "snd (queue_free q s) = s'" "queue_frame s s'" "queue_rep FS (insert i FD) FA s'"
    using queue_free_rep [OF r(1), of q i] nFD nS r(2) by auto
  have "insert q F = dyn_hdls opt dev (insert i FD)" using r(4) i(2) by (simp add: dyn_hdls_def)
  then show ?case using s' r unfolding dyn_rep_def queue_frame_def by auto
qed

section \<open>Properties\<close>

text \<open>One static, two dynamic and one aggregator queue; the pool heads lie below the table.\<close>

definition demo_cfg :: "string \<Rightarrow> int option" where
  "demo_cfg name =
     (if name = ''queue.num_static'' then Some 1 else if name = ''queue.num_dynamic'' then Some 2
      else if name = ''queue.num_aggr'' then Some 1 else if name = ''queue.min_events_default'' then Some 0
      else if name = ''queue.priority.map_mode'' then Some 1 else None)"

definition demo_opt :: queue_opt where
  "demo_opt = \<lparr>num_static = 1, num_dynamic = 2, num_aggr = 1, min_events_default = 0, map_mode = 1, custom_map = []\<rparr>"

lemma demo_config: "read_config_file demo_cfg (\<lambda>_ _. None) EM_VECTOR_BACKEND_EVENT 1024 = Some (demo_opt, 101)"
  by code_simp

lemma demo_opt_ok: "opt_ok demo_opt 101"
  by (rule read_config_file_ok(1) [OF demo_config])

definition demo_raw :: queue_shm where
  "demo_raw = \<lparr>qs_device_id = 7, qs_opt = demo_opt, qs_ids = queue_init_ids demo_opt, max_queue_num = 0, qs_base = 100,
     queue_pool = \<lparr>op_heads = [1, 2, 3, 4, 5, 6, 7, 8], nbr_subpools = 0\<rparr>,
     queue_pool_static = \<lparr>op_heads = [11, 12, 13, 14, 15, 16, 17, 18], nbr_subpools = 0\<rparr>,
     queue_pool_aggr = \<lparr>op_heads = [21, 22, 23, 24, 25, 26, 27, 28], nbr_subpools = 0\<rparr>,
     qs_mem = \<lparr>pm_heap = empty_heap, pm_elem = (\<lambda>_. \<lparr>subpool_idx = 0, in_pool = 0\<rparr>)\<rparr>,
     queue_elem = (\<lambda>_. zero_queue_elem), queue_names = (\<lambda>_. []), queue_count = 0, output_queue_count = 0,
     output_queue_idx_free = [], qgrp_queues = (\<lambda>_. []),
     qgrp_num_queues = (\<lambda>_. 0), agrp_queues = (\<lambda>_. []), agrp_num_queues = (\<lambda>_. 0), agrp_hi_prio = (\<lambda>_. 0)\<rparr>"

lemma demo_pools_raw: "pools_raw demo_raw (unat (101 :: u16))"
  unfolding pools_raw_def node_range by (simp add: demo_raw_def OBJSUBPOOLS_MAX_def)

definition demo_qs :: queue_shm where
  "demo_qs = snd (queue_init 0 0 (Some (demo_opt, 101)) True 0 demo_raw)"

lemma demo_qs_rep:
  "queue_rep (static_idx demo_opt) (dyn_idx demo_opt) (aggr_idx demo_opt) demo_qs" "qs_opt demo_qs = demo_opt"
  "qs_device_id demo_qs = 7" "max_queue_num demo_qs = 101"
  using queue_init_rep [OF demo_pools_raw demo_opt_ok] by (auto simp: demo_qs_def) (simp add: demo_raw_def)

text \<open>
  C24: an accepted configuration gives a well-formed table. No sum wraps, the number of queues is within
  16 bits and ODP's limit, and the identifier ranges of the static, internal, dynamic and aggregator
  queues follow each other without gap or overlap from index 0 on; the static pool's identifiers are
  exactly the static and internal ones.
\<close>

theorem queue_ids_layout:
  assumes "read_config_file cfg cfg_arr backend odp_max = Some (opt, maxn)"
  defines "ids \<equiv> queue_init_ids opt" and "ns \<equiv> int (unat (num_static opt))" and "nd \<equiv> int (unat (num_dynamic opt))"
    and "na \<equiv> int (unat (num_aggr opt))"
  shows "int (unat maxn) = ns + 97 + nd + na \<and> unat maxn \<le> unat odp_max \<and>
    (num_static opt \<noteq> 0 \<longrightarrow> queue_id2idx (first_static_queue_id ids) = 0 \<and> queue_id2idx (last_static_queue_id ids) = ns - 1) \<and>
    queue_id2idx (first_internal_queue_id ids) = ns \<and> queue_id2idx (last_internal_queue_id ids) = ns + 96 \<and>
    (num_dynamic opt \<noteq> 0 \<longrightarrow> queue_id2idx (first_dyn_queue_id ids) = ns + 97 \<and>
       queue_id2idx (last_dyn_queue_id ids) = ns + 96 + nd) \<and>
    (num_aggr opt \<noteq> 0 \<longrightarrow> queue_id2idx (first_aggr_queue_id ids) = ns + nd + 97 \<and>
       queue_id2idx (last_aggr_queue_id ids) = int (unat maxn) - 1) \<and>
    (\<forall>i < unat maxn. id_in_queue_pool_static opt ids (queue_idx2id (int i)) \<longleftrightarrow> int i < ns + 97)"
proof -
  note ok = read_config_file_ok [OF assms(1)]
  note R = init_ranges [OF ok(1)]
  have st: "\<forall>i < unat maxn. id_in_queue_pool_static opt ids (queue_idx2id (int i)) \<longleftrightarrow> int i < ns + 97"
    unfolding ids_def ns_def using id_static_iff [OF ok(1)] by (metis of_nat_add of_nat_less_iff of_nat_numeral)
  have m: "int (unat maxn) = ns + 97 + nd + na"
    using ok(1) unfolding opt_ok_def ns_def nd_def na_def by linarith
  show ?thesis
    by (intro conjI impI m ok(2) st) (unfold m ids_def ns_def nd_def na_def, use R in \<open>simp_all only: if_True not_False_eq_True\<close>)
qed

theorem queue_ids_layout_witness:
  "queue_id2idx (last_aggr_queue_id (queue_init_ids demo_opt)) = 100 \<and>
   queue_id2idx (first_dyn_queue_id (queue_init_ids demo_opt)) = 98"
  using queue_ids_layout [OF demo_config] by (simp add: demo_opt_def)

text \<open>
  C25: handles and table indexes correspond. \<^verbatim>\<open>queue_elem_get\<close> returns element \<^verbatim>\<open>i\<close> exactly for a table
  index and a handle whose low 32 bits are the handle of index \<^verbatim>\<open>i\<close> on this device: the undefined
  handle, other devices and identifiers beyond the table are refused, and no two indexes share a
  handle.
\<close>

theorem queue_elem_get_exact:
  "queue_elem_get dev max_num q = Some i \<longleftrightarrow> i < unat max_num \<and> take_bit 32 q = queue_idx2hdl dev (int i)"
  by (rule queue_elem_get_iff)

theorem queue_elem_get_exact_witness:
  "queue_elem_get 7 101 0x70001 = Some 0 \<and> queue_elem_get 7 101 0x60001 = None \<and> queue_elem_get 7 101 0x70000 = None"
proof -
  have "queue_elem_get 7 101 0x60001 = None" "queue_elem_get 7 101 0x70000 = None" by code_simp+
  then show ?thesis using queue_elem_get_exact [of 7 101 "0x70001" 0] by simp code_simp
qed

text \<open>
  After \<^verbatim>\<open>queue_init\<close> with an accepted configuration every queue of the three pools is free, none is
  missing and none is in two pools, and all output queue indexes are free.
\<close>

theorem queue_init_all_free:
  assumes "read_config_file cfg cfg_arr backend odp_max = Some (opt, maxn)" "pools_raw s (unat maxn)"
  shows "\<exists>s'. queue_init 0 0 (Some (opt, maxn)) True 0 s = (Inr EM_OK, s') \<and>
    queue_rep (static_idx opt) (dyn_idx opt) (aggr_idx opt) s' \<and> queue_count s' = 0 \<and>
    static_idx opt \<union> dyn_idx opt \<union> aggr_idx opt = {i. i < unat maxn} \<and>
    output_queue_idx_free s' = replicate 64 True"
proof -
  note ok = read_config_file_ok(1) [OF assms(1)]
  have "static_idx opt \<union> dyn_idx opt \<union> aggr_idx opt = {i. i < unat maxn}" using idx_lt [OF ok] by auto
  then show ?thesis using queue_init_rep [OF assms(2) ok] by auto
qed

theorem queue_init_all_free_witness:
  "\<exists>s'. queue_init 0 0 (Some (demo_opt, 101)) True 0 demo_raw = (Inr EM_OK, s') \<and>
     queue_rep (static_idx demo_opt) (dyn_idx demo_opt) (aggr_idx demo_opt) s'"
  using queue_init_all_free [OF demo_config demo_pools_raw] by auto

text \<open>
  No dynamic queue has two owners. For any sequence of allocations and frees the handles handed out
  are distinct, none of them is still free, and together with the free ones they are all the dynamic
  queues; an allocation fails only when none is free.
\<close>

theorem dyn_queues_never_shared:
  assumes "dyn_rep opt dev F s" "distinct used" "set used \<inter> F = {}" "set used \<union> F = dyn_hdls opt dev (dyn_idx opt)"
    and "alloc_run dyn_alloc (\<lambda>q s. snd (queue_free q s)) ops used s = (used', s')"
  shows "\<exists>F'. dyn_rep opt dev F' s' \<and> distinct used' \<and> set used' \<inter> F' = {} \<and>
    set used' \<union> F' = dyn_hdls opt dev (dyn_idx opt) \<and> (F' = {} \<longleftrightarrow> fst (dyn_alloc thr s') = None)"
proof -
  obtain F' where F': "dyn_rep opt dev F' s'" "distinct used'" "set used' \<inter> F' = {}"
    "set used' \<union> F' = dyn_hdls opt dev (dyn_idx opt)"
    using dynq.alloc_run_partition [OF assms] by blast
  have *: "F' = {} \<longleftrightarrow> fst (dyn_alloc thr s') = None"
  proof (cases "F' = {}")
    case True
    then show ?thesis using dynq.alloc_none [of opt dev s' thr] F'(1) by simp
  next
    case False
    obtain x t where "dyn_alloc thr s' = (Some x, t)" using dynq.alloc_some [OF F'(1) False, of thr] by blast
    then show ?thesis using False by simp
  qed
  show ?thesis by (rule exI [of _ F']) (intro conjI F' *)
qed

theorem dyn_queues_never_shared_witness:
  "\<exists>F' used' s'. dyn_rep demo_opt 7 F' s' \<and> distinct used' \<and>
     set used' \<union> F' = dyn_hdls demo_opt 7 (dyn_idx demo_opt) \<and>
     alloc_run dyn_alloc (\<lambda>q s. snd (queue_free q s)) [Alloc 3, Alloc 0, Release 0x70063, Alloc 9] [] demo_qs = (used', s')"
proof -
  have d: "dyn_rep demo_opt 7 (dyn_hdls demo_opt 7 (dyn_idx demo_opt)) demo_qs"
    using demo_qs_rep by (auto simp: dyn_rep_def)
  obtain used' s' where r: "alloc_run dyn_alloc (\<lambda>q s. snd (queue_free q s))
      [Alloc 3, Alloc 0, Release 0x70063, Alloc 9] [] demo_qs = (used', s')" by (rule prod.exhaust)
  have "distinct ([] :: em_queue_t list)" "set [] \<inter> dyn_hdls demo_opt 7 (dyn_idx demo_opt) = {}"
    "set [] \<union> dyn_hdls demo_opt 7 (dyn_idx demo_opt) = dyn_hdls demo_opt 7 (dyn_idx demo_opt)" by simp_all
  from dyn_queues_never_shared [OF d this r, of 0] r show ?thesis by blast
qed

lemma queue_free_static:
  assumes r: "queue_rep (FS - {i}) FD FA s" and i: "i \<in> FS" "FS \<subseteq> static_idx (qs_opt s)"
  shows "\<exists>s'. queue_free (queue_idx2hdl (qs_device_id s) (int i)) s = (EM_OK, s') \<and> queue_rep FS FD FA s'"
proof -
  have si: "i \<in> static_idx (qs_opt s)" using i by blast
  then have "i \<notin> FD" "i \<notin> aggr_idx (qs_opt s)"
    using idx_disjoint [of "qs_opt s"] queue_repD(4) [OF r] by blast+
  from queue_free_rep [OF r get_elem_hdl [OF idx_lt(1) [OF queue_repD(2) [OF r] si]] _ this]
  show ?thesis using i(1) si by (auto simp: insert_absorb)
qed

text \<open>
  A specific queue is allocated exactly when its handle names a free queue of the static range of
  this device (whatever the unused high half of the handle holds); then a second request for it is
  refused, and freeing it makes it free again. Any other request changes nothing.
\<close>

theorem static_queue_alloc_exact:
  assumes "queue_rep FS FD FA s" "q \<noteq> EM_QUEUE_UNDEF"
  shows "if \<exists>i \<in> FS. take_bit 32 q = queue_idx2hdl (qs_device_id s) (int i)
    then \<exists>i s'. i \<in> FS \<and> queue_alloc thr q s = (Inr (take_bit 32 q), s') \<and> queue_rep (FS - {i}) FD FA s' \<and>
      (\<exists>e. queue_alloc thr q s' = (Inl e, s')) \<and>
      (\<exists>s''. queue_free (take_bit 32 q) s' = (EM_OK, s'') \<and> queue_rep FS FD FA s'')
    else \<exists>e. queue_alloc thr q s = (Inl e, s)"
proof (cases "\<exists>i \<in> FS. take_bit 32 q = queue_idx2hdl (qs_device_id s) (int i)")
  case True
  then obtain i s' where i: "i \<in> FS" "take_bit 32 q = queue_idx2hdl (qs_device_id s) (int i)"
    "queue_alloc thr q s = (Inr (take_bit 32 q), s')" "queue_frame s s'" "queue_rep (FS - {i}) FD FA s'"
    using queue_alloc_static [OF assms, of thr] by auto
  have same: "qs_opt s' = qs_opt s" "qs_device_id s' = qs_device_id s" using i(4) by (simp_all add: queue_frame_def)
  have sub: "FS \<subseteq> static_idx (qs_opt s')" using queue_repD(3) [OF assms(1)] same by simp
  have "j = i" if "j \<in> FS" "take_bit 32 q = queue_idx2hdl (qs_device_id s) (int j)" for j
  proof -
    have "k < unat (max_queue_num s)" if "k \<in> FS" for k
      using idx_lt(1) [OF queue_repD(2) [OF assms(1)]] queue_repD(3) [OF assms(1)] that by blast
    then have "get_elem s q = Some i" "get_elem s q = Some j"
      using i that by (simp_all add: get_elem_def queue_elem_get_iff)
    then show ?thesis by simp
  qed
  then have "\<not> (\<exists>j \<in> FS - {i}. take_bit 32 q = queue_idx2hdl (qs_device_id s') (int j))" using same(2) by auto
  then have "\<exists>e. queue_alloc thr q s' = (Inl e, s')" using queue_alloc_static [OF i(5) assms(2), of thr] by simp
  moreover have "\<exists>s''. queue_free (take_bit 32 q) s' = (EM_OK, s'') \<and> queue_rep FS FD FA s''"
    using queue_free_static [OF i(5,1) sub] i(2) same(2) by simp
  ultimately show ?thesis using True i(1,3,5) by auto
next
  case False
  then show ?thesis using queue_alloc_static [OF assms, of thr] by simp
qed

theorem static_queue_alloc_exact_witness:
  "\<exists>i s'. queue_alloc 0 0x500070001 demo_qs = (Inr 0x70001, s') \<and> (\<exists>e. queue_alloc 0 0x500070001 s' = (Inl e, s')) \<and> i < (1 :: nat)"
proof -
  have t: "take_bit 32 (0x500070001 :: em_queue_t) = 0x70001" "queue_idx2hdl 7 (int 0) = 0x70001" by code_simp+
  have "0 \<in> static_idx demo_opt" by (simp add: static_idx_def)
  then have "\<exists>i \<in> static_idx demo_opt. take_bit 32 (0x500070001 :: em_queue_t) = queue_idx2hdl (qs_device_id demo_qs) (int i)"
    using t demo_qs_rep(3) by (intro bexI [of _ 0]) simp_all
  then show ?thesis
    using static_queue_alloc_exact [OF demo_qs_rep(1), of "0x500070001" 0] t(1) by (auto simp: EM_QUEUE_UNDEF_def)
qed

text \<open>
  C26: the priority map. With ODP levels from \<^verbatim>\<open>minp\<close> to \<^verbatim>\<open>maxp\<close>, not negative, every mode that succeeds maps
  all eight EM priorities into ODP's range; the legacy and adaptive modes keep the order of the
  priorities and use both ends, the custom mode maps to exactly the configured offsets.
\<close>

theorem queue_prio_map_correct:
  assumes "0 \<le> minp" "minp \<le> dflt" "dflt \<le> maxp" "nump = maxp - minp + 1"
    "queue_init_prio_map mode cm dflt minp maxp nump = Some m"
  shows "length m = 8 \<and> (\<forall>p \<in> set m. minp \<le> p \<and> p \<le> maxp) \<and>
    (mode \<noteq> 2 \<longrightarrow> sorted m \<and> m ! 0 = minp \<and> m ! 7 = maxp) \<and> (mode = 2 \<longrightarrow> (\<forall>i < 8. m ! i = minp + cm ! i)) \<and>
    (\<forall>p. prio_em2odp m p = (if p < 8 then Some (m ! unat p) else None))"
proof -
  have p: "prio_em2odp m p = (if p < 8 then Some (m ! unat p) else None)" for p
    by (simp add: prio_em2odp_def EM_QUEUE_PRIO_NUM_def word_less_nat_alt)
  have le: "minp \<le> maxp" using assms(2,3) by simp
  consider "mode = 0" | "mode = 1" | "mode = 2"
    using assms(5) by (auto simp: queue_init_prio_map_def split: if_splits)
  then show ?thesis
  proof cases
    case 1
    then have "m = [minp, minp, minp, dflt, dflt, dflt, maxp, maxp]" using assms(5) by (simp add: queue_init_prio_map_def legacy_value)
    then show ?thesis using 1 p assms(2,3) by simp
  next
    case 2
    then have "m = queue_init_prio_adaptive minp maxp nump" using assms(5) by (simp add: queue_init_prio_map_def)
    then show ?thesis using 2 p adaptive_props [OF assms(1) le assms(4)] by simp
  next
    case 3
    then show ?thesis using p custom_props [of minp maxp cm m] assms(5) by (simp add: queue_init_prio_map_def)
  qed
qed

theorem queue_prio_map_correct_witness:
  "sorted [0, 0, 0, 1, 1, 1, 2, 2 :: int] \<and> queue_init_prio_map 1 [] 1 0 2 3 = Some [0, 0, 0, 1, 1, 1, 2, 2]"
proof -
  have m: "queue_init_prio_map 1 [] 1 0 2 3 = Some [0, 0, 0, 1, 1, 1, 2, 2]" by code_simp
  show ?thesis using queue_prio_map_correct [of 0 1 2 3 1 "[]", OF _ _ _ _ m] m by simp
qed

end
