(* ===== verification/Queue.thy ===== *)
theory Queue
  imports QueueTable TableIter
begin

text \<open>
  Creating, configuring and deleting queues (\<^verbatim>\<open>em_queue.c\<close>, \<^verbatim>\<open>event_machine_queue.c\<close>), the state of a queue
  and the accessors of the API. ODP, event pools, and the tests whether a queue group or an atomic group
  is allocated are the record \<^verbatim>\<open>queue_env\<close>: it answers every call an operation makes. Locks make each
  operation one step.
\<close>

section \<open>Parameters and environment\<close>

definition EM_QUEUE_PRIO_UNDEF :: u32 where "EM_QUEUE_PRIO_UNDEF = 0xFF"
definition EM_QUEUE_MAX_AGGR :: u32 where "EM_QUEUE_MAX_AGGR = 4"
definition EM_QUEUE_NAME_LEN :: nat where "EM_QUEUE_NAME_LEN = 32"
definition QUEUE_ELEM_VALID :: u16 where "QUEUE_ELEM_VALID = 0xCAFE"
definition EM_QUEUE_FLAG_MASK :: u32 where "EM_QUEUE_FLAG_MASK = 0xFFFF"
definition EM_QUEUE_FLAG_DEFAULT :: u32 where "EM_QUEUE_FLAG_DEFAULT = 0"
definition EM_QUEUE_FLAG_NONBLOCKING_LF :: u32 where "EM_QUEUE_FLAG_NONBLOCKING_LF = 1"
definition EM_QUEUE_FLAG_NONBLOCKING_WF :: u32 where "EM_QUEUE_FLAG_NONBLOCKING_WF = 2"
definition EM_QUEUE_FLAG_ENQ_NOT_MTSAFE :: u32 where "EM_QUEUE_FLAG_ENQ_NOT_MTSAFE = 4"
definition EM_QUEUE_FLAG_DEQ_NOT_MTSAFE :: u32 where "EM_QUEUE_FLAG_DEQ_NOT_MTSAFE = 8"

record em_queue_aggr_conf =
  ac_init_called :: bool
  ac_pool :: nat
  ac_max_tmo_ns :: u64
  ac_max_size :: u32
  ac_event_type :: u32

text \<open>A queue group, an atomic group, a function or a pointer is 0 when undefined or NULL.\<close>

record em_queue_param =
  qp_init_called :: bool
  qp_queue :: em_queue_t
  qp_type :: em_queue_type_t
  qp_prio :: u32
  qp_queue_group :: hdl
  qp_atomic_group :: hdl
  qp_flags :: u32
  qp_min_events :: u32
  qp_output_fn :: nat
  qp_output_fn_args :: nat
  qp_args_len :: nat
  qp_num_aggr :: u32
  qp_aggr_conf :: "em_queue_aggr_conf list option"

text \<open>\<^verbatim>\<open>conf->conf\<close> when it is present and of the size of an output configuration: function, args, length.\<close>

record em_queue_conf =
  qc_flags :: u32
  qc_min_events :: u32
  qc_output_conf :: "(nat \<times> nat \<times> nat) option"

record odp_aggr_capa =
  oc_max_num :: u32
  oc_max_num_per_queue :: u32
  oc_min_size :: u32
  oc_max_size :: u32
  oc_min_tmo_ns :: u64
  oc_max_tmo_ns :: u64

datatype odp_nonblocking = ODP_BLOCKING | ODP_NONBLOCKING_LF | ODP_NONBLOCKING_WF
datatype odp_queue_op_mode = ODP_QUEUE_OP_MT | ODP_QUEUE_OP_MT_UNSAFE
datatype odp_queue_type = ODP_QUEUE_TYPE_SCHED | ODP_QUEUE_TYPE_PLAIN
datatype odp_schedule_sync = ODP_SCHED_SYNC_PARALLEL | ODP_SCHED_SYNC_ATOMIC | ODP_SCHED_SYNC_ORDERED
datatype odp_queue_order = ODP_QUEUE_ORDER_KEEP | ODP_QUEUE_ORDER_IGNORE
datatype odp_event_type = ODP_EVENT_BUFFER | ODP_EVENT_PACKET | ODP_EVENT_TIMEOUT | ODP_EVENT_ANY

record odp_aggr_config =
  oa_pool :: nat
  oa_max_tmo_ns :: u64
  oa_max_size :: u32
  oa_event_type :: odp_event_type

record odp_queue_param =
  op_type :: odp_queue_type
  op_nonblocking :: odp_nonblocking
  op_enq_mode :: odp_queue_op_mode
  op_deq_mode :: odp_queue_op_mode
  op_size :: u32
  op_order :: odp_queue_order
  op_prio :: int
  op_sync :: odp_schedule_sync
  op_group :: hdl
  op_context :: "nat option"
  op_aggr :: "odp_aggr_config list"

record queue_env =
  env_thr :: u32
  env_backend :: vector_backend
  env_qgrp_allocated :: "hdl \<Rightarrow> bool"
  env_qgrp_elem :: "hdl \<Rightarrow> bool"
  env_odp_sched_group :: "hdl \<Rightarrow> hdl"
  env_agrp_allocated :: "hdl \<Rightarrow> bool"
  env_vector_pool :: "nat \<Rightarrow> bool"
  env_find_subpool :: "nat \<Rightarrow> u32 \<Rightarrow> int"
  env_odp_pool :: "nat \<Rightarrow> int \<Rightarrow> nat"
  env_sched_aggr_capa :: odp_aggr_capa
  env_plain_aggr_capa :: odp_aggr_capa
  env_sched_lockfree :: bool
  env_sched_waitfree :: bool
  env_plain_lockfree :: bool
  env_plain_waitfree :: bool
  env_prio_map :: "int list"
  env_queue_param_init :: odp_queue_param
  env_odp_queue_create :: "string \<Rightarrow> odp_queue_param \<Rightarrow> nat"
  env_odp_queue_aggr :: "nat \<Rightarrow> nat \<Rightarrow> nat"
  env_odp_queue_destroy :: "nat \<Rightarrow> int"
  env_em_alloc :: "nat \<Rightarrow> nat"
  env_em_event_pointer :: "nat \<Rightarrow> nat"

section \<open>Argument checks\<close>

text \<open>The result of a check: None is the return value 0, Some the error text.\<close>

fun check_aggr_confs :: "queue_env \<Rightarrow> odp_aggr_capa \<Rightarrow> em_queue_aggr_conf list \<Rightarrow> string option" where
  "check_aggr_confs env capa [] = None"
| "check_aggr_confs env capa (c # cs) =
     (if \<not> ac_init_called c then Some ''Use em_queue_aggr_conf_init() before create''
      else if ac_pool c = 0 then Some ''Event aggregator pool not defined!''
      else if \<not> env_vector_pool env (ac_pool c) then Some ''Invalid pool for event aggregator!''
      else if ac_max_size c > oc_max_size capa \<or> ac_max_size c < oc_min_size capa
      then Some ''Invalid max_size for event aggregator!''
      else if ac_max_tmo_ns c > 0 \<and> (ac_max_tmo_ns c > oc_max_tmo_ns capa \<or> ac_max_tmo_ns c < oc_min_tmo_ns capa)
      then Some ''Invalid max_tmo_ns for event aggregator!''
      else check_aggr_confs env capa cs)"

definition queue_create_check_aggr :: "queue_env \<Rightarrow> odp_aggr_capa \<Rightarrow> em_queue_param \<Rightarrow> string option" where
  "queue_create_check_aggr env capa param =
     (if qp_num_aggr param = 0 then None
      else if env_backend env = EM_VECTOR_BACKEND_PACKET
      then Some ''Event aggregation not supported with packet vector backend!''
      else if qp_num_aggr param > min (oc_max_num capa) (oc_max_num_per_queue capa) \<or> qp_num_aggr param > EM_QUEUE_MAX_AGGR
      then Some ''Invalid number of event aggregators, check limits!''
      else (case qp_aggr_conf param of
              None \<Rightarrow> Some ''Event aggregator config missing!''
            | Some cs \<Rightarrow> check_aggr_confs env capa (take (unat (qp_num_aggr param)) cs)))"

definition queue_create_check_sched :: "queue_env \<Rightarrow> em_queue_param \<Rightarrow> string option" where
  "queue_create_check_sched env param =
     (if \<not> env_qgrp_elem env (qp_queue_group param) \<or> \<not> env_qgrp_allocated env (qp_queue_group param)
      then Some ''Invalid queue group!''
      else if qp_atomic_group param \<noteq> 0 \<and> \<not> env_agrp_allocated env (qp_atomic_group param)
      then Some ''Invalid atomic group!''
      else if qp_prio param \<ge> of_nat EM_QUEUE_PRIO_NUM then Some ''Invalid queue priority!''
      else queue_create_check_aggr env (env_sched_aggr_capa env) param)"

definition queue_create_check_unsched :: "queue_env \<Rightarrow> em_queue_param \<Rightarrow> string option" where
  "queue_create_check_unsched env param =
     (if qp_prio param \<noteq> EM_QUEUE_PRIO_UNDEF then Some ''Invalid priority for unsched queue!''
      else if qp_queue_group param \<noteq> 0 then Some ''Queue group not used with unsched queues!''
      else if qp_atomic_group param \<noteq> 0 then Some ''Atomic group not used with unsched queues!''
      else queue_create_check_aggr env (env_plain_aggr_capa env) param)"

definition queue_create_check_local :: "em_queue_param \<Rightarrow> string option" where
  "queue_create_check_local param =
     (if qp_queue_group param \<noteq> 0 then Some ''Queue group not used with local queues!''
      else if qp_atomic_group param \<noteq> 0 then Some ''Atomic group not used with local queues!''
      else if qp_prio param \<ge> of_nat EM_QUEUE_PRIO_NUM then Some ''Invalid queue priority!''
      else if qp_num_aggr param > 0 then Some ''Event aggregation not supported with local queues!''
      else None)"

definition queue_create_check_output :: "em_queue_param \<Rightarrow> string option" where
  "queue_create_check_output param =
     (if qp_queue_group param \<noteq> 0 then Some ''Queue group not used with output queues!''
      else if qp_atomic_group param \<noteq> 0 then Some ''Atomic group not used with output queues!''
      else if qp_num_aggr param > 0 then Some ''Event aggregation not supported with output queues!''
      else if qp_output_fn param = 0 then Some ''Invalid output queue conf: output function missing!''
      else None)"

definition queue_create_check_args :: "queue_env \<Rightarrow> em_queue_param \<Rightarrow> string option" where
  "queue_create_check_args env param =
     (if qp_atomic_group param \<noteq> 0 \<and> qp_type param \<noteq> EM_QUEUE_TYPE_ATOMIC
      then Some ''Atomic group can only be used with atomic queues!''
      else (case qp_type param of
              EM_QUEUE_TYPE_ATOMIC \<Rightarrow> queue_create_check_sched env param
            | EM_QUEUE_TYPE_PARALLEL \<Rightarrow> queue_create_check_sched env param
            | EM_QUEUE_TYPE_ORDERED \<Rightarrow> queue_create_check_sched env param
            | EM_QUEUE_TYPE_UNSCHEDULED \<Rightarrow> queue_create_check_unsched env param
            | EM_QUEUE_TYPE_LOCAL \<Rightarrow> queue_create_check_local param
            | EM_QUEUE_TYPE_OUTPUT \<Rightarrow> queue_create_check_output param
            | _ \<Rightarrow> Some ''Unknown queue type''))"

definition queue_param_apply_conf :: "em_queue_param \<Rightarrow> em_queue_conf option \<Rightarrow> em_queue_param" where
  "queue_param_apply_conf param conf =
     (case conf of
        None \<Rightarrow> param
      | Some c \<Rightarrow>
          let p = param\<lparr>qp_flags := qc_flags c, qp_min_events := qc_min_events c\<rparr>
          in (case qc_output_conf c of
                Some (fn, args, len) \<Rightarrow>
                  if qp_type p = EM_QUEUE_TYPE_OUTPUT
                  then p\<lparr>qp_output_fn := fn, qp_output_fn_args := args, qp_args_len := len\<rparr> else p
              | None \<Rightarrow> p))"

definition em_queue_param_init :: em_queue_param where
  "em_queue_param_init = \<lparr>qp_init_called = True, qp_queue = EM_QUEUE_UNDEF, qp_type = EM_QUEUE_TYPE_UNDEF,
     qp_prio = EM_QUEUE_PRIO_UNDEF, qp_queue_group = 0, qp_atomic_group = 0, qp_flags = EM_QUEUE_FLAG_DEFAULT,
     qp_min_events = 0, qp_output_fn = 0, qp_output_fn_args = 0, qp_args_len = 0, qp_num_aggr = 0,
     qp_aggr_conf = None\<rparr>"

section \<open>Setting up an allocated queue\<close>

text \<open>The text of a handle (\<^verbatim>\<open>"0x%" PRIxPTR\<close>): hexadecimal digits without leading zeros.\<close>

definition hex_digit :: "nat \<Rightarrow> char" where
  "hex_digit d = ''0123456789abcdef'' ! d"

function hex_digits :: "nat \<Rightarrow> string" where
  "hex_digits n = (if n < 16 then [hex_digit n] else hex_digits (n div 16) @ [hex_digit (n mod 16)])"
  by auto
termination by (relation "measure id") auto

definition set_qname :: "nat \<Rightarrow> string \<Rightarrow> queue_shm \<Rightarrow> queue_shm" where
  "set_qname i name s = s\<lparr>queue_names := (queue_names s)(i := take (EM_QUEUE_NAME_LEN - 1) name)\<rparr>"

definition queue_setup_common :: "string option \<Rightarrow> em_queue_param \<Rightarrow> nat \<Rightarrow> queue_shm \<Rightarrow> queue_shm" where
  "queue_setup_common name param i s =
     (let qname = (case name of Some n \<Rightarrow> n | None \<Rightarrow> ''EM_Q_'' @ hex_digits (unat (queue_hdl s i)));
          s1 = set_qname i qname s
      in upd_elem i (\<lambda>e. e\<lparr>valid_check := QUEUE_ELEM_VALID, use_multi_rcv := False, scheduled := False,
           in_atomic_group := qp_atomic_group param \<noteq> 0, is_pktin := False, has_aggr := False,
           q_type := qp_type param, q_priority := ucast (qp_prio param), q_queue_group := qp_queue_group param,
           q_atomic_group := qp_atomic_group param, odp_queue := 0, q_state := EM_QUEUE_STATE_INVALID,
           q_context := 0, q_eo := 0, q_eo_elem := 0, q_eo_ctx := 0, q_max_events := 0, receive_func := 0,
           aggr_queues := []\<rparr>) s1)"

definition queue_setup_odp_common :: "queue_opt \<Rightarrow> em_queue_param \<Rightarrow> odp_queue_param \<Rightarrow> odp_queue_param" where
  "queue_setup_odp_common opt param op =
     (let flags = and (qp_flags param) EM_QUEUE_FLAG_MASK;
          op1 = (if flags \<noteq> EM_QUEUE_FLAG_DEFAULT
            then (let a = (if and flags EM_QUEUE_FLAG_NONBLOCKING_WF \<noteq> 0 then op\<lparr>op_nonblocking := ODP_NONBLOCKING_WF\<rparr>
                           else if and flags EM_QUEUE_FLAG_NONBLOCKING_LF \<noteq> 0 then op\<lparr>op_nonblocking := ODP_NONBLOCKING_LF\<rparr>
                           else op);
                      b = (if and flags EM_QUEUE_FLAG_ENQ_NOT_MTSAFE \<noteq> 0 then a\<lparr>op_enq_mode := ODP_QUEUE_OP_MT_UNSAFE\<rparr> else a)
                  in if and flags EM_QUEUE_FLAG_DEQ_NOT_MTSAFE \<noteq> 0 then b\<lparr>op_deq_mode := ODP_QUEUE_OP_MT_UNSAFE\<rparr> else b)
            else op)
      in if qp_min_events param = 0
         then (if min_events_default opt \<noteq> 0 then op1\<lparr>op_size := min_events_default opt\<rparr> else op1)
         else op1\<lparr>op_size := qp_min_events param\<rparr>)"

definition create_odp_queue :: "queue_env \<Rightarrow> nat \<Rightarrow> odp_queue_param \<Rightarrow> queue_shm \<Rightarrow> int \<times> queue_shm" where
  "create_odp_queue env i op s =
     (let q = env_odp_queue_create env (queue_names s i) op
      in if q = 0 then (-1, s) else (0, upd_elem i (\<lambda>e. e\<lparr>odp_queue := q\<rparr>) s))"


section \<open>Event aggregators\<close>

definition em_event_type_major :: "u32 \<Rightarrow> u32" where "em_event_type_major t = and t 0xFF000000"

definition odp_event_type_of :: "u32 \<Rightarrow> odp_event_type option" where
  "odp_event_type_of t =
     (let major = em_event_type_major t
      in if major = 0x1000000 then Some ODP_EVENT_BUFFER
         else if major = 0x2000000 then Some ODP_EVENT_PACKET
         else if major = 0x6000000 then Some ODP_EVENT_TIMEOUT
         else if major \<in> {0x3000000, 0x4000000, 0x7000000, 0x8000000} then Some ODP_EVENT_ANY
         else None)"

fun queue_setup_odp_aggr :: "queue_env \<Rightarrow> em_queue_aggr_conf list \<Rightarrow> string + odp_aggr_config list" where
  "queue_setup_odp_aggr env [] = Inr []"
| "queue_setup_odp_aggr env (c # cs) =
     (if \<not> env_vector_pool env (ac_pool c) then Inl ''Invalid pool for event aggregator!''
      else let subpool = env_find_subpool env (ac_pool c) (ac_max_size c)
      in if subpool < 0 then Inl ''No suitable subpool found for event aggregator!''
      else (case odp_event_type_of (ac_event_type c) of
              None \<Rightarrow> Inl ''Unsupported event type for event aggregator!''
            | Some t \<Rightarrow>
                (case queue_setup_odp_aggr env cs of
                   Inl e \<Rightarrow> Inl e
                 | Inr os \<Rightarrow> Inr (\<lparr>oa_pool = env_odp_pool env (ac_pool c) subpool, oa_max_tmo_ns = ac_max_tmo_ns c,
                     oa_max_size = ac_max_size c, oa_event_type = t\<rparr> # os))))"

text \<open>
  The first loop of \<^verbatim>\<open>queue_setup_aggr\<close> asks ODP for the aggregator queues, the second allocates an
  element for each and frees those it has when one is missing; the third sets the elements up.
  \<^verbatim>\<open>aggr_queues\<close> of a parent stands for \<^verbatim>\<open>num_aggr\<close> (its length) and the array.
\<close>

definition aggr_name :: "nat \<Rightarrow> string \<Rightarrow> string" where
  "aggr_name k qname =
     (let n = (k + 1) mod (unat EM_QUEUE_MAX_AGGR + 1)
      in take (EM_QUEUE_NAME_LEN - 1) (''AGGR0'' @ [hex_digit n] @ ''-'' @ take (EM_QUEUE_NAME_LEN - 8) qname))"

fun aggr_alloc_loop :: "u32 \<Rightarrow> nat \<Rightarrow> nat list \<Rightarrow> queue_shm \<Rightarrow> nat list option \<times> queue_shm" where
  "aggr_alloc_loop thr 0 got s = (Some got, s)"
| "aggr_alloc_loop thr (Suc n) got s =
     (case queue_aggr_alloc thr s of
        (Inl _, s1) \<Rightarrow> (None, fold queue_aggr_free got s1)
      | (Inr q, s1) \<Rightarrow>
          (case get_elem s1 q of
             None \<Rightarrow> (None, fold queue_aggr_free got s1)
           | Some i \<Rightarrow> aggr_alloc_loop thr n (got @ [i]) s1))"

definition setup_aggr_elem ::
  "nat \<Rightarrow> nat \<Rightarrow> em_queue_aggr_conf \<Rightarrow> nat \<Rightarrow> nat \<Rightarrow> queue_shm \<Rightarrow> queue_shm" where
  "setup_aggr_elem i k c oq a s =
     (let s1 = s\<lparr>queue_names := (queue_names s)(a := aggr_name k (queue_names s i))\<rparr>
      in upd_elem a (\<lambda>e. e\<lparr>valid_check := QUEUE_ELEM_VALID, q_type := EM_QUEUE_TYPE_AGGR, odp_queue := oq,
           use_multi_rcv := False, scheduled := scheduled (queue_elem s i), in_atomic_group := False,
           is_pktin := False, has_aggr := False, q_state := q_state (queue_elem s i),
           q_priority := ucast EM_QUEUE_PRIO_UNDEF, q_max_events := 0, q_eo := 0, q_context := 0, receive_func := 0,
           q_eo_ctx := 0, q_eo_elem := 0, q_queue_group := 0, parent_queue := queue_hdl s i,
           aggr_pool := ac_pool c, aggr_max_tmo_ns := ac_max_tmo_ns c, aggr_max_size := ac_max_size c,
           aggr_event_type := ac_event_type c\<rparr>) s1)"

fun setup_aggr_loop ::
  "nat \<Rightarrow> nat \<Rightarrow> em_queue_aggr_conf list \<Rightarrow> nat list \<Rightarrow> nat list \<Rightarrow> queue_shm \<Rightarrow> queue_shm" where
  "setup_aggr_loop i k (c # cs) (oq # oqs) (a # as) s = setup_aggr_loop i (Suc k) cs oqs as (setup_aggr_elem i k c oq a s)"
| "setup_aggr_loop i k _ _ _ s = s"

definition queue_setup_aggr ::
  "queue_env \<Rightarrow> nat \<Rightarrow> em_queue_aggr_conf list \<Rightarrow> queue_shm \<Rightarrow> string option \<times> queue_shm" where
  "queue_setup_aggr env i confs s =
     (let oqs = map (env_odp_queue_aggr env (odp_queue (queue_elem s i))) [0..<length confs]
      in if 0 \<in> set oqs then (Some ''Q-setup-aggr: failed to get ODP event aggregator!'', s)
         else (case aggr_alloc_loop (env_thr env) (length confs) [] s of
                 (None, s1) \<Rightarrow> (Some ''Q-setup-aggr: failed to allocate aggregator queue!'', s1)
               | (Some as, s1) \<Rightarrow>
                   let s2 = upd_elem i (\<lambda>e. e\<lparr>has_aggr := True\<rparr>) s1;
                       s3 = setup_aggr_loop i 0 confs oqs as s2
                   in (None, upd_elem i (\<lambda>e. e\<lparr>aggr_queues := map (\<lambda>a. q_queue (queue_elem s3 a)) as\<rparr>) s3)))"

section \<open>Setting up each type of queue\<close>

text \<open>The lists of a queue group and of an atomic group; \<^verbatim>\<open>list_add\<close> appends, \<^verbatim>\<open>list_rem\<close> unlinks.\<close>

definition queue_group_add_queue_list :: "hdl \<Rightarrow> nat \<Rightarrow> queue_shm \<Rightarrow> queue_shm" where
  "queue_group_add_queue_list g i s =
     s\<lparr>qgrp_queues := (qgrp_queues s)(g := qgrp_queues s g @ [i]),
       qgrp_num_queues := (qgrp_num_queues s)(g := qgrp_num_queues s g + 1)\<rparr>"

definition queue_group_rem_queue_list :: "hdl \<Rightarrow> nat \<Rightarrow> queue_shm \<Rightarrow> queue_shm" where
  "queue_group_rem_queue_list g i s =
     (if qgrp_queues s g \<noteq> []
      then s\<lparr>qgrp_queues := (qgrp_queues s)(g := remove1 i (qgrp_queues s g)),
             qgrp_num_queues := (qgrp_num_queues s)(g := qgrp_num_queues s g - 1)\<rparr>
      else s)"

definition aggr_confs :: "em_queue_param \<Rightarrow> em_queue_aggr_conf list" where
  "aggr_confs param =
     (case qp_aggr_conf param of None \<Rightarrow> [] | Some cs \<Rightarrow> take (unat (min (qp_num_aggr param) EM_QUEUE_MAX_AGGR)) cs)"

text \<open>
  The common end of \<^verbatim>\<open>queue_setup_scheduled\<close> and \<^verbatim>\<open>queue_setup_unscheduled\<close>: configure the aggregators,
  create the ODP queue, set the aggregator queues up, and destroy the ODP queue when that fails.
\<close>

definition setup_odp_queue ::
  "queue_env \<Rightarrow> em_queue_param \<Rightarrow> string \<Rightarrow> nat \<Rightarrow> odp_queue_param \<Rightarrow> queue_shm \<Rightarrow> string option \<times> queue_shm" where
  "setup_odp_queue env param create_err i op s =
     (let confs = aggr_confs param
      in case queue_setup_odp_aggr env confs of
           Inl e \<Rightarrow> (Some e, s)
         | Inr oas \<Rightarrow>
             let (err, s1) = create_odp_queue env i (op\<lparr>op_aggr := oas\<rparr>) s
             in if err \<noteq> 0 then (Some create_err, s1)
                else if confs = [] then (None, s1)
                else (case queue_setup_aggr env i confs s1 of
                        (None, s2) \<Rightarrow> (None, s2)
                      | (Some e, s2) \<Rightarrow> (Some e, upd_elem i (\<lambda>q. q\<lparr>odp_queue := 0\<rparr>) s2)))"

definition scheduled_queue_type_em2odp :: "em_queue_type_t \<Rightarrow> odp_schedule_sync option" where
  "scheduled_queue_type_em2odp t =
     (case t of EM_QUEUE_TYPE_ATOMIC \<Rightarrow> Some ODP_SCHED_SYNC_ATOMIC
              | EM_QUEUE_TYPE_PARALLEL \<Rightarrow> Some ODP_SCHED_SYNC_PARALLEL
              | EM_QUEUE_TYPE_ORDERED \<Rightarrow> Some ODP_SCHED_SYNC_ORDERED
              | _ \<Rightarrow> None)"

definition queue_setup_scheduled ::
  "queue_env \<Rightarrow> em_queue_param \<Rightarrow> nat \<Rightarrow> queue_shm \<Rightarrow> string option \<times> queue_shm" where
  "queue_setup_scheduled env param i s =
     (if \<not> env_qgrp_elem env (qp_queue_group param) then (Some ''Q-setup-sched: invalid queue group!'', s)
      else
      let s1 = upd_elem i (\<lambda>e. e\<lparr>scheduled := True, q_state := EM_QUEUE_STATE_INIT\<rparr>) s;
          op = queue_setup_odp_common (qs_opt s) param (env_queue_param_init env)
      in case scheduled_queue_type_em2odp (qp_type param) of
           None \<Rightarrow> (Some ''Q-setup-sched: invalid queue type!'', s1)
         | Some sync \<Rightarrow>
      (case prio_em2odp (env_prio_map env) (qp_prio param) of
           None \<Rightarrow> (Some ''Q-setup-sched: invalid queue priority!'', s1)
         | Some prio \<Rightarrow>
      let op1 = op\<lparr>op_type := ODP_QUEUE_TYPE_SCHED, op_prio := prio, op_sync := sync,
                   op_group := env_odp_sched_group env (qp_queue_group param)\<rparr>
      in if op_nonblocking op1 = ODP_NONBLOCKING_LF \<and> \<not> env_sched_lockfree env
         then (Some ''Q-setup-sched: non-blocking, lock-free sched queues unavailable'', s1)
         else if op_nonblocking op1 = ODP_NONBLOCKING_WF \<and> \<not> env_sched_waitfree env
         then (Some ''Q-setup-sched: non-blocking, wait-free sched queues unavailable'', s1)
         else if op_enq_mode op1 \<noteq> ODP_QUEUE_OP_MT \<or> op_deq_mode op1 \<noteq> ODP_QUEUE_OP_MT
         then (Some ''Q-setup-sched: invalid flag: scheduled queues must be MT-safe'', s1)
         else (case setup_odp_queue env param ''Q-setup-sched: scheduled odp queue creation failed!'' i
                      (op1\<lparr>op_context := Some i\<rparr>) s1 of
                 (Some e, s2) \<Rightarrow> (Some e, s2)
               | (None, s2) \<Rightarrow> (None, queue_group_add_queue_list (qp_queue_group param) i s2))))"

definition queue_setup_unscheduled ::
  "queue_env \<Rightarrow> em_queue_param \<Rightarrow> nat \<Rightarrow> queue_shm \<Rightarrow> string option \<times> queue_shm" where
  "queue_setup_unscheduled env param i s =
     (let s1 = upd_elem i (\<lambda>e. e\<lparr>q_priority := ucast EM_QUEUE_PRIO_UNDEF, q_type := EM_QUEUE_TYPE_UNSCHEDULED,
                 q_queue_group := 0, scheduled := False, q_state := EM_QUEUE_STATE_UNSCHEDULED\<rparr>) s;
          op = (queue_setup_odp_common (qs_opt s) param (env_queue_param_init env))
                 \<lparr>op_type := ODP_QUEUE_TYPE_PLAIN, op_order := ODP_QUEUE_ORDER_IGNORE\<rparr>
      in if op_nonblocking op = ODP_NONBLOCKING_LF \<and> \<not> env_plain_lockfree env
         then (Some ''Q-setup-unsched: non-blocking, lock-free unsched queues unavailable'', s1)
         else if op_nonblocking op = ODP_NONBLOCKING_WF \<and> \<not> env_plain_waitfree env
         then (Some ''Q-setup-unsched: non-blocking, wait-free unsched queues unavailable'', s1)
         else setup_odp_queue env param ''Q-setup-unsched: plain odp queue creation failed!'' i
                (op\<lparr>op_context := Some i\<rparr>) s1)"

definition queue_setup_local :: "em_queue_param \<Rightarrow> nat \<Rightarrow> queue_shm \<Rightarrow> string option \<times> queue_shm" where
  "queue_setup_local param i s =
     (None, upd_elem i (\<lambda>e. e\<lparr>q_priority := ucast (qp_prio param), q_type := EM_QUEUE_TYPE_LOCAL,
        q_queue_group := 0, scheduled := False, q_state := EM_QUEUE_STATE_INIT\<rparr>) s)"

text \<open>
  \<^verbatim>\<open>output_idx\<close> lies in a union with the aggregator data; a stale index is the field's old value here.
  Every error leaves through \<^verbatim>\<open>error_dec_cnt\<close>.
\<close>

definition take_output_idx :: "nat \<Rightarrow> queue_shm \<Rightarrow> queue_shm" where
  "take_output_idx i s =
     (case first_idx (\<lambda>k. output_queue_idx_free s ! k) 0 (unat EM_MAX_OUTPUT_QUEUES) of
        None \<Rightarrow> s
      | Some k \<Rightarrow> upd_elem i (\<lambda>e. e\<lparr>output_idx := of_nat k\<rparr>)
          (s\<lparr>output_queue_idx_free := (output_queue_idx_free s)[k := False]\<rparr>))"

definition error_dec_cnt :: "string \<Rightarrow> queue_shm \<Rightarrow> string option \<times> queue_shm" where
  "error_dec_cnt e s = (Some e, s\<lparr>output_queue_count := output_queue_count s - 1\<rparr>)"

definition queue_setup_output ::
  "queue_env \<Rightarrow> em_queue_param \<Rightarrow> nat \<Rightarrow> queue_shm \<Rightarrow> string option \<times> queue_shm" where
  "queue_setup_output env param i s =
     (let s0 = s\<lparr>output_queue_count := output_queue_count s + 1\<rparr>
      in if output_queue_count s0 > EM_MAX_OUTPUT_QUEUES then error_dec_cnt ''Q-setup-output: too many output queues'' s0
      else
      let s1 = upd_elem i (\<lambda>e. e\<lparr>q_priority := ucast EM_QUEUE_PRIO_UNDEF, q_type := EM_QUEUE_TYPE_OUTPUT,
                 q_queue_group := 0, scheduled := False, q_state := EM_QUEUE_STATE_UNSCHEDULED\<rparr>) s0
      in if qp_output_fn param = 0 then error_dec_cnt ''Q-setup-output: invalid output function'' s1
      else
      let s2 = upd_elem i (\<lambda>e. e\<lparr>output_fn := qp_output_fn param, output_fn_args := qp_output_fn_args param,
                 output_fn_args_event := 0\<rparr>) (take_output_idx i s1);
          ev = env_em_alloc env (qp_args_len param)
      in if qp_args_len param \<noteq> 0 \<and> ev = 0 then error_dec_cnt ''Q-setup-output: alloc output_fn_args fails'' s2
      else
      let s3 = (if qp_args_len param = 0 then upd_elem i (\<lambda>e. e\<lparr>output_fn_args := 0\<rparr>) s2
                else upd_elem i (\<lambda>e. e\<lparr>output_fn_args_event := ev, output_fn_args := env_em_event_pointer env ev\<rparr>) s2);
          op = (queue_setup_odp_common (qs_opt s) param (env_queue_param_init env))
                 \<lparr>op_type := ODP_QUEUE_TYPE_PLAIN, op_order := ODP_QUEUE_ORDER_KEEP\<rparr>
      in if op_nonblocking op = ODP_NONBLOCKING_LF \<and> \<not> env_plain_lockfree env
         then error_dec_cnt ''Q-setup-output: non-blocking, lock-free unsched queues unavailable'' s3
         else if op_nonblocking op = ODP_NONBLOCKING_WF \<and> \<not> env_plain_waitfree env
         then error_dec_cnt ''Q-setup-output: non-blocking, wait-free unsched queues unavailable'' s3
         else let (err, s4) = create_odp_queue env i (op\<lparr>op_deq_mode := ODP_QUEUE_OP_MT_UNSAFE, op_context := None\<rparr>) s3
              in if err \<noteq> 0 then error_dec_cnt ''Q-setup-output: plain odp queue creation failed!'' s4
                 else (None, s4))"

definition queue_setup ::
  "queue_env \<Rightarrow> string option \<Rightarrow> em_queue_param \<Rightarrow> nat \<Rightarrow> queue_shm \<Rightarrow> string option \<times> queue_shm" where
  "queue_setup env name param i s =
     (let s1 = queue_setup_common name param i s
      in case qp_type param of
           EM_QUEUE_TYPE_ATOMIC \<Rightarrow> queue_setup_scheduled env param i s1
         | EM_QUEUE_TYPE_PARALLEL \<Rightarrow> queue_setup_scheduled env param i s1
         | EM_QUEUE_TYPE_ORDERED \<Rightarrow> queue_setup_scheduled env param i s1
         | EM_QUEUE_TYPE_UNSCHEDULED \<Rightarrow> queue_setup_unscheduled env param i s1
         | EM_QUEUE_TYPE_LOCAL \<Rightarrow> queue_setup_local param i s1
         | EM_QUEUE_TYPE_OUTPUT \<Rightarrow> queue_setup_output env param i s1
         | _ \<Rightarrow> (Some ''Queue setup: unknown queue type'', s1))"

section \<open>Creating and deleting\<close>

definition queue_create_param ::
  "queue_env \<Rightarrow> string option \<Rightarrow> em_queue_param \<Rightarrow> queue_shm \<Rightarrow> (string + em_queue_t) \<times> queue_shm" where
  "queue_create_param env name param s =
     (case queue_create_check_args env param of
        Some e \<Rightarrow> (Inl e, s)
      | None \<Rightarrow>
          (case queue_alloc (env_thr env) (qp_queue param) s of
             (Inl e, s1) \<Rightarrow> (Inl e, s1)
           | (Inr q, s1) \<Rightarrow>
               if qp_queue param \<noteq> EM_QUEUE_UNDEF \<and> qp_queue param \<noteq> q
               then (Inl ''Failed to allocate the requested queue!'', snd (queue_free q s1))
               else (case get_elem s1 q of
                       None \<Rightarrow> (Inl ''Queue elem NULL!'', snd (queue_free q s1))
                     | Some i \<Rightarrow>
                         (case queue_setup env name param i s1 of
                            (Some e, s2) \<Rightarrow> (Inl e, snd (queue_free q s2))
                          | (None, s2) \<Rightarrow> (Inr q, s2)))))"

text \<open>The numeric state difference of \<^verbatim>\<open>queue_state_change__check\<close> is computed in 32 bits.\<close>

definition queue_state_change__check :: "queue_state_t \<Rightarrow> queue_state_t \<Rightarrow> bool \<Rightarrow> em_status_t" where
  "queue_state_change__check old_state new_state is_setup =
     (let state_diff = (if is_setup then ucast new_state - ucast old_state else ucast old_state - ucast new_state :: u32)
      in if state_diff = 1 then EM_OK else EM_ERR_BAD_STATE)"

text \<open>The aggregator queues of a parent are freed; each slot of the array is cleared first.\<close>

fun free_aggr_loop :: "nat \<Rightarrow> nat \<Rightarrow> u32 list \<Rightarrow> bool \<Rightarrow> queue_shm \<Rightarrow> bool \<times> queue_shm" where
  "free_aggr_loop i k [] err s = (err, s)"
| "free_aggr_loop i k (q # qs) err s =
     (let s1 = upd_elem i (\<lambda>e. e\<lparr>aggr_queues := (aggr_queues e)[k := ucast EM_QUEUE_UNDEF]\<rparr>) s
      in case get_elem s1 (ucast q) of
           None \<Rightarrow> free_aggr_loop i (Suc k) qs True s1
         | Some a \<Rightarrow>
             if \<not> queue_allocated s1 a then free_aggr_loop i (Suc k) qs True s1
             else if q_type (queue_elem s1 a) \<noteq> EM_QUEUE_TYPE_AGGR \<or> parent_queue (queue_elem s1 a) \<noteq> queue_hdl s1 i
             then free_aggr_loop i (Suc k) qs True s1
             else free_aggr_loop i (Suc k) qs err (queue_aggr_free a s1))"

definition queue_free_aggr_all :: "nat \<Rightarrow> queue_shm \<Rightarrow> int \<times> queue_shm" where
  "queue_free_aggr_all i s =
     (let (err, s1) = free_aggr_loop i 0 (aggr_queues (queue_elem s i)) False s
      in (if err then -1 else 0, upd_elem i (\<lambda>e. e\<lparr>aggr_queues := [], has_aggr := False\<rparr>) s1))"

definition EM_MAX_ATOMIC_GROUPS :: nat where "EM_MAX_ATOMIC_GROUPS = 128"

definition invalid_atomic_group :: "hdl \<Rightarrow> bool" where
  "invalid_atomic_group g \<longleftrightarrow> g = 0 \<or> g > EM_MAX_ATOMIC_GROUPS"

definition atomic_group_add_queue_list :: "hdl \<Rightarrow> nat \<Rightarrow> queue_shm \<Rightarrow> queue_shm" where
  "atomic_group_add_queue_list g i s =
     (let s1 = s\<lparr>agrp_queues := (agrp_queues s)(g := agrp_queues s g @ [i]),
                 agrp_num_queues := (agrp_num_queues s)(g := agrp_num_queues s g + 1)\<rparr>
      in if unat (q_priority (queue_elem s i)) = EM_QUEUE_PRIO_HIGHEST
         then s1\<lparr>agrp_hi_prio := (agrp_hi_prio s1)(g := agrp_hi_prio s1 g + 1)\<rparr> else s1)"

definition atomic_group_rem_queue_list :: "hdl \<Rightarrow> nat \<Rightarrow> queue_shm \<Rightarrow> queue_shm" where
  "atomic_group_rem_queue_list g i s =
     (if agrp_queues s g \<noteq> []
      then (let s1 = s\<lparr>agrp_queues := (agrp_queues s)(g := remove1 i (agrp_queues s g)),
                       agrp_num_queues := (agrp_num_queues s)(g := agrp_num_queues s g - 1)\<rparr>
            in if unat (q_priority (queue_elem s i)) = EM_QUEUE_PRIO_HIGHEST
               then s1\<lparr>agrp_hi_prio := (agrp_hi_prio s1)(g := agrp_hi_prio s1 g - 1)\<rparr> else s1)
      else s)"

definition atomic_group_remove_queue :: "nat \<Rightarrow> queue_shm \<Rightarrow> queue_shm" where
  "atomic_group_remove_queue i s =
     (if \<not> in_atomic_group (queue_elem s i) then s
      else let g = q_atomic_group (queue_elem s i)
           in if invalid_atomic_group g then s
              else upd_elem i (\<lambda>e. e\<lparr>in_atomic_group := False, q_atomic_group := 0\<rparr>) (atomic_group_rem_queue_list g i s))"

text \<open>
  \<^verbatim>\<open>output_queue_drain\<close> hands the waiting events to the output function and \<^verbatim>\<open>em_free\<close> frees the copy of
  its arguments: events are not part of this state. An output index beyond the table is not written.
\<close>

definition queue_delete_output :: "nat \<Rightarrow> queue_shm \<Rightarrow> queue_shm" where
  "queue_delete_output i s =
     (let s1 = upd_elem i (\<lambda>e. e\<lparr>output_fn_args_event := 0\<rparr>) s
      in s1\<lparr>output_queue_idx_free := (output_queue_idx_free s1)[unat (output_idx (queue_elem s1 i)) := True],
            output_queue_count := output_queue_count s1 - 1\<rparr>)"

definition queue_delete_end :: "queue_env \<Rightarrow> nat \<Rightarrow> queue_shm \<Rightarrow> em_status_t \<times> queue_shm" where
  "queue_delete_end env i s =
     (let q = queue_hdl s i; e = queue_elem s i
      in if odp_queue e \<noteq> 0 \<and> \<not> is_pktin e \<and> env_odp_queue_destroy env (odp_queue e) \<noteq> 0 then (EM_ERR_LIB_FAILED, s)
         else
         let s1 = upd_elem i (\<lambda>e. e\<lparr>odp_queue := 0\<rparr>) s;
             s2 = (if has_aggr (queue_elem s1 i) then snd (queue_free_aggr_all i s1) else s1);
             s3 = s2\<lparr>queue_names := (queue_names s2)(i := [])\<rparr>
         in queue_free q (atomic_group_remove_queue i s3))"

definition queue_delete :: "queue_env \<Rightarrow> nat \<Rightarrow> queue_shm \<Rightarrow> em_status_t \<times> queue_shm" where
  "queue_delete env i s =
     (let e = queue_elem s i; t = q_type e
      in if \<not> queue_allocated s i then (EM_ERR_BAD_STATE, s)
         else if t = EM_QUEUE_TYPE_AGGR then (EM_ERR_NOT_SUPPORTED, s)
         else
         let ret = queue_state_change__check (q_state e) EM_QUEUE_STATE_INVALID False
         in if t \<notin> {EM_QUEUE_TYPE_UNSCHEDULED, EM_QUEUE_TYPE_OUTPUT} \<and> ret \<noteq> EM_OK then (ret, s)
         else if t \<notin> {EM_QUEUE_TYPE_UNSCHEDULED, EM_QUEUE_TYPE_LOCAL, EM_QUEUE_TYPE_OUTPUT}
         then (if \<not> env_qgrp_elem env (q_queue_group e) \<or> \<not> env_qgrp_allocated env (q_queue_group e) then (EM_ERR_BAD_ID, s)
               else queue_delete_end env i (queue_group_rem_queue_list (q_queue_group e) i s))
         else queue_delete_end env i (if t = EM_QUEUE_TYPE_OUTPUT then queue_delete_output i s else s))"

section \<open>The state of a queue\<close>

definition propagate_state :: "nat \<Rightarrow> queue_state_t \<Rightarrow> queue_shm \<Rightarrow> queue_shm" where
  "propagate_state i new_state s =
     fold (\<lambda>q s. case get_elem s (ucast q) of None \<Rightarrow> s | Some a \<Rightarrow> upd_elem a (\<lambda>e. e\<lparr>q_state := new_state\<rparr>) s)
       (aggr_queues (queue_elem s i)) s"

definition queue_state_set :: "nat \<Rightarrow> queue_state_t \<Rightarrow> queue_shm \<Rightarrow> em_status_t \<times> queue_shm" where
  "queue_state_set i new_state s =
     (let old_state = q_state (queue_elem s i); is_setup = (new_state = EM_QUEUE_STATE_READY)
      in if new_state = old_state \<and> (new_state = EM_QUEUE_STATE_READY \<or> new_state = EM_QUEUE_STATE_BIND) then (EM_OK, s)
         else
         let err = queue_state_change__check old_state new_state is_setup
         in if err \<noteq> EM_OK then (err, s)
            else let s1 = upd_elem i (\<lambda>e. e\<lparr>q_state := new_state\<rparr>) s
                 in (EM_OK, if has_aggr (queue_elem s1 i) then propagate_state i new_state s1 else s1))"

definition queue_state_change :: "nat \<Rightarrow> queue_state_t \<Rightarrow> queue_shm \<Rightarrow> em_status_t reported \<times> queue_shm" where
  "queue_state_change i new_state s =
     (case queue_state_set i new_state s of
        (err, s1) \<Rightarrow> if err \<noteq> EM_OK then (Inl (err, ''EM_ESCOPE_QUEUE_STATE_CHANGE''), s1) else (Inr EM_OK, s1))"

text \<open>The loop over the queues of an EO stops at the first that fails.\<close>

fun queue_state_loop :: "nat list \<Rightarrow> queue_state_t \<Rightarrow> queue_shm \<Rightarrow> em_status_t \<times> queue_shm" where
  "queue_state_loop [] new_state s = (EM_OK, s)"
| "queue_state_loop (i # is) new_state s =
     (case queue_state_set i new_state s of
        (err, s1) \<Rightarrow> if err \<noteq> EM_OK then (err, s1) else queue_state_loop is new_state s1)"

definition queue_state_change_all :: "nat list \<Rightarrow> queue_state_t \<Rightarrow> queue_shm \<Rightarrow> em_status_t reported \<times> queue_shm" where
  "queue_state_change_all queue_list new_state s =
     (case queue_state_loop queue_list new_state s of
        (err, s1) \<Rightarrow> if err \<noteq> EM_OK then (Inl (err, ''EM_ESCOPE_QUEUE_STATE_CHANGE''), s1) else (Inr EM_OK, s1))"

text \<open>An error of \<^verbatim>\<open>queue_state_change\<close> is reported a second time, with the caller's scope, by \<^verbatim>\<open>rescope\<close>.\<close>

definition rescope :: "em_escope_t \<Rightarrow> em_status_t reported \<times> queue_shm \<Rightarrow> em_status_t reported \<times> queue_shm" where
  "rescope sc r = (let ret = status_of (fst r) in (if ret \<noteq> EM_OK then Inl (ret, sc) else Inr EM_OK, snd r))"

definition queue_enable :: "nat option \<Rightarrow> queue_shm \<Rightarrow> em_status_t reported \<times> queue_shm" where
  "queue_enable q s =
     (case q of
        None \<Rightarrow> (Inl (EM_ERR_BAD_ID, ''EM_ESCOPE_QUEUE_ENABLE''), s)
      | Some i \<Rightarrow>
          if \<not> queue_allocated s i then (Inl (EM_ERR_BAD_ID, ''EM_ESCOPE_QUEUE_ENABLE''), s)
          else rescope ''EM_ESCOPE_QUEUE_ENABLE'' (queue_state_change i EM_QUEUE_STATE_READY s))"

definition queue_disable :: "nat option \<Rightarrow> queue_shm \<Rightarrow> em_status_t reported \<times> queue_shm" where
  "queue_disable q s =
     (case q of
        None \<Rightarrow> (Inl (EM_ERR_BAD_ID, ''EM_ESCOPE_QUEUE_DISABLE''), s)
      | Some i \<Rightarrow>
          if \<not> queue_allocated s i then (Inl (EM_ERR_BAD_ID, ''EM_ESCOPE_QUEUE_DISABLE''), s)
          else rescope ''EM_ESCOPE_QUEUE_DISABLE'' (queue_state_change i EM_QUEUE_STATE_BIND s))"

text \<open>An EO is the list of its queues, None when it is NULL or not allocated.\<close>

definition queue_enable_all :: "nat list option \<Rightarrow> queue_shm \<Rightarrow> em_status_t reported \<times> queue_shm" where
  "queue_enable_all eo s =
     (case eo of
        None \<Rightarrow> (Inl (EM_ERR_BAD_ID, ''EM_ESCOPE_QUEUE_ENABLE_ALL''), s)
      | Some qs \<Rightarrow> rescope ''EM_ESCOPE_QUEUE_ENABLE_ALL'' (queue_state_change_all qs EM_QUEUE_STATE_READY s))"

definition queue_disable_all :: "nat list option \<Rightarrow> queue_shm \<Rightarrow> em_status_t reported \<times> queue_shm" where
  "queue_disable_all eo s =
     (case eo of
        None \<Rightarrow> (Inl (EM_ERR_BAD_ID, ''EM_ESCOPE_QUEUE_DISABLE_ALL''), s)
      | Some qs \<Rightarrow> rescope ''EM_ESCOPE_QUEUE_DISABLE_ALL'' (queue_state_change_all qs EM_QUEUE_STATE_BIND s))"

end
