(* ===== verification/QueueProofs.thy ===== *)
theory QueueProofs
  imports Queue
begin

text \<open>
  What creating and deleting a queue does to the pools of free queues and to the lists: facts on each
  part of \<^verbatim>\<open>queue_setup\<close> and \<^verbatim>\<open>queue_delete\<close> (\<^verbatim>\<open>em_queue.c\<close>).
\<close>

section \<open>What stays the same\<close>

definition mem_same :: "queue_shm \<Rightarrow> queue_shm \<Rightarrow> bool" where
  "mem_same s s' \<longleftrightarrow> queue_frame s s' \<and> qs_mem s' = qs_mem s \<and> queue_count s' = queue_count s"

definition lists_same :: "queue_shm \<Rightarrow> queue_shm \<Rightarrow> bool" where
  "lists_same s s' \<longleftrightarrow>
     qgrp_queues s' = qgrp_queues s \<and> qgrp_num_queues s' = qgrp_num_queues s \<and> agrp_queues s' = agrp_queues s \<and>
     agrp_num_queues s' = agrp_num_queues s \<and> agrp_hi_prio s' = agrp_hi_prio s"

definition out_same :: "queue_shm \<Rightarrow> queue_shm \<Rightarrow> bool" where
  "out_same s s' \<longleftrightarrow>
     output_queue_count s' = output_queue_count s \<and> output_queue_idx_free s' = output_queue_idx_free s"

lemmas same_defs = mem_same_def lists_same_def out_same_def queue_frame_def

lemma same_refl [simp]: "mem_same s s" "lists_same s s" "out_same s s" "queue_frame s s"
  by (simp_all add: same_defs)

lemma same_trans:
  "mem_same a b \<Longrightarrow> mem_same b c \<Longrightarrow> mem_same a c" "lists_same a b \<Longrightarrow> lists_same b c \<Longrightarrow> lists_same a c"
  "out_same a b \<Longrightarrow> out_same b c \<Longrightarrow> out_same a c" "queue_frame a b \<Longrightarrow> queue_frame b c \<Longrightarrow> queue_frame a c"
  by (simp_all add: same_defs)

lemma mem_same_rep: "mem_same s s' \<Longrightarrow> queue_rep FS FD FA s \<Longrightarrow> queue_rep FS FD FA s'"
  using frame_tbl_ok [of s s'] qe_frame [of s s'] by (simp add: queue_rep_def mem_same_def queue_frame_def)

lemma mem_same_frame: "mem_same s s' \<Longrightarrow> queue_frame s s'"
  by (simp add: mem_same_def)

lemma upd_elem_same:
  assumes "\<And>e. q_queue (f e) = q_queue e"
  shows "mem_same s (upd_elem i f s)" "lists_same s (upd_elem i f s)" "out_same s (upd_elem i f s)"
  using assms by (simp_all add: same_defs upd_elem_def)

lemma queue_upd_sel [simp]:
  "queue_elem (upd_elem i f s) = (queue_elem s)(i := f (queue_elem s i))"
  "qs_mem (upd_elem i f s) = qs_mem s" "queue_names (upd_elem i f s) = queue_names s"
  "qs_opt (upd_elem i f s) = qs_opt s" "qs_device_id (upd_elem i f s) = qs_device_id s"
  "max_queue_num (upd_elem i f s) = max_queue_num s" "queue_count (upd_elem i f s) = queue_count s"
  "output_queue_count (upd_elem i f s) = output_queue_count s"
  "output_queue_idx_free (upd_elem i f s) = output_queue_idx_free s"
  "qgrp_queues (upd_elem i f s) = qgrp_queues s" "qgrp_num_queues (upd_elem i f s) = qgrp_num_queues s"
  "agrp_queues (upd_elem i f s) = agrp_queues s" "agrp_num_queues (upd_elem i f s) = agrp_num_queues s"
  "agrp_hi_prio (upd_elem i f s) = agrp_hi_prio s" "qs_ids (upd_elem i f s) = qs_ids s"
  "qs_base (upd_elem i f s) = qs_base s" "queue_pool (upd_elem i f s) = queue_pool s"
  "queue_pool_static (upd_elem i f s) = queue_pool_static s" "queue_pool_aggr (upd_elem i f s) = queue_pool_aggr s"
  by (simp_all add: upd_elem_def)

lemma frame_get_elem: "queue_frame s s' \<Longrightarrow> get_elem s' q = get_elem s q"
  by (simp add: get_elem_def queue_frame_def)

lemma frame_hdl: "queue_frame s s' \<Longrightarrow> queue_hdl s' i = queue_hdl s i"
  by (simp add: queue_hdl_def queue_frame_def)

section \<open>Aggregator queues\<close>

text \<open>Only elements of \<^verbatim>\<open>A\<close> change, apart from the pools.\<close>

definition only_elems :: "nat set \<Rightarrow> queue_shm \<Rightarrow> queue_shm \<Rightarrow> bool" where
  "only_elems A s s' \<longleftrightarrow> queue_frame s s' \<and> lists_same s s' \<and> out_same s s' \<and>
     (\<forall>j. j \<notin> A \<longrightarrow> queue_elem s' j = queue_elem s j)"

lemma only_elems_refl [simp]: "only_elems A s s"
  by (simp add: only_elems_def)

lemma only_elems_trans: "only_elems A a b \<Longrightarrow> only_elems A b c \<Longrightarrow> only_elems A a c"
  by (auto simp: only_elems_def intro: same_trans)

lemma only_elems_mono: "only_elems A s s' \<Longrightarrow> A \<subseteq> B \<Longrightarrow> only_elems B s s'"
  by (auto simp: only_elems_def)

lemma only_elems_frame: "only_elems A s s' \<Longrightarrow> queue_frame s s'"
  by (simp add: only_elems_def)

lemma only_elems_upd: "i \<in> A \<Longrightarrow> (\<And>e. q_queue (f e) = q_queue e) \<Longrightarrow> only_elems A s (upd_elem i f s)"
  using upd_elem_same [of f s i] by (auto simp: only_elems_def mem_same_def)

lemma queue_aggr_free_only: "i \<in> A \<Longrightarrow> only_elems A s (queue_aggr_free i s)"
  by (auto simp: only_elems_def queue_aggr_free_def Let_def same_defs)

lemma queue_aggr_alloc_only: "queue_aggr_alloc thr s = (Inl e, s') \<Longrightarrow> only_elems A s s'"
    "queue_aggr_alloc thr s = (Inr q, s') \<Longrightarrow> only_elems A s s'"
  by (auto simp: queue_aggr_alloc_def only_elems_def same_defs Let_def split: prod.splits option.splits)

lemma fold_aggr_free:
  assumes "queue_rep FS FD (FA - set got) s" "set got \<subseteq> FA" "distinct got" "FA \<subseteq> aggr_idx (qs_opt s)"
  shows "queue_rep FS FD FA (fold queue_aggr_free got s) \<and> only_elems FA s (fold queue_aggr_free got s)"
  using assms
proof (induction got arbitrary: s)
  case (Cons a got)
  have a: "a \<in> aggr_idx (qs_opt s)" "a \<notin> FA - set (a # got)" "a \<in> FA" using Cons.prems(2,4) by auto
  have eq: "insert a (FA - set (a # got)) = FA - set got" using Cons.prems(2,3) by auto
  have f: "queue_frame s (queue_aggr_free a s)" "queue_rep FS FD (FA - set got) (queue_aggr_free a s)"
    using queue_aggr_free_rep [OF Cons.prems(1) a(1,2)] unfolding eq by blast+
  then have "qs_opt (queue_aggr_free a s) = qs_opt s" by (simp add: queue_frame_def)
  then show ?case
    using Cons.IH [OF f(2)] Cons.prems(2-4) queue_aggr_free_only [OF a(3), of s] by (auto intro: only_elems_trans)
qed simp

lemma aggr_alloc_loop_rep:
  assumes "queue_rep FS FD (FA - set got) s" "set got \<subseteq> FA" "distinct got" "FA \<subseteq> aggr_idx (qs_opt s)"
    "aggr_alloc_loop thr n got s = (r, s')"
  shows "case r of
      None \<Rightarrow> queue_rep FS FD FA s' \<and> only_elems FA s s'
    | Some as \<Rightarrow> queue_rep FS FD (FA - set as) s' \<and> only_elems {} s s' \<and> length as = length got + n \<and> distinct as \<and> set as \<subseteq> FA"
  using assms
proof (induction thr n got s rule: aggr_alloc_loop.induct)
  case (2 thr n got s)
  note r = 2(2) and fa = 2(5)
  have free: "queue_rep FS FD FA (fold queue_aggr_free got t) \<and> only_elems FA s (fold queue_aggr_free got t)"
    if "queue_rep FS FD (FA - set got) t" "only_elems FA s t" for t
    using fold_aggr_free [OF that(1) 2(3,4)] that(2) fa
    by (metis only_elems_frame only_elems_trans queue_frame_def)
  note al = queue_aggr_alloc_rep [OF r, of thr]
  show ?case
  proof (cases "FA - set got = {}")
    case True
    then obtain e where "queue_aggr_alloc thr s = (Inl e, s)" using al by auto
    then show ?thesis using 2(6) free [OF r] by auto
  next
    case False
    then obtain i t where i: "i \<in> FA" "i \<notin> set got" "queue_aggr_alloc thr s = (Inr (queue_idx2hdl (qs_device_id s) (int i)), t)"
      "queue_frame s t" "queue_rep FS FD (FA - set got - {i}) t"
      using al by auto
    have opt: "qs_opt t = qs_opt s" "qs_device_id t = qs_device_id s" "max_queue_num t = max_queue_num s"
      using i(4) by (simp_all add: queue_frame_def)
    have lt: "i < unat (max_queue_num s)" using idx_lt(3) [OF queue_repD(2) [OF r]] i(1) fa by blast
    have g: "get_elem t (queue_idx2hdl (qs_device_id s) (int i)) = Some i" using get_elem_hdl [of i t] lt opt by simp
    have eq: "FA - set got - {i} = FA - set (got @ [i])" by auto
    have IH: "case r of None \<Rightarrow> queue_rep FS FD FA s' \<and> only_elems FA t s'
      | Some as \<Rightarrow> queue_rep FS FD (FA - set as) s' \<and> only_elems {} t s' \<and> length as = length (got @ [i]) + n \<and>
          distinct as \<and> set as \<subseteq> FA"
      by (rule 2(1) [OF i(3) [symmetric] refl g]) (use i(1,2) i(5) [unfolded eq] 2(3,4,6) i(3) g opt fa in simp_all)
    then show ?thesis
      using queue_aggr_alloc_only(2) [OF i(3)] by (auto split: option.splits intro: only_elems_trans)
  qed
qed auto

text \<open>The third loop: every allocated element becomes a child of \<^verbatim>\<open>i\<close>.\<close>

definition aggr_child :: "queue_shm \<Rightarrow> nat \<Rightarrow> em_queue_aggr_conf \<Rightarrow> nat \<Rightarrow> nat \<Rightarrow> bool" where
  "aggr_child s i c oq a \<longleftrightarrow>
     (let e = queue_elem s a; p = queue_elem s i
      in q_type e = EM_QUEUE_TYPE_AGGR \<and> valid_check e = QUEUE_ELEM_VALID \<and> odp_queue e = oq \<and> parent_queue e = queue_hdl s i \<and>
         q_state e = q_state p \<and> scheduled e = scheduled p \<and> aggr_pool e = ac_pool c \<and> aggr_max_tmo_ns e = ac_max_tmo_ns c \<and>
         aggr_max_size e = ac_max_size c \<and> aggr_event_type e = ac_event_type c \<and> q_queue_group e = 0 \<and> q_eo e = 0 \<and>
         \<not> has_aggr e)"

lemma setup_aggr_elem_same:
  assumes "a \<noteq> i"
  shows "mem_same s (setup_aggr_elem i k c oq a s)" "only_elems {a} s (setup_aggr_elem i k c oq a s)"
    "aggr_child (setup_aggr_elem i k c oq a s) i c oq a"
  using assms by (auto simp: setup_aggr_elem_def Let_def same_defs only_elems_def aggr_child_def queue_hdl_def)

lemma aggr_child_other: "only_elems A s s' \<Longrightarrow> a \<notin> A \<Longrightarrow> i \<notin> A \<Longrightarrow> aggr_child s' i c oq a = aggr_child s i c oq a"
  by (simp add: aggr_child_def only_elems_def Let_def queue_hdl_def)

lemma setup_aggr_loop_rep:
  assumes "length cs = length as" "length oqs = length as" "distinct as" "i \<notin> set as"
  shows "mem_same s (setup_aggr_loop i k cs oqs as s) \<and> only_elems (set as) s (setup_aggr_loop i k cs oqs as s) \<and>
    (\<forall>m < length as. aggr_child (setup_aggr_loop i k cs oqs as s) i (cs ! m) (oqs ! m) (as ! m))"
  using assms
proof (induction cs arbitrary: k oqs as s)
  case (Cons c cs k oqs' as' s)
  obtain oq oqs a as where l: "oqs' = oq # oqs" "as' = a # as"
    using Cons.prems(1,2) by (metis length_Suc_conv)
  note 1 = Cons.prems [unfolded l]
  let ?s = "setup_aggr_elem i k c oq a s"
  have ne: "a \<noteq> i" "a \<notin> set as" "i \<notin> set as" using 1(3,4) by auto
  note one = setup_aggr_elem_same [OF ne(1), where s = s and k = k and c = c and oq = oq]
  have IH: "mem_same ?s (setup_aggr_loop i (Suc k) cs oqs as ?s) \<and> only_elems (set as) ?s (setup_aggr_loop i (Suc k) cs oqs as ?s) \<and>
    (\<forall>m < length as. aggr_child (setup_aggr_loop i (Suc k) cs oqs as ?s) i (cs ! m) (oqs ! m) (as ! m))"
    by (rule Cons.IH) (use 1 in simp_all)
  have "aggr_child (setup_aggr_loop i (Suc k) cs oqs as ?s) i c oq a"
    using aggr_child_other [of "set as" ?s "setup_aggr_loop i (Suc k) cs oqs as ?s" a i c oq] IH ne(2,3) one(3) by simp
  moreover have "only_elems (set (a # as)) s (setup_aggr_loop i (Suc k) cs oqs as ?s)"
    by (rule only_elems_trans [of _ _ ?s]) (use one(2) IH in \<open>auto intro: only_elems_mono\<close>)
  ultimately show ?case unfolding l using one(1) IH by (auto simp: nth_Cons split: nat.splits intro: same_trans)
qed auto

lemma queue_setup_aggr_rep:
  assumes r: "queue_rep FS FD FA s" and i: "i \<notin> FA" and q: "queue_setup_aggr env i confs s = (r, s')"
  shows "case r of
      Some e \<Rightarrow> queue_rep FS FD FA s' \<and> only_elems FA s s'
    | None \<Rightarrow> \<exists>as. distinct as \<and> set as \<subseteq> FA \<and> length as = length confs \<and> queue_rep FS FD (FA - set as) s' \<and>
        only_elems (insert i (set as)) s s' \<and>
        queue_elem s' i = (queue_elem s i)\<lparr>has_aggr := True, aggr_queues := map (\<lambda>a. q_queue (queue_elem s' a)) as\<rparr> \<and>
        (\<forall>m < length as. aggr_child s' i (confs ! m) (env_odp_queue_aggr env (odp_queue (queue_elem s i)) m) (as ! m))"
proof (cases "0 \<in> set (map (env_odp_queue_aggr env (odp_queue (queue_elem s i))) [0..<length confs])")
  case True
  then show ?thesis using q r by (auto simp: queue_setup_aggr_def Let_def)
next
  case False
  have fa: "FA \<subseteq> aggr_idx (qs_opt s)" by (rule queue_repD(5) [OF r])
  obtain x s1 where x: "aggr_alloc_loop (env_thr env) (length confs) [] s = (x, s1)" by (rule prod.exhaust)
  have "queue_rep FS FD (FA - set []) s" using r by simp
  note al = aggr_alloc_loop_rep [OF this _ _ fa x, simplified]
  show ?thesis
  proof (cases x)
    case None
    have "(r, s') = (Some ''Q-setup-aggr: failed to allocate aggregator queue!'', s1)"
      unfolding q [symmetric] queue_setup_aggr_def Let_def x None by (simp only: False if_False option.case prod.case)
    then show ?thesis using al None by simp
  next
    case (Some as)
    let ?oqs = "map (env_odp_queue_aggr env (odp_queue (queue_elem s i))) [0..<length confs]"
    let ?s2 = "upd_elem i (\<lambda>e. e\<lparr>has_aggr := True\<rparr>) s1"
    let ?s3 = "setup_aggr_loop i 0 confs ?oqs as ?s2"
    let ?f = "\<lambda>e. e\<lparr>aggr_queues := map (\<lambda>a. q_queue (queue_elem ?s3 a)) as\<rparr>"
    have s': "r = None" "s' = upd_elem i ?f ?s3"
      using q unfolding queue_setup_aggr_def Let_def x Some by (simp_all only: False if_False option.case prod.case prod.inject)
    have a: "queue_rep FS FD (FA - set as) s1" "only_elems {} s s1" "length as = length confs" "distinct as" "set as \<subseteq> FA"
      using al Some by simp_all
    have ni: "i \<notin> set as" using i a(5) by blast
    have lp: "mem_same ?s2 ?s3" "only_elems (set as) ?s2 ?s3"
      "\<forall>m < length as. aggr_child ?s3 i (confs ! m) (?oqs ! m) (as ! m)"
      using setup_aggr_loop_rep [of confs as ?oqs i ?s2 0] a(3,4) ni by simp_all
    have u2: "mem_same s1 ?s2" "only_elems {i} s1 ?s2" by (rule upd_elem_same(1), simp) (rule only_elems_upd, simp_all)
    have u3: "mem_same ?s3 s'" "only_elems {i} ?s3 s'" unfolding s'(2)
      by (rule upd_elem_same(1), simp) (rule only_elems_upd, simp_all)
    have rep: "queue_rep FS FD (FA - set as) s'"
      by (rule mem_same_rep [OF u3(1) mem_same_rep [OF lp(1) mem_same_rep [OF u2(1) a(1)]]])
    have only: "only_elems (insert i (set as)) s s'"
      by (rule only_elems_trans [OF only_elems_mono [OF a(2)] only_elems_trans [OF only_elems_mono [OF u2(2)]
            only_elems_trans [OF only_elems_mono [OF lp(2)] only_elems_mono [OF u3(2)]]]]) auto
    have ei: "queue_elem ?s3 i = (queue_elem s i)\<lparr>has_aggr := True\<rparr>"
      using lp(2) a(2) ni by (simp add: only_elems_def)
    have ch: "aggr_child s' i c oq b = aggr_child ?s3 i c oq b" if "b \<noteq> i" for c oq b
      using that unfolding s'(2) by (simp add: aggr_child_def Let_def queue_hdl_def)
    have chl: "\<forall>m < length as. aggr_child s' i (confs ! m) (env_odp_queue_aggr env (odp_queue (queue_elem s i)) m) (as ! m)"
    proof (intro allI impI)
      fix m
      assume m: "m < length as"
      then have "as ! m \<noteq> i" using ni nth_mem [OF m] by metis
      moreover have "?oqs ! m = env_odp_queue_aggr env (odp_queue (queue_elem s i)) m" using m a(3) by simp
      ultimately show "aggr_child s' i (confs ! m) (env_odp_queue_aggr env (odp_queue (queue_elem s i)) m) (as ! m)"
        using lp(3) ch m by metis
    qed
    have el: "queue_elem s' i = (queue_elem s i)\<lparr>has_aggr := True, aggr_queues := map (\<lambda>a. q_queue (queue_elem s' a)) as\<rparr>"
    proof -
      have qq: "map (\<lambda>a. q_queue (queue_elem ?s3 a)) as = map (\<lambda>a. q_queue (queue_elem s' a)) as"
        using u3(1) by (simp add: mem_same_def queue_frame_def)
      have "queue_elem s' i = ?f (queue_elem ?s3 i)" unfolding s'(2) by (simp only: queue_upd_sel fun_upd_same)
      then show ?thesis unfolding qq ei .
    qed
    show ?thesis unfolding s'(1) option.case
      by (rule exI [of _ as], intro conjI) (rule a(4), rule a(5), rule a(3), rule rep, rule only, rule el, rule chl)
  qed
qed

text \<open>What a successful setup of the ODP queue of element \<^verbatim>\<open>i\<close> and its aggregator queues \<^verbatim>\<open>as\<close> leaves.\<close>

definition odp_queue_ready :: "queue_env \<Rightarrow> em_queue_aggr_conf list \<Rightarrow> nat \<Rightarrow> nat list \<Rightarrow> queue_shm \<Rightarrow> bool" where
  "odp_queue_ready env confs i as s \<longleftrightarrow>
     (let e = queue_elem s i
      in odp_queue e \<noteq> 0 \<and> has_aggr e = (as \<noteq> []) \<and> aggr_queues e = map (\<lambda>a. q_queue (queue_elem s a)) as \<and>
         length as = length confs \<and>
         (\<forall>m < length as. aggr_child s i (confs ! m) (env_odp_queue_aggr env (odp_queue e) m) (as ! m)))"

lemma setup_odp_queue_rep:
  assumes r: "queue_rep FS FD FA s" and i: "i \<notin> FA" and new: "\<not> has_aggr (queue_elem s i)" "aggr_queues (queue_elem s i) = []"
    and q: "setup_odp_queue env param ce i op s = (r, s')"
  shows "case r of
      Some e \<Rightarrow> queue_rep FS FD FA s' \<and> only_elems (insert i FA) s s'
    | None \<Rightarrow> \<exists>as. distinct as \<and> set as \<subseteq> FA \<and> queue_rep FS FD (FA - set as) s' \<and> only_elems (insert i (set as)) s s' \<and>
        odp_queue_ready env (aggr_confs param) i as s' \<and>
        (\<exists>oq h aq. queue_elem s' i = (queue_elem s i)\<lparr>odp_queue := oq, has_aggr := h, aggr_queues := aq\<rparr>)"
proof (cases "queue_setup_odp_aggr env (aggr_confs param)")
  case (Inl e)
  then show ?thesis using q r by (auto simp: setup_odp_queue_def Let_def)
next
  case (Inr oas)
  define oq where "oq = env_odp_queue_create env (queue_names s i) (op\<lparr>op_aggr := oas\<rparr>)"
  let ?s1 = "upd_elem i (\<lambda>e. e\<lparr>odp_queue := oq\<rparr>) s"
  have u: "mem_same s ?s1" "only_elems {i} s ?s1"
    by (rule upd_elem_same(1), simp) (rule only_elems_upd, simp_all)
  note r1 = mem_same_rep [OF u(1) r]
  have same: "queue_elem s i = (queue_elem s i)\<lparr>has_aggr := False, aggr_queues := []\<rparr>" using new by simp
  consider "oq = 0" | "oq \<noteq> 0" "aggr_confs param = []" | "oq \<noteq> 0" "aggr_confs param \<noteq> []" by blast
  then show ?thesis
  proof cases
    case 1
    then show ?thesis using q r Inr by (auto simp: setup_odp_queue_def Let_def create_odp_queue_def oq_def)
  next
    case 2
    then have s': "r = None" "s' = ?s1" using q Inr by (auto simp: setup_odp_queue_def Let_def create_odp_queue_def oq_def)
    have "queue_elem s' i = (queue_elem s i)\<lparr>odp_queue := oq, has_aggr := False, aggr_queues := []\<rparr>"
      using new unfolding s'(2) by simp
    moreover have "odp_queue_ready env (aggr_confs param) i [] s'" using new 2 unfolding s'(2) by (simp add: odp_queue_ready_def)
    ultimately show ?thesis using s' r1 u(2)
      by (simp only: option.case) (rule exI [of _ "[]"], simp, blast)
  next
    case 3
    obtain x s2 where x: "queue_setup_aggr env i (aggr_confs param) ?s1 = (x, s2)" by (rule prod.exhaust)
    note a = queue_setup_aggr_rep [OF r1 i x]
    show ?thesis
    proof (cases x)
      case (Some e)
      have s': "r = Some e" "s' = upd_elem i (\<lambda>q. q\<lparr>odp_queue := 0\<rparr>) s2"
        using q Inr 3 x Some by (auto simp: setup_odp_queue_def Let_def create_odp_queue_def oq_def)
      have "queue_rep FS FD FA s2" "only_elems FA ?s1 s2" using a Some by simp_all
      moreover have v: "mem_same s2 s'" "only_elems {i} s2 s'" unfolding s'(2)
        by (rule upd_elem_same(1), simp) (rule only_elems_upd, simp_all)
      ultimately have "queue_rep FS FD FA s'" "only_elems (insert i FA) s s'"
        using mem_same_rep u(2) by (blast, meson empty_subsetI insert_mono only_elems_mono only_elems_trans subset_insertI)
      then show ?thesis using s'(1) by simp
    next
      case None
      have s': "r = None" "s' = s2" using q Inr 3 x None by (auto simp: setup_odp_queue_def Let_def create_odp_queue_def oq_def)
      from a None obtain as where as: "distinct as" "set as \<subseteq> FA" "length as = length (aggr_confs param)"
        "queue_rep FS FD (FA - set as) s2" "only_elems (insert i (set as)) ?s1 s2"
        "queue_elem s2 i = (queue_elem ?s1 i)\<lparr>has_aggr := True, aggr_queues := map (\<lambda>a. q_queue (queue_elem s2 a)) as\<rparr>"
        "\<forall>m < length as. aggr_child s2 i (aggr_confs param ! m) (env_odp_queue_aggr env (odp_queue (queue_elem ?s1 i)) m) (as ! m)"
        by auto
      have "as \<noteq> []" using as(3) 3(2) by auto
      then have "odp_queue_ready env (aggr_confs param) i as s'"
        using as(3,6,7) 3(1) unfolding s'(2) by (simp add: odp_queue_ready_def)
      moreover have "only_elems (insert i (set as)) s s'" unfolding s'(2)
        by (rule only_elems_trans [OF only_elems_mono [OF u(2)] as(5)]) simp
      moreover have "queue_elem s' i = (queue_elem s i)\<lparr>odp_queue := oq, has_aggr := True, aggr_queues := map (\<lambda>a. q_queue (queue_elem s2 a)) as\<rparr>"
        using as(6) unfolding s'(2) by simp
      ultimately show ?thesis using as(1,2,4) s' by (simp only: option.case) blast
    qed
  qed
qed

section \<open>Setting a queue up\<close>

definition sched_types :: "em_queue_type_t set" where
  "sched_types = {EM_QUEUE_TYPE_ATOMIC, EM_QUEUE_TYPE_PARALLEL, EM_QUEUE_TYPE_ORDERED}"

text \<open>Element \<^verbatim>\<open>i\<close> is a new queue as \<^verbatim>\<open>param\<close> asks for, with the aggregator queues \<^verbatim>\<open>as\<close>.\<close>

definition queue_ready :: "queue_env \<Rightarrow> em_queue_param \<Rightarrow> nat \<Rightarrow> nat list \<Rightarrow> queue_shm \<Rightarrow> bool" where
  "queue_ready env param i as s \<longleftrightarrow>
     (let e = queue_elem s i; t = qp_type param; sched = (t \<in> sched_types)
      in valid_check e = QUEUE_ELEM_VALID \<and> q_type e = t \<and> scheduled e = sched \<and> \<not> is_pktin e \<and>
         q_state e = (if sched \<or> t = EM_QUEUE_TYPE_LOCAL then EM_QUEUE_STATE_INIT else EM_QUEUE_STATE_UNSCHEDULED) \<and>
         q_queue_group e = (if sched then qp_queue_group param else 0) \<and>
         q_priority e = (if sched \<or> t = EM_QUEUE_TYPE_LOCAL then ucast (qp_prio param) else 0xFF) \<and>
         in_atomic_group e = (qp_atomic_group param \<noteq> 0) \<and> q_atomic_group e = qp_atomic_group param \<and>
         q_eo e = 0 \<and> q_context e = 0 \<and> receive_func e = 0 \<and>
         (if t = EM_QUEUE_TYPE_LOCAL then as = [] \<and> \<not> has_aggr e \<and> aggr_queues e = [] \<and> odp_queue e = 0
          else if t = EM_QUEUE_TYPE_OUTPUT then as = [] \<and> \<not> has_aggr e \<and> aggr_queues e = [] \<and> odp_queue e \<noteq> 0 \<and> output_fn e = qp_output_fn param
          else odp_queue_ready env (aggr_confs param) i as s))"

text \<open>
  A scheduled queue is the last of its queue group, which counts it; an output queue is counted; nothing
  else is listed.
\<close>

definition listed :: "em_queue_param \<Rightarrow> nat \<Rightarrow> queue_shm \<Rightarrow> queue_shm \<Rightarrow> bool" where
  "listed param i s s' \<longleftrightarrow>
     (let g = qp_queue_group param
      in if qp_type param \<in> sched_types
         then qgrp_queues s' = (qgrp_queues s)(g := qgrp_queues s g @ [i]) \<and>
              qgrp_num_queues s' = (qgrp_num_queues s)(g := qgrp_num_queues s g + 1)
         else qgrp_queues s' = qgrp_queues s \<and> qgrp_num_queues s' = qgrp_num_queues s) \<and>
     agrp_queues s' = agrp_queues s \<and> agrp_num_queues s' = agrp_num_queues s \<and> agrp_hi_prio s' = agrp_hi_prio s \<and>
     output_queue_count s' = (if qp_type param = EM_QUEUE_TYPE_OUTPUT then output_queue_count s + 1 else output_queue_count s)"

definition elems_only :: "nat set \<Rightarrow> queue_shm \<Rightarrow> queue_shm \<Rightarrow> bool" where
  "elems_only A s s' \<longleftrightarrow> queue_frame s s' \<and> (\<forall>j. j \<notin> A \<longrightarrow> queue_elem s' j = queue_elem s j)"

lemma elems_only_trans: "elems_only A a b \<Longrightarrow> elems_only A b c \<Longrightarrow> elems_only A a c"
  by (auto simp: elems_only_def intro: same_trans)

lemma only_elems_elems: "only_elems A s s' \<Longrightarrow> A \<subseteq> B \<Longrightarrow> elems_only B s s'"
  by (auto simp: only_elems_def elems_only_def)

text \<open>The result of setting queue \<^verbatim>\<open>i\<close> up from \<^verbatim>\<open>s\<close>.\<close>

definition setup_result ::
  "queue_env \<Rightarrow> em_queue_param \<Rightarrow> nat \<Rightarrow> nat set \<Rightarrow> nat set \<Rightarrow> nat set \<Rightarrow> queue_shm \<Rightarrow> string option \<Rightarrow> queue_shm \<Rightarrow> bool" where
  "setup_result env param i FS FD FA s r s' \<longleftrightarrow>
     (case r of
        Some e \<Rightarrow> queue_rep FS FD FA s' \<and> elems_only (insert i FA) s s' \<and> lists_same s s' \<and>
          output_queue_count s' = output_queue_count s
      | None \<Rightarrow> \<exists>as. distinct as \<and> set as \<subseteq> FA \<and> queue_rep FS FD (FA - set as) s' \<and> elems_only (insert i (set as)) s s' \<and>
          queue_ready env param i as s' \<and> listed param i s s' \<and>
          (qp_type param \<noteq> EM_QUEUE_TYPE_OUTPUT \<longrightarrow> out_same s s'))"

lemma setup_resultI_err:
  assumes "queue_rep FS FD FA s'" "only_elems (insert i FA) s s'"
  shows "setup_result env param i FS FD FA s (Some e) s'"
  using assms by (auto simp: setup_result_def only_elems_def elems_only_def out_same_def)

lemma setup_result_after:
  assumes "mem_same s0 s" "only_elems {i} s0 s" "setup_result env param i FS FD FA s r s'"
  shows "setup_result env param i FS FD FA s0 r s'"
proof -
  have l: "lists_same s0 s" "out_same s0 s" using assms(2) by (simp_all add: only_elems_def)
  have e: "elems_only (insert i A) s0 s" for A using only_elems_elems [OF assms(2)] by simp
  have o: "output_queue_count s = output_queue_count s0" using l(2) by (simp add: out_same_def)
  have li: "listed param i s s' = listed param i s0 s'" using l(1) o by (simp add: listed_def lists_same_def)
  have oo: "out_same s s' \<Longrightarrow> out_same s0 s'" by (rule same_trans(3) [OF l(2)])
  have ee: "elems_only (insert i A) s s' \<Longrightarrow> elems_only (insert i A) s0 s'" for A by (rule elems_only_trans [OF e])
  show ?thesis
  proof (cases r)
    case None
    obtain as where as: "distinct as" "set as \<subseteq> FA" "queue_rep FS FD (FA - set as) s'" "elems_only (insert i (set as)) s s'"
      "queue_ready env param i as s'" "listed param i s s'" "qp_type param \<noteq> EM_QUEUE_TYPE_OUTPUT \<longrightarrow> out_same s s'"
      using assms(3) None unfolding setup_result_def by (simp only: option.case) blast
    show ?thesis unfolding setup_result_def None option.case
      by (rule exI [of _ as], intro conjI) (use as ee [OF as(4)] li oo in simp_all)
  next
    case (Some x)
    then show ?thesis using assms(3) ee [of FA] same_trans(2) [OF l(1), of s'] o
      unfolding setup_result_def by (simp only: option.case)
  qed
qed

lemma setup_common_same:
  "mem_same s (queue_setup_common name param i s) \<and> only_elems {i} s (queue_setup_common name param i s)"
proof -
  have q: "mem_same s (set_qname i n s)" "only_elems {i} s (set_qname i n s)" for n
    by (simp_all add: set_qname_def same_defs only_elems_def)
  show ?thesis unfolding queue_setup_common_def Let_def
    by (intro conjI, rule same_trans(1) [OF q(1)], rule upd_elem_same(1), simp,
        rule only_elems_trans [OF q(2)], rule only_elems_upd, simp_all)
qed

definition fresh_elem :: "em_queue_param \<Rightarrow> queue_elem \<Rightarrow> bool" where
  "fresh_elem param e \<longleftrightarrow> valid_check e = QUEUE_ELEM_VALID \<and> \<not> scheduled e \<and>
     in_atomic_group e = (qp_atomic_group param \<noteq> 0) \<and> \<not> is_pktin e \<and> \<not> has_aggr e \<and> q_type e = qp_type param \<and>
     q_priority e = ucast (qp_prio param) \<and> q_queue_group e = qp_queue_group param \<and>
     q_atomic_group e = qp_atomic_group param \<and> odp_queue e = 0 \<and> q_context e = 0 \<and> q_eo e = 0 \<and>
     receive_func e = 0 \<and> aggr_queues e = []"

lemma setup_common_fresh: "fresh_elem param (queue_elem (queue_setup_common name param i s) i)"
  by (simp add: queue_setup_common_def Let_def set_qname_def fresh_elem_def)

lemma setup_scheduled_rep:
  assumes r: "queue_rep FS FD FA s" and i: "i \<notin> FA" and f: "fresh_elem param (queue_elem s i)"
    and t: "qp_type param \<in> sched_types" and q: "queue_setup_scheduled env param i s = (x, s')"
  shows "setup_result env param i FS FD FA s x s'"
proof -
  let ?s1 = "upd_elem i (\<lambda>e. e\<lparr>scheduled := True, q_state := EM_QUEUE_STATE_INIT\<rparr>) s"
  have u: "mem_same s ?s1" "only_elems {i} s ?s1" by (rule upd_elem_same(1), simp) (rule only_elems_upd, simp_all)
  note r1 = mem_same_rep [OF u(1) r]
  have err1: "setup_result env param i FS FD FA s (Some e) ?s1" "setup_result env param i FS FD FA s (Some e) s" for e
    using setup_resultI_err [OF r1 only_elems_mono [OF u(2)]] setup_resultI_err [OF r] by simp_all
  have new: "\<not> has_aggr (queue_elem ?s1 i)" "aggr_queues (queue_elem ?s1 i) = []" using f by (simp_all add: fresh_elem_def)
  consider (err) e where "(x, s') = (Some e, s) \<or> (x, s') = (Some e, ?s1)"
    | (run) op y s2 where "setup_odp_queue env param ''Q-setup-sched: scheduled odp queue creation failed!'' i op ?s1 = (y, s2)"
        "(x, s') = (case y of Some e \<Rightarrow> (Some e, s2) | None \<Rightarrow> (None, queue_group_add_queue_list (qp_queue_group param) i s2))"
    using q [symmetric] unfolding queue_setup_scheduled_def Let_def
    by (auto split: if_splits option.splits prod.splits simp del: queue_upd_sel)
  then show ?thesis
  proof cases
    case err
    then show ?thesis using err1 by auto
  next
    case (run op y s2)
    note sub = setup_odp_queue_rep [OF r1 i new run(1)]
    show ?thesis
    proof (cases y)
      case (Some e)
      then have "setup_result env param i FS FD FA ?s1 x s'" using sub run(2) by (simp add: setup_resultI_err)
      then show ?thesis by (rule setup_result_after [OF u])
    next
      case None
      then obtain as oq h aq where as: "distinct as" "set as \<subseteq> FA" "queue_rep FS FD (FA - set as) s2"
        "only_elems (insert i (set as)) ?s1 s2" "odp_queue_ready env (aggr_confs param) i as s2"
        "queue_elem s2 i = (queue_elem ?s1 i)\<lparr>odp_queue := oq, has_aggr := h, aggr_queues := aq\<rparr>" using sub by auto
      let ?s3 = "queue_group_add_queue_list (qp_queue_group param) i s2"
      have x: "x = None" "s' = ?s3" using run(2) None by simp_all
      have m: "mem_same s2 ?s3" "queue_elem ?s3 = queue_elem s2" "out_same s2 ?s3" "listed param i s2 ?s3"
        using t by (auto simp: queue_group_add_queue_list_def same_defs listed_def sched_types_def)
      have "queue_rep FS FD (FA - set as) s'" unfolding x by (rule mem_same_rep [OF m(1) as(3)])
      moreover have "elems_only (insert i (set as)) ?s1 s'"
        using as(4) m(1,2) same_trans(4) unfolding x only_elems_def elems_only_def mem_same_def by metis
      moreover have "odp_queue_ready env (aggr_confs param) i as s'"
        using as(5) m(2) frame_hdl [OF mem_same_frame [OF m(1)]] unfolding x by (simp add: odp_queue_ready_def aggr_child_def Let_def)
      then have "queue_ready env param i as s'"
        using as(6) f t m(2) unfolding x by (auto simp: queue_ready_def Let_def fresh_elem_def sched_types_def)
      moreover have "lists_same ?s1 s2" "out_same ?s1 s2" using as(4) by (simp_all add: only_elems_def)
      then have "listed param i ?s1 s'" "out_same ?s1 s'"
        using m(3,4) t unfolding x by (auto simp: listed_def lists_same_def out_same_def Let_def sched_types_def)
      ultimately have "setup_result env param i FS FD FA ?s1 x s'"
        using as(1,2) x(1) unfolding setup_result_def by auto
      then show ?thesis by (rule setup_result_after [OF u])
    qed
  qed
qed

lemma ready_result:
  assumes a: "distinct as" "set as \<subseteq> FA" "queue_rep FS FD (FA - set as) s'" "only_elems (insert i (set as)) s s'"
    "queue_ready env param i as s'" "qp_type param \<notin> sched_types" "qp_type param \<noteq> EM_QUEUE_TYPE_OUTPUT"
  shows "setup_result env param i FS FD FA s None s'"
proof -
  have "lists_same s s'" "out_same s s'" using a(4) by (simp_all add: only_elems_def)
  moreover have "elems_only (insert i (set as)) s s'" by (rule only_elems_elems [OF a(4) subset_refl])
  ultimately show ?thesis unfolding setup_result_def option.case
    by (intro exI [of _ as] conjI a(1-3,5)) (use a(6,7) in \<open>simp_all add: listed_def lists_same_def out_same_def Let_def\<close>)
qed

lemma setup_unscheduled_rep:
  assumes r: "queue_rep FS FD FA s" and i: "i \<notin> FA" and f: "fresh_elem param (queue_elem s i)"
    and t: "qp_type param = EM_QUEUE_TYPE_UNSCHEDULED" and q: "queue_setup_unscheduled env param i s = (x, s')"
  shows "setup_result env param i FS FD FA s x s'"
proof -
  let ?s1 = "upd_elem i (\<lambda>e. e\<lparr>q_priority := ucast EM_QUEUE_PRIO_UNDEF, q_type := EM_QUEUE_TYPE_UNSCHEDULED,
    q_queue_group := 0, scheduled := False, q_state := EM_QUEUE_STATE_UNSCHEDULED\<rparr>) s"
  have u: "mem_same s ?s1" "only_elems {i} s ?s1" by (rule upd_elem_same(1), simp) (rule only_elems_upd, simp_all)
  note r1 = mem_same_rep [OF u(1) r]
  have new: "\<not> has_aggr (queue_elem ?s1 i)" "aggr_queues (queue_elem ?s1 i) = []" using f by (simp_all add: fresh_elem_def)
  consider (err) e where "(x, s') = (Some e, ?s1)"
    | (run) op where "setup_odp_queue env param ''Q-setup-unsched: plain odp queue creation failed!'' i op ?s1 = (x, s')"
    using q [symmetric] unfolding queue_setup_unscheduled_def Let_def by (auto split: if_splits simp del: queue_upd_sel)
  then show ?thesis
  proof cases
    case err
    then show ?thesis using setup_resultI_err [OF r1 only_elems_mono [OF u(2)]] by simp
  next
    case (run op)
    note sub = setup_odp_queue_rep [OF r1 i new run]
    have "setup_result env param i FS FD FA ?s1 x s'"
    proof (cases x)
      case None
      then obtain as oq h aq where as: "distinct as" "set as \<subseteq> FA" "queue_rep FS FD (FA - set as) s'"
        "only_elems (insert i (set as)) ?s1 s'" "odp_queue_ready env (aggr_confs param) i as s'"
        "queue_elem s' i = (queue_elem ?s1 i)\<lparr>odp_queue := oq, has_aggr := h, aggr_queues := aq\<rparr>" using sub by auto
      have "queue_ready env param i as s'"
        using as(5,6) f t by (auto simp: queue_ready_def Let_def fresh_elem_def sched_types_def EM_QUEUE_PRIO_UNDEF_def)
      then show ?thesis unfolding None by (rule ready_result [OF as(1-4)]) (simp_all add: t sched_types_def)
    qed (use sub in \<open>simp add: setup_resultI_err\<close>)
    then show ?thesis by (rule setup_result_after [OF u])
  qed
qed

lemma setup_local_rep:
  assumes r: "queue_rep FS FD FA s" and f: "fresh_elem param (queue_elem s i)"
    and t: "qp_type param = EM_QUEUE_TYPE_LOCAL" and q: "queue_setup_local param i s = (x, s')"
  shows "setup_result env param i FS FD FA s x s'"
proof -
  let ?f = "\<lambda>e. e\<lparr>q_priority := ucast (qp_prio param), q_type := EM_QUEUE_TYPE_LOCAL,
        q_queue_group := 0, scheduled := False, q_state := EM_QUEUE_STATE_INIT\<rparr>"
  have x: "x = None" "s' = upd_elem i ?f s" using q by (simp_all add: queue_setup_local_def)
  have u: "mem_same s s'" "only_elems {i} s s'" unfolding x(2) by (rule upd_elem_same(1), simp) (rule only_elems_upd, simp_all)
  have "queue_ready env param i [] s'"
    using f t unfolding x by (simp add: queue_ready_def fresh_elem_def sched_types_def Let_def)
  then show ?thesis unfolding x(1) by (intro ready_result [of "[]"]) (use mem_same_rep [OF u(1) r] u(2) t in \<open>simp_all add: sched_types_def\<close>)
qed

text \<open>An output queue takes the first free index, when there is one.\<close>

lemma take_output_idx_eq:
  "take_output_idx i s =
     (case first_idx (\<lambda>k. output_queue_idx_free s ! k) 0 64 of
        None \<Rightarrow> s
      | Some k \<Rightarrow> upd_elem i (\<lambda>e. e\<lparr>output_idx := of_nat k\<rparr>)
          (s\<lparr>output_queue_idx_free := (output_queue_idx_free s)[k := False]\<rparr>))"
  by (simp add: take_output_idx_def EM_MAX_OUTPUT_QUEUES_def)

lemma take_output_idx_props:
  "mem_same s (take_output_idx i s)" "lists_same s (take_output_idx i s)"
  "output_queue_count (take_output_idx i s) = output_queue_count s"
  "j \<noteq> i \<Longrightarrow> queue_elem (take_output_idx i s) j = queue_elem s j"
  "\<exists>k. queue_elem (take_output_idx i s) i = (queue_elem s i)\<lparr>output_idx := k\<rparr>"
  "queue_names (take_output_idx i s) = queue_names s" "qs_opt (take_output_idx i s) = qs_opt s"
proof -
  have "queue_elem s i = (queue_elem s i)\<lparr>output_idx := output_idx (queue_elem s i)\<rparr>" by simp
  then have "\<exists>k. queue_elem s i = (queue_elem s i)\<lparr>output_idx := k\<rparr>" by (rule exI)
  then show "\<exists>k. queue_elem (take_output_idx i s) i = (queue_elem s i)\<lparr>output_idx := k\<rparr>"
    by (auto simp: take_output_idx_eq split: option.splits)
qed (auto simp: take_output_idx_eq same_defs split: option.splits)

text \<open>The states on the way through \<^verbatim>\<open>queue_setup_output\<close>.\<close>

definition out_step :: "nat \<Rightarrow> queue_shm \<Rightarrow> queue_shm \<Rightarrow> bool" where
  "out_step i s t \<longleftrightarrow> mem_same s t \<and> lists_same s t \<and> (\<forall>j. j \<noteq> i \<longrightarrow> queue_elem t j = queue_elem s j) \<and>
     output_queue_count t = output_queue_count s + 1 \<and> queue_names t = queue_names s \<and> qs_opt t = qs_opt s"

lemma out_step_upd:
  assumes "out_step i s t" "\<And>e. q_queue (f e) = q_queue e"
  shows "out_step i s (upd_elem i f t)"
  using assms upd_elem_same(1,2) [of f t i]
  by (auto simp: out_step_def intro: same_trans)

lemma out_step_take: "out_step i s t \<Longrightarrow> out_step i s (take_output_idx i t)"
  using take_output_idx_props [where i = i and s = t] by (auto simp: out_step_def intro: same_trans)

lemma out_step_err:
  assumes "queue_rep FS FD FA s" "out_step i s t" "(x, s') = error_dec_cnt e t"
  shows "setup_result env param i FS FD FA s x s'"
proof -
  have s': "x = Some e" "s' = t\<lparr>output_queue_count := output_queue_count t - 1\<rparr>" using assms(3) by (simp_all add: error_dec_cnt_def)
  have "mem_same s s'" "lists_same s s'" "elems_only (insert i FA) s s'" "output_queue_count s' = output_queue_count s"
    using assms(2) unfolding s'(2) by (auto simp: out_step_def same_defs elems_only_def)
  then show ?thesis unfolding s'(1) setup_result_def option.case using mem_same_rep [OF _ assms(1)] by blast
qed

lemma setup_output_rep:
  assumes r: "queue_rep FS FD FA s" and f: "fresh_elem param (queue_elem s i)"
    and t: "qp_type param = EM_QUEUE_TYPE_OUTPUT" and q: "queue_setup_output env param i s = (x, s')"
  shows "setup_result env param i FS FD FA s x s'"
proof -
  define s1 where "s1 = upd_elem i (\<lambda>e. e\<lparr>q_priority := ucast EM_QUEUE_PRIO_UNDEF, q_type := EM_QUEUE_TYPE_OUTPUT,
    q_queue_group := 0, scheduled := False, q_state := EM_QUEUE_STATE_UNSCHEDULED\<rparr>)
    (s\<lparr>output_queue_count := output_queue_count s + 1\<rparr>)"
  define s2 where "s2 = upd_elem i (\<lambda>e. e\<lparr>output_fn := qp_output_fn param, output_fn_args := qp_output_fn_args param,
    output_fn_args_event := 0\<rparr>) (take_output_idx i s1)"
  define s3 where "s3 = (if qp_args_len param = 0 then upd_elem i (\<lambda>e. e\<lparr>output_fn_args := 0\<rparr>) s2
    else upd_elem i (\<lambda>e. e\<lparr>output_fn_args_event := env_em_alloc env (qp_args_len param),
      output_fn_args := env_em_event_pointer env (env_em_alloc env (qp_args_len param))\<rparr>) s2)"
  have o0: "out_step i s (s\<lparr>output_queue_count := output_queue_count s + 1\<rparr>)" by (simp add: out_step_def same_defs)
  have o1: "out_step i s s1" unfolding s1_def by (rule out_step_upd [OF o0]) simp
  have o2: "out_step i s s2" unfolding s2_def by (rule out_step_upd [OF out_step_take [OF o1]]) simp
  have o3: "out_step i s s3" unfolding s3_def using out_step_upd [OF o2] by simp
  consider (err) e st where "(x, s') = error_dec_cnt e st" "out_step i s st"
    | (created) oq where "x = None" "s' = upd_elem i (\<lambda>e. e\<lparr>odp_queue := oq\<rparr>) s3" "oq \<noteq> 0"
    using q [symmetric] o0 o1 o2 o3
    unfolding queue_setup_output_def Let_def s1_def [symmetric] s2_def [symmetric] s3_def [symmetric] create_odp_queue_def
    by (auto split: if_splits prod.splits simp del: queue_upd_sel)
  then show ?thesis
  proof cases
    case err
    show ?thesis by (rule out_step_err [OF r err(2,1)])
  next
    case created
    have o4: "out_step i s s'" unfolding created(2) by (rule out_step_upd [OF o3]) simp
    obtain k where k: "queue_elem (take_output_idx i s1) i = (queue_elem s1 i)\<lparr>output_idx := k\<rparr>"
      using take_output_idx_props(5) by blast
    have "queue_ready env param i [] s'"
      using f t k created(3) unfolding created(2) s3_def s2_def s1_def
      by (auto simp: queue_ready_def fresh_elem_def sched_types_def Let_def EM_QUEUE_PRIO_UNDEF_def)
    moreover have "elems_only (insert i (set [])) s s'" "listed param i s s'" "queue_rep FS FD (FA - set []) s'"
      using o4 mem_same_rep [OF _ r, of s'] t
      by (auto simp: out_step_def elems_only_def mem_same_def listed_def lists_same_def sched_types_def Let_def)
    ultimately show ?thesis unfolding created(1) setup_result_def option.case
      by (intro exI [of _ "[]"] conjI) (simp_all add: t)
  qed
qed

lemma queue_setup_rep:
  assumes r: "queue_rep FS FD FA s" and i: "i \<notin> FA" and q: "queue_setup env name param i s = (x, s')"
  shows "setup_result env param i FS FD FA s x s'"
proof -
  let ?s = "queue_setup_common name param i s"
  have u: "mem_same s ?s" "only_elems {i} s ?s" using setup_common_same by blast+
  note r1 = mem_same_rep [OF u(1) r] and f = setup_common_fresh [of param name i s]
  have "setup_result env param i FS FD FA ?s x s'"
  proof (cases "qp_type param \<in> sched_types")
    case True
    then have "queue_setup_scheduled env param i ?s = (x, s')" using q by (auto simp: queue_setup_def Let_def sched_types_def)
    then show ?thesis by (rule setup_scheduled_rep [OF r1 i f True])
  next
    case False
    then consider "qp_type param = EM_QUEUE_TYPE_UNSCHEDULED" | "qp_type param = EM_QUEUE_TYPE_LOCAL" |
      "qp_type param = EM_QUEUE_TYPE_OUTPUT" | e where "(x, s') = (Some e, ?s)"
      using q [symmetric] by (cases "qp_type param") (auto simp: queue_setup_def Let_def sched_types_def)
    then show ?thesis
    proof cases
      case 1
      show ?thesis by (rule setup_unscheduled_rep [OF r1 i f 1]) (use q 1 in \<open>simp add: queue_setup_def Let_def\<close>)
    next
      case 2
      show ?thesis by (rule setup_local_rep [OF r1 f 2]) (use q 2 in \<open>simp add: queue_setup_def Let_def\<close>)
    next
      case 3
      show ?thesis by (rule setup_output_rep [OF r1 f 3]) (use q 3 in \<open>simp add: queue_setup_def Let_def\<close>)
    next
      case (4 e)
      then show ?thesis using setup_resultI_err [OF r1] by simp
    qed
  qed
  then show ?thesis by (rule setup_result_after [OF u])
qed

end
