(* ===== verification/QueueLife.thy ===== *)
theory QueueLife
  imports QueueProofs
begin

text \<open>
  The life of a queue: \<^verbatim>\<open>queue_create_param\<close>, \<^verbatim>\<open>queue_delete\<close> and the changes of its state, and the
  well-formedness of the queue table that they keep.
\<close>

lemma length_remove1_Suc: "x \<in> set xs \<Longrightarrow> length xs = Suc (length (remove1 x xs))"
  by (induction xs) auto

section \<open>Allocated queues\<close>

lemma elems_only_mono: "elems_only A s s' \<Longrightarrow> A \<subseteq> B \<Longrightarrow> elems_only B s s'"
  by (auto simp: elems_only_def)

lemma pool_allocated:
  assumes "pool_free p E F (qs_mem s)" "qe s i \<in> E"
  shows "queue_allocated s i \<longleftrightarrow> qe s i \<notin> F"
proof -
  obtain c where c: "pool_repr p E c (qs_mem s)" "free_elems p c = F"
    using assms(1) by (auto simp: pool_free_def)
  show ?thesis
    using assms(2) c pool_repr_in_pool [OF c(1), of "qe s i"]
    by (auto simp: queue_allocated_def objpool_in_pool_def)
qed

definition used :: "nat set \<Rightarrow> nat set \<Rightarrow> queue_shm \<Rightarrow> nat set" where
  "used FS FD s = (static_idx (qs_opt s) - FS) \<union> (dyn_idx (qs_opt s) - FD)"

lemma allocated_iff:
  assumes r: "queue_rep FS FD FA s"
  shows "i \<in> used FS FD s \<Longrightarrow> queue_allocated s i" "i \<in> aggr_idx (qs_opt s) \<Longrightarrow> queue_allocated s i \<longleftrightarrow> i \<notin> FA"
proof -
  note D = queue_repD [OF r]
  show "i \<in> used FS FD s \<Longrightarrow> queue_allocated s i"
    using pool_allocated [OF D(6), of i] pool_allocated [OF D(7), of i] by (auto simp: used_def)
  show "i \<in> aggr_idx (qs_opt s) \<Longrightarrow> queue_allocated s i \<longleftrightarrow> i \<notin> FA"
    using pool_allocated [OF D(8), of i] by simp
qed

lemma used_lt: "queue_rep FS FD FA s \<Longrightarrow> i \<in> used FS FD s \<Longrightarrow> i < unat (max_queue_num s) \<and> i \<notin> aggr_idx (qs_opt s) \<and> i \<notin> FS \<and> i \<notin> FD"
  using idx_lt [OF queue_repD(2), of FS FD FA s i] idx_disjoint [of "qs_opt s"] queue_repD(3,4) [of FS FD FA s]
  by (auto simp: used_def)

lemma get_queue_hdl:
  assumes "queue_tbl_ok s" "i < unat (max_queue_num s)"
  shows "get_elem s (queue_hdl s i) = Some i" "queue_hdl s i = ucast (q_queue (queue_elem s i))"
  using get_elem_hdl [OF assms(2)] queue_hdl_idx [OF assms] by (simp_all add: queue_hdl_def)

text \<open>\<^verbatim>\<open>queue_free\<close> gives the index undo to its range.\<close>

definition gave :: "nat \<Rightarrow> nat set \<Rightarrow> nat set \<Rightarrow> nat set" where "gave i R F = F \<union> ({i} \<inter> R)"

lemma queue_free_used:
  assumes r: "queue_rep FS FD FA s" and i: "i \<in> used FS FD s"
  shows "\<exists>s'. queue_free (queue_hdl s i) s = (EM_OK, s') \<and> elems_only {i} s s' \<and> lists_same s s' \<and> out_same s s' \<and>
    queue_rep (gave i (static_idx (qs_opt s)) FS) (gave i (dyn_idx (qs_opt s)) FD) FA s'"
proof -
  note u = used_lt [OF r i]
  have g: "get_elem s (queue_hdl s i) = Some i" by (rule get_queue_hdl(1) [OF queue_repD(1) [OF r]]) (use u in simp)
  obtain s' where s': "queue_free (queue_hdl s i) s = (EM_OK, s')" "queue_frame s s'"
    "queue_elem s' = (queue_elem s)(i := (queue_elem s i)\<lparr>q_state := EM_QUEUE_STATE_INVALID\<rparr>)"
    "if i \<in> static_idx (qs_opt s) then queue_rep (insert i FS) FD FA s' else queue_rep FS (insert i FD) FA s'"
    using queue_free_rep [OF r g] u by blast
  have "lists_same s s'" "out_same s s'" using s'(1) g by (auto simp: queue_free_def Let_def same_defs)
  moreover have "i \<in> static_idx (qs_opt s) \<Longrightarrow> i \<notin> dyn_idx (qs_opt s)" "i \<notin> static_idx (qs_opt s) \<Longrightarrow> i \<in> dyn_idx (qs_opt s)"
    using idx_disjoint [of "qs_opt s"] i by (auto simp: used_def)
  ultimately show ?thesis using s' by (cases "i \<in> static_idx (qs_opt s)") (simp_all add: gave_def elems_only_def)
qed

section \<open>Creating\<close>

text \<open>A failed creation leaves no trace outside the free elements.\<close>

definition create_failed :: "nat set \<Rightarrow> nat set \<Rightarrow> nat set \<Rightarrow> queue_shm \<Rightarrow> queue_shm \<Rightarrow> bool" where
  "create_failed FS FD FA s s' \<longleftrightarrow> queue_rep FS FD FA s' \<and> elems_only (FS \<union> FD \<union> FA) s s' \<and> lists_same s s' \<and>
     output_queue_count s' = output_queue_count s"

definition create_done ::
  "queue_env \<Rightarrow> em_queue_param \<Rightarrow> nat set \<Rightarrow> nat set \<Rightarrow> nat set \<Rightarrow> queue_shm \<Rightarrow> em_queue_t \<Rightarrow> nat \<Rightarrow> nat list \<Rightarrow> queue_shm \<Rightarrow> bool" where
  "create_done env param FS FD FA s q i as s' \<longleftrightarrow>
     i \<in> (if qp_queue param = EM_QUEUE_UNDEF then FD else FS) \<and>
     q = queue_idx2hdl (qs_device_id s) (int i) \<and> (qp_queue param \<noteq> EM_QUEUE_UNDEF \<longrightarrow> q = qp_queue param) \<and>
     distinct as \<and> set as \<subseteq> FA \<and> queue_rep (FS - {i}) (FD - {i}) (FA - set as) s' \<and>
     elems_only (insert i (set as)) s s' \<and> queue_ready env param i as s' \<and> listed param i s s'"

lemma queue_alloc_cases:
  assumes r: "queue_rep FS FD FA s" and a: "queue_alloc thr req s = (x, s1)"
  shows "case x of
      Inl e \<Rightarrow> s1 = s
    | Inr q \<Rightarrow> \<exists>i. i \<in> (if req = EM_QUEUE_UNDEF then FD else FS) \<and> q = queue_idx2hdl (qs_device_id s) (int i) \<and>
        queue_rep (FS - {i}) (FD - {i}) FA s1 \<and> queue_frame s s1 \<and> queue_elem s1 = queue_elem s \<and> i \<in> used (FS - {i}) (FD - {i}) s1"
proof (cases "req = EM_QUEUE_UNDEF")
  case True
  note D = queue_repD [OF r] and al = queue_alloc_dyn [OF r, of thr]
  show ?thesis
  proof (cases "FD = {}")
    case True
    then show ?thesis using al a \<open>req = _\<close> by auto
  next
    case False
    then obtain i where i: "i \<in> FD" "x = Inr (queue_idx2hdl (qs_device_id s) (int i))" "queue_frame s s1"
      "queue_elem s1 = queue_elem s" "queue_rep FS (FD - {i}) FA s1"
      using al a \<open>req = _\<close> by auto
    have "i \<in> dyn_idx (qs_opt s)" using i(1) D(4) by blast
    moreover then have "i \<notin> FS" using D(3) idx_disjoint [of "qs_opt s"] by blast
    ultimately show ?thesis using i \<open>req = _\<close> by (auto simp: used_def queue_frame_def)
  qed
next
  case False
  note D = queue_repD [OF r] and al = queue_alloc_static [OF r False, of thr]
  show ?thesis
  proof (cases "\<exists>i \<in> FS. take_bit 32 req = queue_idx2hdl (qs_device_id s) (int i)")
    case True
    then obtain i where i: "i \<in> FS" "x = Inr (queue_idx2hdl (qs_device_id s) (int i))" "queue_frame s s1"
      "queue_elem s1 = queue_elem s" "queue_rep (FS - {i}) FD FA s1"
      using al a by auto
    have "i \<in> static_idx (qs_opt s)" using i(1) D(3) by blast
    moreover then have "i \<notin> FD" using D(4) idx_disjoint [of "qs_opt s"] by blast
    ultimately show ?thesis using i False by (auto simp: used_def queue_frame_def)
  next
    case neg: False
    then show ?thesis using al a by auto
  qed
qed

lemma alloc_other:
  "queue_alloc thr req s = (x, s1) \<Longrightarrow> lists_same s s1 \<and> out_same s s1"
  by (auto simp: queue_alloc_def Let_def same_defs split: option.splits prod.splits if_splits)

lemma queue_create_result:
  assumes r: "queue_rep FS FD FA s" and c: "queue_create_param env name param s = (x, s')"
  shows "case x of Inl e \<Rightarrow> create_failed FS FD FA s s'
    | Inr q \<Rightarrow> \<exists>i as. create_done env param FS FD FA s q i as s'"
proof (cases "queue_create_check_args env param")
  case (Some e)
  then show ?thesis using c r by (auto simp: queue_create_param_def create_failed_def elems_only_def)
next
  case None
  obtain y s1 where a: "queue_alloc (env_thr env) (qp_queue param) s = (y, s1)" by (rule prod.exhaust)
  note ac = queue_alloc_cases [OF r a]
  show ?thesis
  proof (cases y)
    case (Inl e)
    then show ?thesis using c None a ac r by (auto simp: queue_create_param_def create_failed_def elems_only_def)
  next
    case (Inr q)
    obtain i where i: "i \<in> (if qp_queue param = EM_QUEUE_UNDEF then FD else FS)" "q = queue_idx2hdl (qs_device_id s) (int i)"
      "queue_rep (FS - {i}) (FD - {i}) FA s1" "queue_frame s s1" "queue_elem s1 = queue_elem s" "i \<in> used (FS - {i}) (FD - {i}) s1"
      using ac unfolding Inr by auto
    have ls: "lists_same s s1" "out_same s s1" using alloc_other [OF a] by blast+
    have iF: "i \<in> FS \<union> FD" using i(1) by (auto split: if_splits)
    have q: "q = queue_hdl s1 i"
      using queue_hdl_idx [OF queue_repD(1) [OF i(3)]] used_lt [OF i(3,6)] i(2,4) by (simp add: queue_frame_def)
    have undo: "create_failed FS FD FA s (snd (queue_free q s2))"
      if s2: "queue_rep (FS - {i}) (FD - {i}) FA s2" "elems_only (insert i FA) s1 s2" "lists_same s1 s2"
        "output_queue_count s2 = output_queue_count s1" for s2
    proof -
      have fr: "queue_frame s1 s2" using s2(2) by (simp add: elems_only_def)
      have us: "i \<in> used (FS - {i}) (FD - {i}) s2" using i(6) fr by (simp add: used_def queue_frame_def)
      have q2: "q = queue_hdl s2 i" unfolding q using frame_hdl [OF fr] by simp
      obtain s3 where s3: "queue_free q s2 = (EM_OK, s3)" "elems_only {i} s2 s3" "lists_same s2 s3" "out_same s2 s3"
        "queue_rep (gave i (static_idx (qs_opt s2)) (FS - {i})) (gave i (dyn_idx (qs_opt s2)) (FD - {i})) FA s3"
        using queue_free_used [OF s2(1) us] unfolding q2 by blast
      have opt: "qs_opt s2 = qs_opt s" using fr i(4) by (simp add: queue_frame_def)
      have eq: "gave i (static_idx (qs_opt s2)) (FS - {i}) = FS" "gave i (dyn_idx (qs_opt s2)) (FD - {i}) = FD"
        using queue_repD(3,4) [OF r] idx_disjoint [of "qs_opt s"] iF unfolding opt gave_def by auto
      have "elems_only (FS \<union> FD \<union> FA) s s3"
        using i(4,5) s2(2) s3(2) iF same_trans(4) unfolding elems_only_def
        by (metis Un_iff insertE singletonD)
      then show ?thesis
        using s3 same_trans(2) ls s2(3,4) unfolding eq create_failed_def by (auto simp: out_same_def intro: same_trans)
    qed
    show ?thesis
    proof (cases "qp_queue param \<noteq> EM_QUEUE_UNDEF \<and> qp_queue param \<noteq> q")
      case True
      have "create_failed FS FD FA s (snd (queue_free q s1))" by (rule undo [OF i(3)]) (simp_all add: elems_only_def)
      then show ?thesis using c None a Inr True by (auto simp: queue_create_param_def)
    next
      case False
      have g: "get_elem s1 q = Some i"
        unfolding q using get_queue_hdl(1) [OF queue_repD(1) [OF i(3)]] used_lt [OF i(3,6)] by simp
      obtain z s2 where z: "queue_setup env name param i s1 = (z, s2)" by (rule prod.exhaust)
      have "i \<notin> FA" using iF idx_disjoint [of "qs_opt s"] queue_repD(3-5) [OF r] by blast
      note st = queue_setup_rep [OF i(3) this z]
      show ?thesis
      proof (cases z)
        case (Some e)
        then have "create_failed FS FD FA s (snd (queue_free q s2))"
          using st undo by (simp add: setup_result_def)
        then show ?thesis using c None a Inr False g z Some by (auto simp: queue_create_param_def)
      next
        case None2: None
        then obtain as where as: "distinct as" "set as \<subseteq> FA" "queue_rep (FS - {i}) (FD - {i}) (FA - set as) s2"
          "elems_only (insert i (set as)) s1 s2" "queue_ready env param i as s2" "listed param i s1 s2"
          using st by (auto simp: setup_result_def)
        have x: "x = Inr q" "s' = s2" using c None a Inr False g z None2 by (auto simp: queue_create_param_def)
        have eo: "elems_only (insert i (set as)) s s2" using as(4) i(4,5) same_trans(4) unfolding elems_only_def by metis
        have li: "listed param i s s2" using as(6) ls by (simp add: listed_def lists_same_def out_same_def Let_def)
        have "create_done env param FS FD FA s q i as s2"
          unfolding create_done_def by (intro conjI impI as(1-3,5) i(1,2) eo li) (use False in blast)
        then show ?thesis unfolding x by auto
      qed
    qed
  qed
qed

section \<open>Deleting\<close>

lemma free_aggr_loop_rep:
  assumes "queue_rep FS FD FA s" "distinct as" "set as \<subseteq> aggr_idx (qs_opt s) - FA" "i \<notin> aggr_idx (qs_opt s)"
    "\<forall>a \<in> set as. q_type (queue_elem s a) = EM_QUEUE_TYPE_AGGR \<and> parent_queue (queue_elem s a) = queue_hdl s i"
  shows "\<exists>s'. free_aggr_loop i k (map (\<lambda>a. q_queue (queue_elem s a)) as) err s = (err, s') \<and>
    queue_rep FS FD (FA \<union> set as) s' \<and> only_elems (insert i (set as)) s s' \<and>
    (\<exists>aq. queue_elem s' i = (queue_elem s i)\<lparr>aggr_queues := aq\<rparr>)"
  using assms
proof (induction as arbitrary: s k FA)
  case Nil
  have "queue_elem s i = (queue_elem s i)\<lparr>aggr_queues := aggr_queues (queue_elem s i)\<rparr>" by simp
  then have "\<exists>aq. queue_elem s i = (queue_elem s i)\<lparr>aggr_queues := aq\<rparr>" by (rule exI)
  then show ?case using Nil.prems(1) by simp
next
  case (Cons a as)
  let ?f = "\<lambda>e. e\<lparr>aggr_queues := (aggr_queues e)[k := ucast EM_QUEUE_UNDEF]\<rparr>"
  let ?s1 = "upd_elem i ?f s"
  let ?s2 = "queue_aggr_free a ?s1"
  have u: "mem_same s ?s1" "only_elems {i} s ?s1" by (rule upd_elem_same(1), simp) (rule only_elems_upd, simp_all)
  note r1 = mem_same_rep [OF u(1) Cons.prems(1)]
  have a: "a \<in> aggr_idx (qs_opt ?s1)" "a \<notin> FA" "a \<noteq> i" "a \<notin> set as" using Cons.prems(2-4) by auto
  have lt: "a < unat (max_queue_num ?s1)" using idx_lt(3) [OF queue_repD(2) [OF r1] a(1)] by simp
  have g: "get_elem ?s1 (ucast (q_queue (queue_elem s a))) = Some a"
    using get_queue_hdl [OF queue_repD(1) [OF r1] lt] a(3) by simp
  have al: "queue_allocated ?s1 a" using allocated_iff(2) [OF r1 a(1)] a(2) by simp
  have ty: "q_type (queue_elem ?s1 a) = EM_QUEUE_TYPE_AGGR" "parent_queue (queue_elem ?s1 a) = queue_hdl ?s1 i"
    using Cons.prems(5) a(3) by (simp_all add: queue_hdl_def)
  have r2: "queue_frame ?s1 ?s2" "queue_rep FS FD (insert a FA) ?s2" using queue_aggr_free_rep [OF r1 a(1,2)] by blast+
  have fr: "queue_frame s ?s2" by (rule same_trans(4) [OF mem_same_frame [OF u(1)] r2(1)])
  have o2: "only_elems {a} ?s1 ?s2" by (rule queue_aggr_free_only) simp
  have e2: "queue_elem ?s2 b = queue_elem s b" if "b \<noteq> a" "b \<noteq> i" for b
    using o2 that by (simp add: only_elems_def)
  have mp: "map (\<lambda>a. q_queue (queue_elem s a)) as = map (\<lambda>a. q_queue (queue_elem ?s2 a)) as"
    using fr by (simp add: queue_frame_def)
  have opt: "qs_opt ?s2 = qs_opt s" using fr by (simp add: queue_frame_def)
  have ch: "\<forall>b \<in> set as. q_type (queue_elem ?s2 b) = EM_QUEUE_TYPE_AGGR \<and> parent_queue (queue_elem ?s2 b) = queue_hdl ?s2 i"
  proof
    fix b
    assume b: "b \<in> set as"
    then have "b \<noteq> a" "b \<noteq> i" using a(4) Cons.prems(3,4) by auto
    then show "q_type (queue_elem ?s2 b) = EM_QUEUE_TYPE_AGGR \<and> parent_queue (queue_elem ?s2 b) = queue_hdl ?s2 i"
      using Cons.prems(5) b e2 frame_hdl [OF fr] by simp
  qed
  have sub: "set as \<subseteq> aggr_idx (qs_opt ?s2) - insert a FA" "i \<notin> aggr_idx (qs_opt ?s2)"
    using Cons.prems(3,4) a(4) unfolding opt by auto
  obtain s' aq where s': "free_aggr_loop i (Suc k) (map (\<lambda>a. q_queue (queue_elem ?s2 a)) as) err ?s2 = (err, s')"
    "queue_rep FS FD (insert a FA \<union> set as) s'" "only_elems (insert i (set as)) ?s2 s'"
    "queue_elem s' i = (queue_elem ?s2 i)\<lparr>aggr_queues := aq\<rparr>"
    using Cons.IH [OF r2(2) _ sub ch, of "Suc k"] Cons.prems(2) by auto
  have "free_aggr_loop i k (map (\<lambda>a. q_queue (queue_elem s a)) (a # as)) err s =
      free_aggr_loop i (Suc k) (map (\<lambda>a. q_queue (queue_elem s a)) as) err ?s2"
    using g al ty by (simp add: Let_def del: queue_upd_sel)
  then have "free_aggr_loop i k (map (\<lambda>a. q_queue (queue_elem s a)) (a # as)) err s = (err, s')"
    unfolding mp s'(1) .
  moreover have "only_elems (insert i (set (a # as))) s s'"
    by (rule only_elems_trans [OF only_elems_mono [OF u(2)] only_elems_trans [OF only_elems_mono [OF o2] only_elems_mono [OF s'(3)]]]) auto
  moreover have "queue_elem s' i = (queue_elem s i)\<lparr>aggr_queues := aq\<rparr>"
    using s'(4) o2 a(3) by (simp add: only_elems_def)
  ultimately show ?case using s'(2) by auto
qed

text \<open>The children of queue \<^verbatim>\<open>i\<close>, as its element lists them.\<close>

text \<open>
  The states of an aggregator queue whose parent is in state \<^verbatim>\<open>st\<close>: \<^verbatim>\<open>queue_state_set\<close> makes both
  states one, but an EO binds and unbinds the parent alone.
\<close>

definition aggr_states :: "queue_state_t \<Rightarrow> queue_state_t set" where
  "aggr_states st = (if st \<in> {EM_QUEUE_STATE_INIT, EM_QUEUE_STATE_BIND} then {EM_QUEUE_STATE_INIT, EM_QUEUE_STATE_BIND} else {st})"

lemma aggr_states_self [simp]: "st \<in> aggr_states st"
  by (simp add: aggr_states_def)

definition children :: "nat set \<Rightarrow> queue_shm \<Rightarrow> nat \<Rightarrow> nat list \<Rightarrow> bool" where
  "children FA s i as \<longleftrightarrow> distinct as \<and> set as \<subseteq> aggr_idx (qs_opt s) - FA \<and>
     has_aggr (queue_elem s i) = (as \<noteq> []) \<and> aggr_queues (queue_elem s i) = map (\<lambda>a. q_queue (queue_elem s a)) as \<and>
     (\<forall>a \<in> set as. q_type (queue_elem s a) = EM_QUEUE_TYPE_AGGR \<and> parent_queue (queue_elem s a) = queue_hdl s i \<and>
        q_state (queue_elem s a) \<in> aggr_states (q_state (queue_elem s i)))"

lemma children_frame:
  assumes "children FA s i as" "elems_only A s s'" "i \<notin> A" "A \<inter> set as = {}" "set as \<inter> FA' = {}"
  shows "children FA' s' i as"
proof -
  have e: "queue_elem s' i = queue_elem s i" "\<forall>a \<in> set as. queue_elem s' a = queue_elem s a"
    using assms(2-4) by (auto simp: elems_only_def)
  have fr: "queue_frame s s'" using assms(2) by (simp add: elems_only_def)
  have "map (\<lambda>a. q_queue (queue_elem s' a)) as = map (\<lambda>a. q_queue (queue_elem s a)) as" using e(2) by simp
  then show ?thesis
    using assms(1,5) e frame_hdl [OF fr] fr unfolding children_def queue_frame_def by auto
qed

lemma delete_end_rep:
  assumes r: "queue_rep FS FD FA s" and i: "i \<in> used FS FD s" and ch: "children FA s i as"
    and d: "env_odp_queue_destroy env (odp_queue (queue_elem s i)) = 0"
  shows "\<exists>s'. queue_delete_end env i s = (EM_OK, s') \<and> elems_only (insert i (set as)) s s' \<and>
    qgrp_queues s' = qgrp_queues s \<and> qgrp_num_queues s' = qgrp_num_queues s \<and> out_same s s' \<and>
    (in_atomic_group (queue_elem s i) \<or> lists_same s s') \<and>
    queue_rep (gave i (static_idx (qs_opt s)) FS) (gave i (dyn_idx (qs_opt s)) FD) (FA \<union> set as) s'"
proof -
  let ?s1 = "upd_elem i (\<lambda>e. e\<lparr>odp_queue := 0\<rparr>) s"
  define s2 where "s2 = (if has_aggr (queue_elem ?s1 i) then snd (queue_free_aggr_all i ?s1) else ?s1)"
  let ?s3 = "s2\<lparr>queue_names := (queue_names s2)(i := [])\<rparr>"
  let ?s4 = "atomic_group_remove_queue i ?s3"
  have ni: "i \<notin> aggr_idx (qs_opt s)" using used_lt [OF r i] by simp
  have u: "mem_same s ?s1" "only_elems {i} s ?s1" by (rule upd_elem_same(1), simp) (rule only_elems_upd, simp_all)
  note r1 = mem_same_rep [OF u(1) r]
  have ias: "i \<notin> set as" using ch ni by (auto simp: children_def)
  have two: "queue_rep FS FD (FA \<union> set as) s2 \<and> only_elems (insert i (set as)) s s2 \<and>
    in_atomic_group (queue_elem s2 i) = in_atomic_group (queue_elem s i)"
  proof (cases "has_aggr (queue_elem ?s1 i)")
    case False
    then have "as = []" using ch by (simp add: children_def)
    then show ?thesis using r1 u(2) False by (simp add: s2_def)
  next
    case True
    have "aggr_queues (queue_elem ?s1 i) = map (\<lambda>a. q_queue (queue_elem ?s1 a)) as"
      using ch ias by (simp add: children_def)
    moreover have "\<exists>t. free_aggr_loop i 0 (map (\<lambda>a. q_queue (queue_elem ?s1 a)) as) False ?s1 = (False, t) \<and>
      queue_rep FS FD (FA \<union> set as) t \<and> only_elems (insert i (set as)) ?s1 t \<and>
      (\<exists>aq. queue_elem t i = (queue_elem ?s1 i)\<lparr>aggr_queues := aq\<rparr>)"
      by (rule free_aggr_loop_rep [OF r1]) (use ch ni ias in \<open>auto simp: children_def queue_hdl_def\<close>)
    ultimately obtain t aq where t: "free_aggr_loop i 0 (aggr_queues (queue_elem ?s1 i)) False ?s1 = (False, t)"
      "queue_rep FS FD (FA \<union> set as) t" "only_elems (insert i (set as)) ?s1 t"
      "queue_elem t i = (queue_elem ?s1 i)\<lparr>aggr_queues := aq\<rparr>" by auto
    let ?g = "\<lambda>e. e\<lparr>aggr_queues := [], has_aggr := False\<rparr>"
    have s2: "s2 = upd_elem i ?g t" using True t(1) by (simp add: s2_def queue_free_aggr_all_def del: queue_upd_sel)
    have v: "mem_same t s2" "only_elems {i} t s2" unfolding s2 by (rule upd_elem_same(1), simp) (rule only_elems_upd, simp_all)
    have "only_elems (insert i (set as)) s s2"
      by (rule only_elems_trans [OF only_elems_mono [OF u(2)] only_elems_trans [OF t(3) only_elems_mono [OF v(2)]]]) auto
    then show ?thesis using mem_same_rep [OF v(1) t(2)] t(4) unfolding s2 by simp
  qed
  then have fr2: "queue_frame s s2" "lists_same s s2" "out_same s s2" by (simp_all add: only_elems_def)
  have m3: "mem_same s2 ?s3" by (simp add: same_defs)
  have m4: "mem_same s2 ?s4 \<and> elems_only {i} s2 ?s4 \<and> out_same s2 ?s4 \<and> qgrp_queues ?s4 = qgrp_queues s2 \<and>
    qgrp_num_queues ?s4 = qgrp_num_queues s2 \<and> (in_atomic_group (queue_elem s i) \<or> lists_same s2 ?s4)"
    using two by (auto simp: atomic_group_remove_queue_def atomic_group_rem_queue_list_def same_defs elems_only_def Let_def)
  then have r4: "queue_rep FS FD (FA \<union> set as) ?s4" using two mem_same_rep by blast
  have fr4: "queue_frame s ?s4" using m4 fr2(1) same_trans(4) mem_same_frame by blast
  have us: "i \<in> used FS FD ?s4" and opt: "qs_opt ?s4 = qs_opt s" using i fr4 by (simp_all add: used_def queue_frame_def)
  obtain s5 where s5: "queue_free (queue_hdl ?s4 i) ?s4 = (EM_OK, s5)" "elems_only {i} ?s4 s5" "lists_same ?s4 s5" "out_same ?s4 s5"
    "queue_rep (gave i (static_idx (qs_opt s)) FS) (gave i (dyn_idx (qs_opt s)) FD) (FA \<union> set as) s5"
    using queue_free_used [OF r4 us] unfolding opt by blast
  have "queue_delete_end env i s = (EM_OK, s5)"
    using d s5(1) frame_hdl [OF fr4] by (simp add: queue_delete_end_def Let_def s2_def [unfolded queue_upd_sel])
  moreover have "elems_only (insert i (set as)) s s5"
  proof -
    have a: "elems_only (insert i (set as)) s s2" using two only_elems_elems by blast
    have b: "elems_only (insert i (set as)) s2 ?s4" by (rule elems_only_mono [of "{i}"]) (use m4 in simp_all)
    have c: "elems_only (insert i (set as)) ?s4 s5" by (rule elems_only_mono [OF s5(2)]) simp
    show ?thesis by (rule elems_only_trans [OF a elems_only_trans [OF b c]])
  qed
  moreover have "out_same s s5" using fr2(3) m4 s5(4) same_trans(3) by blast
  moreover have "qgrp_queues s5 = qgrp_queues s" "qgrp_num_queues s5 = qgrp_num_queues s"
    using fr2(2) m4 s5(3) by (simp_all add: lists_same_def)
  moreover have "in_atomic_group (queue_elem s i) \<or> lists_same s s5" using fr2(2) m4 s5(3) same_trans(2) by blast
  ultimately show ?thesis using s5(5) by blast
qed

section \<open>Well-formed tables\<close>

definition queue_types :: "em_queue_type_t set" where
  "queue_types = sched_types \<union> {EM_QUEUE_TYPE_UNSCHEDULED, EM_QUEUE_TYPE_LOCAL, EM_QUEUE_TYPE_OUTPUT}"

text \<open>The states a queue of type \<^verbatim>\<open>t\<close> may be in.\<close>

definition states_of :: "em_queue_type_t \<Rightarrow> queue_state_t set" where
  "states_of t = (if t \<in> insert EM_QUEUE_TYPE_LOCAL sched_types
     then {EM_QUEUE_STATE_INIT, EM_QUEUE_STATE_BIND, EM_QUEUE_STATE_READY} else {EM_QUEUE_STATE_UNSCHEDULED})"

definition elem_ok :: "nat set \<Rightarrow> queue_shm \<Rightarrow> nat \<Rightarrow> bool" where
  "elem_ok FA s i \<longleftrightarrow>
     (let e = queue_elem s i; t = q_type e
      in t \<in> queue_types \<and> valid_check e = QUEUE_ELEM_VALID \<and> scheduled e = (t \<in> sched_types) \<and> q_state e \<in> states_of t) \<and>
     (\<exists>as. children FA s i as)"

definition members :: "nat set \<Rightarrow> queue_shm \<Rightarrow> hdl \<Rightarrow> nat set" where
  "members U s g = {i \<in> U. q_type (queue_elem s i) \<in> sched_types \<and> q_queue_group (queue_elem s i) = g}"

definition groups_ok :: "nat set \<Rightarrow> queue_shm \<Rightarrow> bool" where
  "groups_ok U s \<longleftrightarrow> (\<forall>g. distinct (qgrp_queues s g) \<and> set (qgrp_queues s g) = members U s g \<and>
     qgrp_num_queues s g = of_nat (length (qgrp_queues s g)))"

definition no_orphan :: "nat set \<Rightarrow> nat set \<Rightarrow> queue_shm \<Rightarrow> bool" where
  "no_orphan U FA s \<longleftrightarrow> (\<forall>a \<in> aggr_idx (qs_opt s) - FA. \<exists>i \<in> U. \<exists>as. children FA s i as \<and> a \<in> set as)"

text \<open>
  \<^verbatim>\<open>FS\<close>, \<^verbatim>\<open>FD\<close> and \<^verbatim>\<open>FA\<close> are the free queues; every queue in use is of a proper type and in a state of that
  type, its aggregator queues point back to it and are in a state its own allows, each aggregator queue in use has
  a parent, and each queue group lists and counts exactly its scheduled queues.
\<close>

definition queue_wf :: "nat set \<Rightarrow> nat set \<Rightarrow> nat set \<Rightarrow> queue_shm \<Rightarrow> bool" where
  "queue_wf FS FD FA s \<longleftrightarrow> queue_rep FS FD FA s \<and> (\<forall>i \<in> used FS FD s. elem_ok FA s i) \<and>
     groups_ok (used FS FD s) s \<and> no_orphan (used FS FD s) FA s"

lemma elem_ok_frame:
  assumes "elem_ok FA s i" "elems_only A s s'" "i \<notin> A" "\<And>as. children FA s i as \<Longrightarrow> children FA' s' i as"
  shows "elem_ok FA' s' i"
  using assms unfolding elem_ok_def elems_only_def by (metis (no_types, lifting))

text \<open>An unchanged queue keeps its children when none of them changes or becomes free.\<close>

lemma children_keep:
  assumes "elems_only A s s'" "i \<notin> A" "A \<inter> aggr_idx (qs_opt s) \<subseteq> FA" "FA' \<subseteq> FA"
  shows "children FA s i as \<Longrightarrow> children FA' s' i as"
proof -
  assume c: "children FA s i as"
  have "A \<inter> set as = {}" "set as \<inter> FA' = {}" using c assms(3,4) by (auto simp: children_def)
  then show ?thesis by (rule children_frame [OF c assms(1,2)])
qed

lemma create_failed_wf:
  assumes "queue_wf FS FD FA s" "create_failed FS FD FA s s'"
  shows "queue_wf FS FD FA s'"
proof -
  have r: "queue_rep FS FD FA s" "queue_rep FS FD FA s'" and eo: "elems_only (FS \<union> FD \<union> FA) s s'" and ls: "lists_same s s'"
    using assms by (simp_all add: queue_wf_def create_failed_def)
  have opt: "qs_opt s' = qs_opt s" using eo by (simp add: elems_only_def queue_frame_def)
  have u: "used FS FD s' = used FS FD s" by (simp add: used_def opt)
  have out: "i \<notin> FS \<union> FD \<union> FA" if "i \<in> used FS FD s" for i
    using used_lt [OF r(1) that] queue_repD(5) [OF r(1)] by auto
  have sub: "(FS \<union> FD \<union> FA) \<inter> aggr_idx (qs_opt s) \<subseteq> FA"
    using queue_repD(3,4) [OF r(1)] idx_disjoint [of "qs_opt s"] by blast
  have ck: "children FA s' i as" if "i \<in> used FS FD s" "children FA s i as" for i as
    by (rule children_keep [OF eo out [OF that(1)] sub subset_refl that(2)])
  have e: "\<forall>i \<in> used FS FD s'. elem_ok FA s' i"
    using assms(1) elem_ok_frame [OF _ eo out ck] unfolding u queue_wf_def by blast
  have m: "members (used FS FD s') s' g = members (used FS FD s) s g" for g
    using out eo unfolding u members_def elems_only_def by auto
  have g: "groups_ok (used FS FD s') s'" using assms(1) m ls unfolding queue_wf_def groups_ok_def lists_same_def by simp
  have n: "no_orphan (used FS FD s') FA s'" using assms(1) ck unfolding queue_wf_def no_orphan_def u opt by blast
  show ?thesis unfolding queue_wf_def by (intro conjI r(2) e g n)
qed

lemma ready_types:
  assumes "queue_ready env param i as s" "qp_type param \<in> queue_types" "set as \<subseteq> aggr_idx (qs_opt s)" "distinct as"
    "FA \<inter> set as = {}"
  shows "elem_ok FA s i" "children FA s i as" "q_queue_group (queue_elem s i) = (if qp_type param \<in> sched_types then qp_queue_group param else 0)"
    "q_type (queue_elem s i) = qp_type param"
proof -
  show ty: "q_type (queue_elem s i) = qp_type param"
    "q_queue_group (queue_elem s i) = (if qp_type param \<in> sched_types then qp_queue_group param else 0)"
    using assms(1) by (simp_all add: queue_ready_def Let_def)
  show c: "children FA s i as"
  proof (cases "qp_type param \<in> {EM_QUEUE_TYPE_LOCAL, EM_QUEUE_TYPE_OUTPUT}")
    case True
    then show ?thesis using assms(1) by (auto simp: queue_ready_def Let_def children_def split: if_splits)
  next
    case False
    then have o: "odp_queue_ready env (aggr_confs param) i as s" using assms(1) by (auto simp: queue_ready_def Let_def split: if_splits)
    have "\<forall>a \<in> set as. q_type (queue_elem s a) = EM_QUEUE_TYPE_AGGR \<and> parent_queue (queue_elem s a) = queue_hdl s i \<and>
      q_state (queue_elem s a) = q_state (queue_elem s i)"
    proof
      fix a
      assume "a \<in> set as"
      then obtain m where m: "m < length as" "a = as ! m" by (metis in_set_conv_nth)
      then have "\<exists>c oq. aggr_child s i c oq a" using o unfolding odp_queue_ready_def Let_def by blast
      then show "q_type (queue_elem s a) = EM_QUEUE_TYPE_AGGR \<and> parent_queue (queue_elem s a) = queue_hdl s i \<and>
        q_state (queue_elem s a) = q_state (queue_elem s i)" by (auto simp: aggr_child_def Let_def)
    qed
    then show ?thesis using o assms(3-5) by (auto simp: odp_queue_ready_def Let_def children_def)
  qed
  show "elem_ok FA s i"
    using assms(1,2) c unfolding elem_ok_def by (auto simp: queue_ready_def Let_def states_of_def queue_types_def)
qed

lemma create_types:
  assumes "queue_create_param env name param s = (Inr q, s')"
  shows "qp_type param \<in> queue_types" "qp_type param \<in> sched_types \<Longrightarrow> env_qgrp_allocated env (qp_queue_group param)"
proof -
  have n: "queue_create_check_args env param = None" using assms by (auto simp: queue_create_param_def split: option.splits)
  show "qp_type param \<in> queue_types"
    using n by (cases "qp_type param") (auto simp: queue_create_check_args_def queue_types_def sched_types_def split: if_splits)
  show "env_qgrp_allocated env (qp_queue_group param)" if "qp_type param \<in> sched_types"
    using n that by (auto simp: queue_create_check_args_def sched_types_def queue_create_check_sched_def split: if_splits)
qed

lemma create_qgrp_elem:
  assumes "queue_create_param env name param s = (Inr q, s')" "qp_type param \<in> sched_types"
  shows "env_qgrp_elem env (qp_queue_group param)"
  using assms by (auto simp: queue_create_param_def queue_create_check_args_def sched_types_def queue_create_check_sched_def
      split: option.splits if_splits)

lemma create_done_wf:
  assumes w: "queue_wf FS FD FA s" and d: "create_done env param FS FD FA s q i as s'" and t: "qp_type param \<in> queue_types"
  shows "queue_wf (FS - {i}) (FD - {i}) (FA - set as) s'"
proof -
  have r: "queue_rep FS FD FA s" "queue_rep (FS - {i}) (FD - {i}) (FA - set as) s'" and eo: "elems_only (insert i (set as)) s s'"
    and as: "distinct as" "set as \<subseteq> FA" and qr: "queue_ready env param i as s'" and li: "listed param i s s'"
    and iF: "i \<in> FS \<union> FD"
    using w d by (auto simp: queue_wf_def create_done_def split: if_splits)
  note D = queue_repD [OF r(1)]
  have opt: "qs_opt s' = qs_opt s" using eo by (simp add: elems_only_def queue_frame_def)
  have u: "used (FS - {i}) (FD - {i}) s' = insert i (used FS FD s)"
    using iF D(3,4) idx_disjoint [of "qs_opt s"] unfolding used_def opt by auto
  have out: "j \<notin> insert i (set as)" "j \<noteq> i" if "j \<in> used FS FD s" for j
    using used_lt [OF r(1) that] D(5) as(2) iF by auto
  have iA: "i \<notin> aggr_idx (qs_opt s)" using iF D(3,4) idx_disjoint [of "qs_opt s"] by blast
  have sub: "insert i (set as) \<inter> aggr_idx (qs_opt s) \<subseteq> FA" using iA as(2) by blast
  have asx: "set as \<subseteq> aggr_idx (qs_opt s')" "(FA - set as) \<inter> set as = {}" using as(2) D(5) opt by auto
  note new = ready_types [OF qr t asx(1) as(1) asx(2)]
  have ck: "children (FA - set as) s' j bs" if "j \<in> used FS FD s" "children FA s j bs" for j bs
    by (rule children_keep [OF eo out(1) [OF that(1)] sub _ that(2)]) blast
  have old: "elem_ok (FA - set as) s' j" if "j \<in> used FS FD s" for j
    by (rule elem_ok_frame [OF _ eo out(1) [OF that] ck [OF that]]) (use w that in \<open>unfold queue_wf_def, blast+\<close>)
  have e: "\<forall>j \<in> used (FS - {i}) (FD - {i}) s'. elem_ok (FA - set as) s' j" unfolding u using new(1) old by blast
  have m: "members (used (FS - {i}) (FD - {i}) s') s' g = members (used FS FD s) s g \<union>
      (if qp_type param \<in> sched_types \<and> qp_queue_group param = g then {i} else {})" for g
    using out eo new(3,4) unfolding u members_def elems_only_def by auto
  have nm: "i \<notin> set (qgrp_queues s g)" for g
    using w out(2) unfolding queue_wf_def groups_ok_def members_def by blast
  have g: "groups_ok (used (FS - {i}) (FD - {i}) s') s'"
    using w li nm unfolding groups_ok_def m queue_wf_def listed_def Let_def by (auto split: if_splits)
  have n: "no_orphan (used (FS - {i}) (FD - {i}) s') (FA - set as) s'"
  proof (unfold no_orphan_def u opt, intro ballI)
    fix a
    assume a: "a \<in> aggr_idx (qs_opt s) - (FA - set as)"
    show "\<exists>j \<in> insert i (used FS FD s). \<exists>bs. children (FA - set as) s' j bs \<and> a \<in> set bs"
    proof (cases "a \<in> set as")
      case True
      then show ?thesis using new(2) by blast
    next
      case False
      then show ?thesis using w a ck unfolding queue_wf_def no_orphan_def by blast
    qed
  qed
  show ?thesis unfolding queue_wf_def by (intro conjI r(2) e g n)
qed

lemma children_disjoint:
  assumes "queue_rep FS FD FA s" "i \<in> used FS FD s" "j \<in> used FS FD s" "children FA s i as" "children FA s j bs" "a \<in> set as" "a \<in> set bs"
  shows "i = j"
proof -
  have "queue_hdl s i = queue_hdl s j" using assms(4-7) by (auto simp: children_def)
  then have "Some i = Some j"
    using get_queue_hdl(1) [OF queue_repD(1) [OF assms(1)]] used_lt [OF assms(1,2)] used_lt [OF assms(1,3)] by metis
  then show ?thesis by simp
qed

lemma children_set:
  assumes "queue_tbl_ok s" "opt_ok (qs_opt s) (max_queue_num s)" "children FA s i as" "children FA' s i bs"
  shows "set as = set bs"
proof -
  have h: "a = b" if "a \<in> aggr_idx (qs_opt s)" "b \<in> aggr_idx (qs_opt s)" "q_queue (queue_elem s a) = q_queue (queue_elem s b)" for a b
  proof -
    have "queue_hdl s a = queue_hdl s b" using that(3) by (simp add: queue_hdl_def)
    then have "Some a = Some b"
      using get_queue_hdl(1) [OF assms(1)] idx_lt(3) [OF assms(2) that(1)] idx_lt(3) [OF assms(2) that(2)] by metis
    then show ?thesis by simp
  qed
  have "map (\<lambda>a. q_queue (queue_elem s a)) as = map (\<lambda>a. q_queue (queue_elem s a)) bs" using assms(3,4) by (simp add: children_def)
  then have im: "(\<lambda>a. q_queue (queue_elem s a)) ` set as = (\<lambda>a. q_queue (queue_elem s a)) ` set bs" by (metis list.set_map)
  have inj: "inj_on (\<lambda>a. q_queue (queue_elem s a)) (aggr_idx (qs_opt s))" by (rule inj_onI) (rule h)
  show ?thesis
    by (rule inj_on_image_eq_iff [OF inj, THEN iffD1, OF _ _ im]) (use assms(3,4) in \<open>auto simp: children_def\<close>)
qed

text \<open>What a successful deletion of queue \<^verbatim>\<open>i\<close> with the aggregator queues \<^verbatim>\<open>as\<close> does.\<close>

definition delete_done :: "nat \<Rightarrow> nat list \<Rightarrow> nat set \<Rightarrow> nat set \<Rightarrow> nat set \<Rightarrow> queue_shm \<Rightarrow> queue_shm \<Rightarrow> bool" where
  "delete_done i as FS FD FA s s' \<longleftrightarrow>
     (let e = queue_elem s i; g = q_queue_group e; sched = (q_type e \<in> sched_types)
      in queue_rep (gave i (static_idx (qs_opt s)) FS) (gave i (dyn_idx (qs_opt s)) FD) (FA \<union> set as) s' \<and>
         elems_only (insert i (set as)) s s' \<and>
         qgrp_queues s' = (if sched then (qgrp_queues s)(g := remove1 i (qgrp_queues s g)) else qgrp_queues s) \<and>
         qgrp_num_queues s' = (if sched then (qgrp_num_queues s)(g := qgrp_num_queues s g - 1) else qgrp_num_queues s) \<and>
         (in_atomic_group e \<or> agrp_queues s' = agrp_queues s \<and> agrp_num_queues s' = agrp_num_queues s \<and> agrp_hi_prio s' = agrp_hi_prio s) \<and>
         output_queue_count s' = (if q_type e = EM_QUEUE_TYPE_OUTPUT then output_queue_count s - 1 else output_queue_count s))"

lemma delete_done_wf:
  assumes w: "queue_wf FS FD FA s" and i: "i \<in> used FS FD s" and c: "children FA s i as" and d: "delete_done i as FS FD FA s s'"
  shows "queue_wf (gave i (static_idx (qs_opt s)) FS) (gave i (dyn_idx (qs_opt s)) FD) (FA \<union> set as) s'"
proof -
  let ?FS = "gave i (static_idx (qs_opt s)) FS" and ?FD = "gave i (dyn_idx (qs_opt s)) FD" and ?FA = "FA \<union> set as"
  have r: "queue_rep FS FD FA s" "queue_rep ?FS ?FD ?FA s'" and eo: "elems_only (insert i (set as)) s s'"
    using w d by (simp_all add: queue_wf_def delete_done_def Let_def)
  have opt: "qs_opt s' = qs_opt s" using eo by (simp add: elems_only_def queue_frame_def)
  have u: "used ?FS ?FD s' = used FS FD s - {i}" unfolding used_def opt gave_def by auto
  have asx: "set as \<subseteq> aggr_idx (qs_opt s)" using c by (auto simp: children_def)
  have out: "j \<notin> insert i (set as)" if "j \<in> used FS FD s - {i}" for j using used_lt [OF r(1), of j] that asx by blast
  have ck: "children ?FA s' j bs" if "j \<in> used FS FD s - {i}" "children FA s j bs" for j bs
  proof (rule children_frame [OF that(2) eo out [OF that(1)]])
    have "set as \<inter> set bs = {}" using children_disjoint [OF r(1) i _ c that(2)] that(1) by blast
    moreover have "i \<notin> set bs" "FA \<inter> set bs = {}" using that(2) used_lt [OF r(1) i] by (auto simp: children_def)
    ultimately show "insert i (set as) \<inter> set bs = {}" "set bs \<inter> ?FA = {}" by auto
  qed
  have e: "\<forall>j \<in> used ?FS ?FD s'. elem_ok ?FA s' j" unfolding u
    using elem_ok_frame [OF _ eo out ck] w unfolding queue_wf_def by blast
  have m: "members (used ?FS ?FD s') s' g = members (used FS FD s) s g - {i}" for g
    using out eo unfolding u members_def elems_only_def by auto
  have mi: "i \<in> members (used FS FD s) s g \<longleftrightarrow> q_type (queue_elem s i) \<in> sched_types \<and> g = q_queue_group (queue_elem s i)" for g
    using i by (auto simp: members_def)
  have gs: "\<And>g. distinct (qgrp_queues s g)" "\<And>g. set (qgrp_queues s g) = members (used FS FD s) s g"
    "\<And>g. qgrp_num_queues s g = of_nat (length (qgrp_queues s g))" using w by (simp_all add: queue_wf_def groups_ok_def)
  have g: "groups_ok (used ?FS ?FD s') s'"
  proof (unfold groups_ok_def m, intro allI)
    fix g
    show "distinct (qgrp_queues s' g) \<and> set (qgrp_queues s' g) = members (used FS FD s) s g - {i} \<and>
      qgrp_num_queues s' g = of_nat (length (qgrp_queues s' g))"
    proof (cases "i \<in> members (used FS FD s) s g")
      case True
      then have "qgrp_queues s' g = remove1 i (qgrp_queues s g)" "qgrp_num_queues s' g = qgrp_num_queues s g - 1"
        using d mi by (simp_all add: delete_done_def Let_def)
      moreover have "length (qgrp_queues s g) = Suc (length (remove1 i (qgrp_queues s g)))"
      proof -
        have "i \<in> set (qgrp_queues s g)" using True gs(2) by simp
        then show ?thesis by (rule length_remove1_Suc)
      qed
      ultimately show ?thesis using gs [of g] by simp
    next
      case False
      then have "qgrp_queues s' g = qgrp_queues s g" "qgrp_num_queues s' g = qgrp_num_queues s g"
        using d mi by (auto simp: delete_done_def Let_def)
      then show ?thesis using gs [of g] False by simp
    qed
  qed
  have n: "no_orphan (used ?FS ?FD s') ?FA s'"
  proof (unfold no_orphan_def u opt, intro ballI)
    fix a
    assume a: "a \<in> aggr_idx (qs_opt s) - ?FA"
    then obtain j bs where j: "j \<in> used FS FD s" "children FA s j bs" "a \<in> set bs"
      using w unfolding queue_wf_def no_orphan_def by blast
    have "j \<noteq> i"
    proof
      assume "j = i"
      then have "set bs = set as" using children_set [OF queue_repD(1,2) [OF r(1)] j(2)] c by blast
      then show False using a j(3) by blast
    qed
    then show "\<exists>j \<in> used FS FD s - {i}. \<exists>bs. children ?FA s' j bs \<and> a \<in> set bs" using j ck by blast
  qed
  show ?thesis unfolding queue_wf_def by (intro conjI r(2) e g n)
qed

text \<open>The deletion is accepted only for a queue that no EO has, of a queue group that exists.\<close>

definition deletable :: "queue_env \<Rightarrow> queue_elem \<Rightarrow> bool" where
  "deletable env e \<longleftrightarrow>
     (q_type e \<in> insert EM_QUEUE_TYPE_LOCAL sched_types \<longrightarrow> q_state e = EM_QUEUE_STATE_INIT) \<and>
     (q_type e \<in> sched_types \<longrightarrow> env_qgrp_elem env (q_queue_group e) \<and> env_qgrp_allocated env (q_queue_group e))"

lemma state_check_values:
  "queue_state_change__check st EM_QUEUE_STATE_INVALID False = EM_OK \<longleftrightarrow> st = EM_QUEUE_STATE_INIT"
  "queue_state_change__check st EM_QUEUE_STATE_READY True = EM_OK \<longleftrightarrow> st = EM_QUEUE_STATE_BIND"
  "queue_state_change__check st EM_QUEUE_STATE_BIND False = EM_OK \<longleftrightarrow> st = EM_QUEUE_STATE_READY"
  "queue_state_change__check old new b \<noteq> EM_OK \<Longrightarrow> queue_state_change__check old new b = EM_ERR_BAD_STATE"
proof -
  have up: "(ucast a :: u32) = ucast b \<longleftrightarrow> a = b" for a b :: u8
    using unat_ucast_up [where 'a = 8 and 'b = 32, of a] unat_ucast_up [where 'a = 8 and 'b = 32, of b]
    by (auto simp: word_unat_eq_iff)
  have diff: "c - x = 1 \<longleftrightarrow> x = c - 1" for c x :: u32
  proof
    assume "c - x = 1"
    then have "c - (c - x) = c - 1" by simp
    then show "x = c - 1" by simp
  qed simp
  show "queue_state_change__check st EM_QUEUE_STATE_INVALID False = EM_OK \<longleftrightarrow> st = EM_QUEUE_STATE_INIT"
    using up [of st 1] by (simp add: queue_state_change__check_def queue_state_defs status_simps Let_def)
  show "queue_state_change__check st EM_QUEUE_STATE_READY True = EM_OK \<longleftrightarrow> st = EM_QUEUE_STATE_BIND"
    using up [of st 2] diff [of 3 "ucast st"] by (simp add: queue_state_change__check_def queue_state_defs status_simps Let_def)
  show "queue_state_change__check st EM_QUEUE_STATE_BIND False = EM_OK \<longleftrightarrow> st = EM_QUEUE_STATE_READY"
    using up [of st 3] diff_eq_eq [of "ucast st" 2 "1 :: u32"]
    by (simp add: queue_state_change__check_def queue_state_defs status_simps Let_def)
qed (simp add: queue_state_change__check_def Let_def split: if_splits)

lemma queue_delete_result:
  assumes w: "queue_wf FS FD FA s" and i: "i \<in> used FS FD s"
    and d: "env_odp_queue_destroy env (odp_queue (queue_elem s i)) = 0" and q: "queue_delete env i s = (st, s')"
  shows "if deletable env (queue_elem s i) then st = EM_OK \<and> (\<exists>as. children FA s i as \<and> delete_done i as FS FD FA s s')
    else st \<noteq> EM_OK \<and> s' = s"
proof -
  let ?e = "queue_elem s i"
  have r: "queue_rep FS FD FA s" and ok: "elem_ok FA s i" using w i by (simp_all add: queue_wf_def)
  have al: "queue_allocated s i" by (rule allocated_iff(1) [OF r i])
  have ty: "q_type ?e \<in> queue_types" using ok by (simp add: elem_ok_def Let_def)
  obtain as where c: "children FA s i as" using ok by (auto simp: elem_ok_def)
  show ?thesis
  proof (cases "deletable env ?e")
    case False
    then show ?thesis using q al ty state_check_values(1) [of "q_state ?e"]
      by (auto simp: queue_delete_def Let_def deletable_def queue_types_def sched_types_def status_simps split: if_splits)
  next
    case True
    let ?s1 = "if q_type ?e \<in> sched_types then queue_group_rem_queue_list (q_queue_group ?e) i s
      else if q_type ?e = EM_QUEUE_TYPE_OUTPUT then queue_delete_output i s else s"
    have q1: "queue_delete env i s = queue_delete_end env i ?s1"
      using True al ty state_check_values(1) [of "q_state ?e"]
      by (auto simp: queue_delete_def Let_def deletable_def queue_types_def sched_types_def)
    have m1: "mem_same s ?s1" by (simp add: queue_group_rem_queue_list_def queue_delete_output_def same_defs Let_def)
    have e1: "queue_elem ?s1 i = ?e\<lparr>output_fn_args_event := output_fn_args_event (queue_elem ?s1 i)\<rparr>"
      "\<forall>j. j \<noteq> i \<longrightarrow> queue_elem ?s1 j = queue_elem s j"
      by (simp_all add: queue_group_rem_queue_list_def queue_delete_output_def Let_def)
    have fr: "queue_frame s ?s1" by (rule mem_same_frame [OF m1])
    have opt: "qs_opt ?s1 = qs_opt s" using fr by (simp add: queue_frame_def)
    have r1: "queue_rep FS FD FA ?s1" by (rule mem_same_rep [OF m1 r])
    have i1: "i \<in> used FS FD ?s1" using i by (simp add: used_def opt)
    have ni: "i \<notin> set as" using c used_lt [OF r i] by (auto simp: children_def)
    have sel: "has_aggr (queue_elem ?s1 i) = has_aggr ?e" "aggr_queues (queue_elem ?s1 i) = aggr_queues ?e"
      "q_state (queue_elem ?s1 i) = q_state ?e" "odp_queue (queue_elem ?s1 i) = odp_queue ?e"
      "in_atomic_group (queue_elem ?s1 i) = in_atomic_group ?e" by (subst e1(1), simp)+
    have ea: "queue_elem ?s1 a = queue_elem s a" if "a \<in> set as" for a
    proof -
      have "a \<noteq> i" using ni that by blast
      then show ?thesis by (rule e1(2) [rule_format])
    qed
    have c1: "children FA ?s1 i as"
      using c ea frame_hdl [OF fr] unfolding children_def sel opt by (simp cong: map_cong)
    obtain t where t: "queue_delete_end env i ?s1 = (EM_OK, t)" "elems_only (insert i (set as)) ?s1 t"
      "qgrp_queues t = qgrp_queues ?s1" "qgrp_num_queues t = qgrp_num_queues ?s1" "out_same ?s1 t"
      "in_atomic_group ?e \<or> lists_same ?s1 t"
      "queue_rep (gave i (static_idx (qs_opt s)) FS) (gave i (dyn_idx (qs_opt s)) FD) (FA \<union> set as) t"
      using delete_end_rep [OF r1 i1 c1, of env] d unfolding sel opt by auto
    have eo: "elems_only (insert i (set as)) s t"
    proof (rule elems_only_trans [OF _ t(2)])
      show "elems_only (insert i (set as)) s ?s1" unfolding elems_only_def using fr e1(2) by blast
    qed
    have "i \<in> members (used FS FD s) s (q_queue_group ?e)" if "q_type ?e \<in> sched_types" using i that by (simp add: members_def)
    then have ne: "qgrp_queues s (q_queue_group ?e) \<noteq> []" if "q_type ?e \<in> sched_types"
      using w that unfolding queue_wf_def groups_ok_def by (metis empty_iff empty_set)
    have "delete_done i as FS FD FA s t"
      using t(3-7) eo ne unfolding delete_done_def Let_def
      by (auto simp: queue_group_rem_queue_list_def queue_delete_output_def Let_def lists_same_def out_same_def sched_types_def)
    then show ?thesis using q q1 t(1) c True by auto
  qed
qed

section \<open>Changing the state\<close>

definition set_states :: "nat set \<Rightarrow> queue_state_t \<Rightarrow> queue_shm \<Rightarrow> queue_shm" where
  "set_states A st s = s\<lparr>queue_elem := (\<lambda>j. if j \<in> A then (queue_elem s j)\<lparr>q_state := st\<rparr> else queue_elem s j)\<rparr>"

lemma set_states_same:
  "mem_same s (set_states A st s)" "lists_same s (set_states A st s)" "out_same s (set_states A st s)"
  "elems_only A s (set_states A st s)"
  by (auto simp: set_states_def same_defs elems_only_def)

lemma propagate_fold:
  assumes "queue_tbl_ok s" "\<forall>a \<in> set as. a < unat (max_queue_num s)"
  shows "fold (\<lambda>q s. case get_elem s (ucast q) of None \<Rightarrow> s | Some a \<Rightarrow> upd_elem a (\<lambda>e. e\<lparr>q_state := st\<rparr>) s)
      (map (\<lambda>a. q_queue (queue_elem s a)) as) s = set_states (set as) st s"
  using assms
proof (induction as arbitrary: s)
  case Nil
  then show ?case by (simp add: set_states_def)
next
  case (Cons a as)
  let ?s = "upd_elem a (\<lambda>e. e\<lparr>q_state := st\<rparr>) s"
  have fr: "queue_frame s ?s" by (rule mem_same_frame, rule upd_elem_same(1)) simp
  have g: "get_elem s (ucast (q_queue (queue_elem s a))) = Some a" using get_queue_hdl [OF Cons.prems(1), of a] Cons.prems(2) by simp
  have m: "map (\<lambda>a. q_queue (queue_elem s a)) as = map (\<lambda>a. q_queue (queue_elem ?s a)) as" by simp
  have IH: "fold (\<lambda>q s. case get_elem s (ucast q) of None \<Rightarrow> s | Some a \<Rightarrow> upd_elem a (\<lambda>e. e\<lparr>q_state := st\<rparr>) s)
      (map (\<lambda>a. q_queue (queue_elem ?s a)) as) ?s = set_states (set as) st ?s"
    by (rule Cons.IH [OF frame_tbl_ok [OF fr Cons.prems(1)]]) (use Cons.prems(2) in simp)
  have "set_states (set as) st ?s = set_states (set (a # as)) st s"
    by (auto simp: set_states_def upd_elem_def fun_eq_iff)
  then show ?case using g IH unfolding m [symmetric] by simp
qed

lemma queue_state_set_result:
  assumes w: "queue_wf FS FD FA s" and i: "i \<in> used FS FD s" and n: "st \<in> {EM_QUEUE_STATE_BIND, EM_QUEUE_STATE_READY}"
  shows "if q_state (queue_elem s i) \<in> {EM_QUEUE_STATE_BIND, EM_QUEUE_STATE_READY}
    then \<exists>as. children FA s i as \<and> queue_state_set i st s =
      (EM_OK, if q_state (queue_elem s i) = st then s else set_states (insert i (set as)) st s)
    else queue_state_set i st s = (EM_ERR_BAD_STATE, s)"
proof -
  let ?old = "q_state (queue_elem s i)"
  have r: "queue_rep FS FD FA s" using w by (simp add: queue_wf_def)
  obtain as where c: "children FA s i as" using w i by (auto simp: queue_wf_def elem_ok_def)
  have ni: "i \<notin> set as" using c used_lt [OF r i] by (auto simp: children_def)
  have ids: "EM_QUEUE_STATE_BIND \<noteq> EM_QUEUE_STATE_READY" by (simp add: queue_state_defs)
  consider (same) "st = ?old" | (ok) "st \<noteq> ?old" "?old \<in> {EM_QUEUE_STATE_BIND, EM_QUEUE_STATE_READY}"
    | (bad) "st \<noteq> ?old" "?old \<notin> {EM_QUEUE_STATE_BIND, EM_QUEUE_STATE_READY}" by blast
  then show ?thesis
  proof cases
    case same
    have "queue_state_set i st s = (EM_OK, s)" using same n by (auto simp: queue_state_set_def Let_def)
    then show ?thesis using c same n by auto
  next
    case bad
    have "queue_state_change__check ?old st (st = EM_QUEUE_STATE_READY) \<noteq> EM_OK"
      using n bad(2) state_check_values(2,3) ids by auto
    then show ?thesis using bad n state_check_values(4) by (auto simp: queue_state_set_def Let_def)
  next
    case ok
    let ?s = "upd_elem i (\<lambda>e. e\<lparr>q_state := st\<rparr>) s"
    have chk: "queue_state_change__check ?old st (st = EM_QUEUE_STATE_READY) = EM_OK"
      using n ok state_check_values(2,3) ids by auto
    have fr: "queue_frame s ?s" by (rule mem_same_frame, rule upd_elem_same(1)) simp
    have lt: "\<forall>a \<in> set as. a < unat (max_queue_num ?s)"
      using c idx_lt(3) [OF queue_repD(2) [OF r]] by (auto simp: children_def)
    have aq: "aggr_queues (queue_elem ?s i) = map (\<lambda>a. q_queue (queue_elem ?s a)) as"
      using c ni by (auto simp: children_def)
    have "propagate_state i st ?s = set_states (set as) st ?s"
      unfolding propagate_state_def aq by (rule propagate_fold [OF frame_tbl_ok [OF fr queue_repD(1) [OF r]] lt])
    also have "\<dots> = set_states (insert i (set as)) st s" by (auto simp: set_states_def upd_elem_def fun_eq_iff)
    finally have p: "propagate_state i st ?s = set_states (insert i (set as)) st s" .
    have e: "\<not> has_aggr (queue_elem s i) \<Longrightarrow> ?s = set_states (insert i (set as)) st s"
      using c by (auto simp: children_def set_states_def upd_elem_def fun_eq_iff)
    have "queue_state_set i st s = (EM_OK, set_states (insert i (set as)) st s)"
      using ok(1) chk p e by (auto simp: queue_state_set_def Let_def)
    then show ?thesis using ok c by auto
  qed
qed

lemma set_states_wf:
  assumes w: "queue_wf FS FD FA s" and i: "i \<in> used FS FD s" and c: "children FA s i as"
    and st: "st \<in> states_of (q_type (queue_elem s i))"
  shows "queue_wf FS FD FA (set_states (insert i (set as)) st s)" (is "queue_wf FS FD FA ?s")
proof -
  note sm = set_states_same [where s = s and A = "insert i (set as)" and st = st]
  have r: "queue_rep FS FD FA s" "queue_rep FS FD FA ?s" using w mem_same_rep [OF sm(1)] by (simp_all add: queue_wf_def)
  have opt: "qs_opt ?s = qs_opt s" by (simp add: set_states_def)
  have u: "used FS FD ?s = used FS FD s" by (simp add: used_def opt)
  have keep: "q_type (queue_elem ?s j) = q_type (queue_elem s j)" "valid_check (queue_elem ?s j) = valid_check (queue_elem s j)"
    "scheduled (queue_elem ?s j) = scheduled (queue_elem s j)" "q_queue_group (queue_elem ?s j) = q_queue_group (queue_elem s j)"
    "has_aggr (queue_elem ?s j) = has_aggr (queue_elem s j)" "aggr_queues (queue_elem ?s j) = aggr_queues (queue_elem s j)"
    "q_queue (queue_elem ?s j) = q_queue (queue_elem s j)" "parent_queue (queue_elem ?s j) = parent_queue (queue_elem s j)" for j
    by (simp_all add: set_states_def)
  have hd: "queue_hdl ?s j = queue_hdl s j" for j by (simp add: queue_hdl_def keep)
  have ck: "children FA ?s j bs" if j: "j \<in> used FS FD s" and b: "children FA s j bs" for j bs
  proof -
    have eq: "set bs = set as" if "j = i"
      using that b c queue_repD(1,2) [OF r(1)] by (metis children_set)
    have ni: "j \<notin> set as" "j \<noteq> i \<Longrightarrow> set bs \<inter> insert i (set as) = {}"
      using c b used_lt [OF r(1) j] used_lt [OF r(1) i] children_disjoint [OF r(1) i j c b] by (auto simp: children_def)
    have "\<forall>a \<in> set bs. q_state (queue_elem ?s a) \<in> aggr_states (q_state (queue_elem ?s j))"
      using b eq ni by (cases "j = i") (auto simp: set_states_def children_def)
    then show ?thesis using b unfolding children_def keep hd opt by simp
  qed
  have e: "elem_ok FA ?s j" if j: "j \<in> used FS FD s" for j
  proof -
    have "elem_ok FA s j" using w j by (simp add: queue_wf_def)
    moreover have "q_state (queue_elem ?s j) \<in> states_of (q_type (queue_elem s j))"
      using calculation st c used_lt [OF r(1) j] by (auto simp: set_states_def elem_ok_def Let_def children_def)
    ultimately show ?thesis using ck [OF j] unfolding elem_ok_def Let_def keep by blast
  qed
  have g: "groups_ok (used FS FD ?s) ?s"
    using w sm(2) unfolding queue_wf_def groups_ok_def members_def keep u lists_same_def by simp
  have n: "no_orphan (used FS FD ?s) FA ?s" using w ck unfolding queue_wf_def no_orphan_def u opt by blast
  show ?thesis unfolding queue_wf_def using r(2) e g n u by simp
qed

end
