(* ===== verification/QueueApi.thy ===== *)
theory QueueApi
  imports QueueLife
begin

text \<open>
  The functions of the API (\<^verbatim>\<open>event_machine_queue.c\<close>) over the queue table, sequences of them, and the
  properties of creating, deleting, enabling and walking queues. \<^verbatim>\<open>chk\<close> is EM_CHECK_LEVEL. A function
  that reports an error and returns an undefined value yields the report on the left.
\<close>

section \<open>Creating and deleting\<close>

definition em_queue_create ::
  "queue_env \<Rightarrow> string option \<Rightarrow> em_queue_type_t \<Rightarrow> u32 \<Rightarrow> hdl \<Rightarrow> em_queue_conf option \<Rightarrow> queue_shm \<Rightarrow>
     em_queue_t reported \<times> queue_shm" where
  "em_queue_create env name type prio queue_group conf s =
     (if num_dynamic (qs_opt s) = 0 then (Inl (EM_ERR_NOT_SUPPORTED, ''EM_ESCOPE_QUEUE_CREATE''), s)
      else let param = queue_param_apply_conf
                 (em_queue_param_init\<lparr>qp_type := type, qp_prio := prio, qp_queue_group := queue_group\<rparr>) conf
      in case queue_create_param env name param s of
           (Inl e, s1) \<Rightarrow> (Inl (EM_ERR_LIB_FAILED, ''EM_ESCOPE_QUEUE_CREATE''), s1)
         | (Inr q, s1) \<Rightarrow> (Inr q, s1))"

definition em_queue_create_static ::
  "queue_env \<Rightarrow> string option \<Rightarrow> em_queue_type_t \<Rightarrow> u32 \<Rightarrow> hdl \<Rightarrow> em_queue_t \<Rightarrow> em_queue_conf option \<Rightarrow> queue_shm \<Rightarrow>
     em_status_t reported \<times> queue_shm" where
  "em_queue_create_static env name type prio queue_group queue conf s =
     (let sc = ''EM_ESCOPE_QUEUE_CREATE_STATIC''
      in if num_static (qs_opt s) = 0 then (Inl (EM_ERR_NOT_SUPPORTED, sc), s)
         else if queue = EM_QUEUE_UNDEF then (Inl (EM_ERR_BAD_ARG, sc), s)
         else if iq_queue_id queue < first_static_queue_id (qs_ids s) \<or> iq_queue_id queue > last_static_queue_id (qs_ids s)
         then (Inl (EM_ERR_BAD_ARG, sc), s)
         else
         let param = queue_param_apply_conf
               (em_queue_param_init\<lparr>qp_queue := queue, qp_type := type, qp_prio := prio, qp_queue_group := queue_group\<rparr>) conf
         in case queue_create_param env name param s of
              (Inl e, s1) \<Rightarrow> (Inl (EM_ERR_NOT_FREE, sc), s1)
            | (Inr q, s1) \<Rightarrow>
                if q \<noteq> queue
                then (case get_elem s1 q of
                        None \<Rightarrow> (Inl (or 0x80000000 EM_ERR_BAD_POINTER, sc), s1)
                      | Some i \<Rightarrow> (Inl (EM_ERR_BAD_ID, sc), snd (queue_delete env i s1)))
                else (Inr EM_OK, s1))"

definition em_queue_create_param ::
  "queue_env \<Rightarrow> string option \<Rightarrow> em_queue_param option \<Rightarrow> queue_shm \<Rightarrow> em_queue_t reported \<times> queue_shm" where
  "em_queue_create_param env name param s =
     (case param of
        None \<Rightarrow> (Inl (EM_ERR_NOT_INITIALIZED, ''EM_ESCOPE_QUEUE_CREATE_PARAM''), s)
      | Some p \<Rightarrow>
          if \<not> qp_init_called p then (Inl (EM_ERR_NOT_INITIALIZED, ''EM_ESCOPE_QUEUE_CREATE_PARAM''), s)
          else (case queue_create_param env name p s of
                  (Inl e, s1) \<Rightarrow> (Inl (EM_ERR_LIB_FAILED, ''EM_ESCOPE_QUEUE_CREATE_PARAM''), s1)
                | (Inr q, s1) \<Rightarrow> (Inr q, s1)))"

text \<open>\<^verbatim>\<open>valid_queue\<close>: the element of an allocated queue; most functions start with this check.\<close>

definition valid_queue :: "queue_shm \<Rightarrow> em_queue_t \<Rightarrow> nat option" where
  "valid_queue s q = (case get_elem s q of None \<Rightarrow> None | Some i \<Rightarrow> if queue_allocated s i then Some i else None)"

definition em_queue_delete :: "queue_env \<Rightarrow> em_queue_t \<Rightarrow> queue_shm \<Rightarrow> em_status_t reported \<times> queue_shm" where
  "em_queue_delete env queue s =
     (case valid_queue s queue of
        None \<Rightarrow> (Inl (EM_ERR_BAD_ARG, ''EM_ESCOPE_QUEUE_DELETE''), s)
      | Some i \<Rightarrow>
          (case queue_delete env i s of
             (status, s1) \<Rightarrow> (if status \<noteq> EM_OK then Inl (status, ''EM_ESCOPE_QUEUE_DELETE'') else Inr status, s1)))"

section \<open>Reading and writing an element\<close>

text \<open>
  \<^verbatim>\<open>checked\<close> is the check \<^verbatim>\<open>EM_CHECK_LEVEL > 0 && (queue_elem == NULL || !queue_allocated(queue_elem))\<close>;
  at level 0 a NULL element is dereferenced.
\<close>

definition checked :: "nat \<Rightarrow> queue_shm \<Rightarrow> em_queue_t \<Rightarrow> em_escope_t \<Rightarrow> (em_status_t \<times> em_escope_t) + nat" where
  "checked chk s q sc =
     (if chk > 0 then (case valid_queue s q of None \<Rightarrow> Inl (EM_ERR_BAD_ARG, sc) | Some i \<Rightarrow> Inr i)
      else (case get_elem s q of None \<Rightarrow> Inl null_deref | Some i \<Rightarrow> Inr i))"

definition em_queue_set_context :: "nat \<Rightarrow> em_queue_t \<Rightarrow> nat \<Rightarrow> queue_shm \<Rightarrow> em_status_t reported \<times> queue_shm" where
  "em_queue_set_context chk q ctx s =
     (case checked chk s q ''EM_ESCOPE_QUEUE_SET_CONTEXT'' of
        Inl e \<Rightarrow> (Inl e, s)
      | Inr i \<Rightarrow> (Inr EM_OK, upd_elem i (\<lambda>e. e\<lparr>q_context := ctx\<rparr>) s))"

definition em_queue_context :: "nat \<Rightarrow> em_queue_t \<Rightarrow> queue_shm \<Rightarrow> nat reported" where
  "em_queue_context chk q s =
     (case get_elem s q of
        None \<Rightarrow> Inl (if chk > 0 then (EM_ERR_BAD_ARG, ''EM_ESCOPE_QUEUE_CONTEXT'') else null_deref)
      | Some i \<Rightarrow>
          if chk \<ge> 2 \<and> \<not> queue_allocated s i then Inl (EM_ERR_NOT_CREATED, ''EM_ESCOPE_QUEUE_CONTEXT'')
          else Inr (q_context (queue_elem s i)))"

definition queue_name :: "nat \<Rightarrow> u64 \<Rightarrow> queue_shm \<Rightarrow> u64 \<times> string" where
  "queue_name i maxlen s =
     (let nm = queue_names s i;
          len = (of_nat (min (length nm) (EM_QUEUE_NAME_LEN - 1)) :: u64);
          len1 = (if maxlen - 1 < len then maxlen - 1 else len)
      in (len1, take (unat len1) nm))"

definition em_queue_name :: "nat \<Rightarrow> em_queue_t \<Rightarrow> u64 \<Rightarrow> queue_shm \<Rightarrow> (u64 \<times> string) reported" where
  "em_queue_name chk q maxlen s =
     (if chk > 0 \<and> maxlen = 0 then Inl (EM_ERR_BAD_ARG, ''EM_ESCOPE_QUEUE_NAME'')
      else (case checked chk s q ''EM_ESCOPE_QUEUE_NAME'' of Inl e \<Rightarrow> Inl e | Inr i \<Rightarrow> Inr (queue_name i maxlen s)))"

definition em_queue_find :: "string option \<Rightarrow> queue_shm \<Rightarrow> em_queue_t" where
  "em_queue_find name s =
     (case name of
        None \<Rightarrow> EM_QUEUE_UNDEF
      | Some nm \<Rightarrow>
          if nm = [] then EM_QUEUE_UNDEF
          else (case first_idx (\<lambda>i. queue_allocated s i \<and> take EM_QUEUE_NAME_LEN nm = take EM_QUEUE_NAME_LEN (queue_names s i))
                       0 (unat (max_queue_num s)) of
                  None \<Rightarrow> EM_QUEUE_UNDEF
                | Some i \<Rightarrow> queue_hdl s i))"

definition em_queue_priority :: "nat \<Rightarrow> em_queue_t \<Rightarrow> queue_shm \<Rightarrow> u8 reported" where
  "em_queue_priority chk q s =
     (case checked chk s q ''EM_ESCOPE_QUEUE_PRIORITY'' of Inl e \<Rightarrow> Inl e | Inr i \<Rightarrow> Inr (q_priority (queue_elem s i)))"

definition em_queue_type :: "nat \<Rightarrow> em_queue_t \<Rightarrow> queue_shm \<Rightarrow> em_queue_type_t reported" where
  "em_queue_type chk q s =
     (case checked chk s q ''EM_ESCOPE_QUEUE_TYPE'' of Inl e \<Rightarrow> Inl e | Inr i \<Rightarrow> Inr (q_type (queue_elem s i)))"

definition em_queue_static_handle :: "u16 \<Rightarrow> queue_shm \<Rightarrow> em_queue_t reported" where
  "em_queue_static_handle static_offset s =
     (if num_static (qs_opt s) = 0 then Inl (EM_ERR_NOT_SUPPORTED, ''EM_ESCOPE_QUEUE_STATIC_HANDLE'')
      else if ucast static_offset \<ge> num_static (qs_opt s) then Inl (EM_ERR_BAD_ARG, ''EM_ESCOPE_QUEUE_STATIC_HANDLE'')
      else Inr (queue_id2hdl (qs_device_id s) (first_static_queue_id (qs_ids s) + static_offset)))"

definition em_queue_qgroup :: "nat \<Rightarrow> em_queue_t \<Rightarrow> queue_shm \<Rightarrow> hdl reported" where
  "em_queue_qgroup chk q s =
     (case checked chk s q ''EM_ESCOPE_QUEUE_QGROUP'' of
        Inl e \<Rightarrow> Inl e
      | Inr i \<Rightarrow> Inr (if q_state (queue_elem s i) = EM_QUEUE_STATE_INVALID then 0 else q_queue_group (queue_elem s i)))"

definition em_queue_agroup :: "em_queue_t \<Rightarrow> queue_shm \<Rightarrow> hdl reported" where
  "em_queue_agroup q s =
     (case valid_queue s q of
        None \<Rightarrow> Inl (EM_ERR_BAD_ARG, ''EM_ESCOPE_QUEUE_AGROUP'')
      | Some i \<Rightarrow> Inr (if in_atomic_group (queue_elem s i) then q_atomic_group (queue_elem s i) else 0))"

definition em_queue_aggr_num :: "nat \<Rightarrow> em_queue_t \<Rightarrow> queue_shm \<Rightarrow> nat reported" where
  "em_queue_aggr_num chk q s =
     (case checked chk s q ''EM_ESCOPE_QUEUE_AGGR_NUM'' of
        Inl e \<Rightarrow> Inl e
      | Inr i \<Rightarrow> Inr (if \<not> has_aggr (queue_elem s i) then 0 else length (aggr_queues (queue_elem s i))))"

definition em_queue_aggr :: "nat \<Rightarrow> em_queue_t \<Rightarrow> u32 \<Rightarrow> queue_shm \<Rightarrow> em_queue_t reported" where
  "em_queue_aggr chk q aggr_index s =
     (case checked chk s q ''EM_ESCOPE_QUEUE_AGGR'' of
        Inl e \<Rightarrow> Inl e
      | Inr i \<Rightarrow>
          let qs = aggr_queues (queue_elem s i)
          in Inr (if \<not> has_aggr (queue_elem s i) \<or> unat aggr_index \<ge> length qs then EM_QUEUE_UNDEF
                  else ucast (qs ! unat aggr_index)))"

text \<open>The result is the array written and the number stored through \<^verbatim>\<open>num_aggr\<close>.\<close>

definition em_queue_aggr_list :: "nat \<Rightarrow> em_queue_t \<Rightarrow> u32 \<Rightarrow> queue_shm \<Rightarrow> (em_queue_t list \<times> nat) reported" where
  "em_queue_aggr_list chk q max_num s =
     (case checked chk s q ''EM_ESCOPE_QUEUE_AGGR_LIST'' of
        Inl e \<Rightarrow> Inl e
      | Inr i \<Rightarrow>
          if \<not> has_aggr (queue_elem s i) then Inr ([], 0)
          else let qs = aggr_queues (queue_elem s i)
               in Inr (map ucast (take (min (length qs) (unat max_num)) qs), length qs))"

definition em_queue_index :: "nat \<Rightarrow> em_queue_t \<Rightarrow> queue_shm \<Rightarrow> int reported" where
  "em_queue_index chk q s =
     (let idx = queue_id2idx (iq_queue_id q)
      in if uint (word_of_int idx :: u16) > int (unat (max_queue_num s)) - 1 then Inl (EM_ERR_BAD_ARG, ''EM_ESCOPE_QUEUE_INDEX'')
         else if chk > 0 \<and> iq_device_id q \<noteq> qs_device_id s then Inl (EM_ERR_BAD_ARG, ''EM_ESCOPE_QUEUE_INDEX'')
         else if chk \<ge> 3 \<and> \<not> queue_allocated s (nat idx) then Inl (EM_ERR_BAD_ARG, ''EM_ESCOPE_QUEUE_INDEX'')
         else Inr idx)"

section \<open>Walking over the queues\<close>

text \<open>\<^verbatim>\<open>_queue_tbl_iter_idx\<close> is the second component.\<close>

definition em_queue_first :: "queue_shm \<Rightarrow> em_queue_t \<times> nat" where
  "em_queue_first s =
     (let max_queues = unat (max_queue_num s)
      in if queue_count s = 0 then (EM_QUEUE_UNDEF, max_queues)
         else (case first_idx (queue_allocated s) 0 max_queues of
                 None \<Rightarrow> (EM_QUEUE_UNDEF, max_queues)
               | Some i \<Rightarrow> (queue_idx2hdl (qs_device_id s) (int i), i)))"

definition em_queue_next :: "queue_shm \<Rightarrow> nat \<Rightarrow> em_queue_t \<times> nat" where
  "em_queue_next s idx =
     (let max_queues = unat (max_queue_num s)
      in if idx \<ge> max_queues - 1 then (EM_QUEUE_UNDEF, idx)
         else (case first_idx (queue_allocated s) (Suc idx) (max_queues - Suc idx) of
                 None \<Rightarrow> (EM_QUEUE_UNDEF, max_queues)
               | Some i \<Rightarrow> (queue_idx2hdl (qs_device_id s) (int i), i)))"

definition opt_hdl :: "em_queue_t \<times> nat \<Rightarrow> em_queue_t option \<times> nat" where
  "opt_hdl r = (if fst r = EM_QUEUE_UNDEF then None else Some (fst r), snd r)"

lemma hdl_defined:
  fixes s :: queue_shm
  assumes "i < unat (max_queue_num s)"
  shows "queue_idx2hdl (qs_device_id s) (int i) \<noteq> EM_QUEUE_UNDEF"
proof
  assume z: "queue_idx2hdl (qs_device_id s) (int i) = EM_QUEUE_UNDEF"
  have "uint (max_queue_num s) < 2 ^ LENGTH(16)" by (rule unsigned_less)
  moreover have "uint (- 1 :: u16) = 65535" by code_simp
  ultimately have "get_elem s EM_QUEUE_UNDEF = None"
    by (simp add: get_elem_def queue_elem_get_def EM_QUEUE_UNDEF_def iq_queue_id_def queue_id2idx_def Let_def)
  then show False using get_elem_hdl [OF assms] z by simp
qed

interpretation queue_iter: table_iter "unat (max_queue_num s)" "unat (queue_count s)" "queue_allocated s"
    "\<lambda>i. queue_idx2hdl (qs_device_id s) (int i)" "opt_hdl (em_queue_first s)" "\<lambda>j. opt_hdl (em_queue_next s j)"
  for s :: queue_shm
proof (unfold_locales, goal_cases)
  case 1
  then show ?case by (simp add: em_queue_first_def opt_hdl_def unat_zero_iff Let_def)
next
  case 2
  then show ?case by (simp add: em_queue_first_def opt_hdl_def Let_def)
next
  case (3 i)
  then show ?case using hdl_defined [of i s] first_idx_SomeD [OF 3(2)]
    by (simp add: em_queue_first_def opt_hdl_def unat_zero_iff Let_def)
next
  case (4 j)
  then show ?case by (simp add: em_queue_next_def opt_hdl_def Let_def)
next
  case (5 j i)
  then have "Suc j \<le> i" "i < unat (max_queue_num s)" using first_idx_SomeD [OF 5(2)] by auto
  with 5 hdl_defined [of i s] show ?case by (auto simp: em_queue_next_def opt_hdl_def Let_def)
qed

section \<open>Sequences of operations\<close>

text \<open>
  The operations on queues that the API offers, and enabling and disabling as the EO functions do it.
  \<^verbatim>\<open>queue_op_legal\<close>: \<^verbatim>\<open>odp_queue_destroy\<close> succeeds, and an EO only enables and disables queues that are
  in use and are not aggregator queues.
\<close>

datatype queue_op =
    Create queue_env "string option" em_queue_type_t u32 hdl "em_queue_conf option"
  | CreateStatic queue_env "string option" em_queue_type_t u32 hdl em_queue_t "em_queue_conf option"
  | CreateParam queue_env "string option" "em_queue_param option"
  | Delete queue_env em_queue_t
  | SetContext nat em_queue_t nat
  | Enable "nat option"
  | Disable "nat option"

fun queue_op_run :: "queue_op \<Rightarrow> queue_shm \<Rightarrow> queue_shm" where
  "queue_op_run (Create env name t prio g conf) s = snd (em_queue_create env name t prio g conf s)"
| "queue_op_run (CreateStatic env name t prio g q conf) s = snd (em_queue_create_static env name t prio g q conf s)"
| "queue_op_run (CreateParam env name p) s = snd (em_queue_create_param env name p s)"
| "queue_op_run (Delete env q) s = snd (em_queue_delete env q s)"
| "queue_op_run (SetContext chk q c) s = snd (em_queue_set_context chk q c s)"
| "queue_op_run (Enable q) s = snd (queue_enable q s)"
| "queue_op_run (Disable q) s = snd (queue_disable q s)"

definition a_queue :: "nat option \<Rightarrow> queue_shm \<Rightarrow> bool" where
  "a_queue q s \<longleftrightarrow> (case q of None \<Rightarrow> True
     | Some i \<Rightarrow> i < unat (max_queue_num s) \<and> (queue_allocated s i \<longrightarrow> q_type (queue_elem s i) \<noteq> EM_QUEUE_TYPE_AGGR))"

fun queue_op_legal :: "queue_op \<Rightarrow> queue_shm \<Rightarrow> bool" where
  "queue_op_legal (CreateStatic env _ _ _ _ _ _) s = (\<forall>q. env_odp_queue_destroy env q = 0)"
| "queue_op_legal (Delete env q) s = (\<forall>q. env_odp_queue_destroy env q = 0)"
| "queue_op_legal (Enable q) s = a_queue q s"
| "queue_op_legal (Disable q) s = a_queue q s"
| "queue_op_legal _ s = True"

fun queue_run :: "queue_op list \<Rightarrow> queue_shm \<Rightarrow> queue_shm" where
  "queue_run [] s = s"
| "queue_run (x # xs) s = queue_run xs (queue_op_run x s)"

fun queue_legal :: "queue_op list \<Rightarrow> queue_shm \<Rightarrow> bool" where
  "queue_legal [] s = True"
| "queue_legal (x # xs) s = (queue_op_legal x s \<and> queue_legal xs (queue_op_run x s))"

definition wf_table :: "queue_shm \<Rightarrow> bool" where
  "wf_table s \<longleftrightarrow> (\<exists>FS FD FA. queue_wf FS FD FA s)"

lemma create_param_wf:
  assumes "queue_wf FS FD FA s" "queue_create_param env name param s = (x, s')"
  shows "wf_table s'"
proof -
  have r: "queue_rep FS FD FA s" using assms(1) by (simp add: queue_wf_def)
  note c = queue_create_result [OF r assms(2)]
  show ?thesis
  proof (cases x)
    case (Inl e)
    then show ?thesis using c create_failed_wf [OF assms(1)] by (auto simp: wf_table_def)
  next
    case (Inr q)
    then obtain i as where d: "create_done env param FS FD FA s q i as s'" using c by auto
    show ?thesis using create_done_wf [OF assms(1) d create_types(1)] assms(2) Inr unfolding wf_table_def by blast
  qed
qed

text \<open>An allocated queue is a queue in use or an aggregator queue, which the deletion refuses.\<close>

lemma valid_queue_cases:
  assumes w: "queue_wf FS FD FA s" and lt: "i < unat (max_queue_num s)" and al: "queue_allocated s i"
  shows "i \<in> used FS FD s \<or> q_type (queue_elem s i) = EM_QUEUE_TYPE_AGGR"
proof (cases "i \<in> aggr_idx (qs_opt s)")
  case True
  have r: "queue_rep FS FD FA s" using w by (simp add: queue_wf_def)
  have "i \<notin> FA" using allocated_iff(2) [OF r True] al by simp
  then show ?thesis using w True unfolding queue_wf_def no_orphan_def children_def by blast
next
  case False
  have r: "queue_rep FS FD FA s" using w by (simp add: queue_wf_def)
  note D = queue_repD [OF r]
  have "i \<in> static_idx (qs_opt s) \<Longrightarrow> i \<notin> FS" "i \<in> dyn_idx (qs_opt s) \<Longrightarrow> i \<notin> FD"
    using pool_allocated [OF D(6), of i] pool_allocated [OF D(7), of i] al by auto
  then show ?thesis using idx_lt(4) [OF D(2) lt] False by (auto simp: used_def)
qed

lemma valid_queueD: "valid_queue s q = Some i \<Longrightarrow> i < unat (max_queue_num s) \<and> queue_allocated s i"
  by (auto simp: valid_queue_def get_elem_def queue_elem_get_iff split: option.splits if_splits)

lemma queue_delete_wf:
  assumes w: "queue_wf FS FD FA s" and lt: "i < unat (max_queue_num s)" and al: "queue_allocated s i"
    and d: "\<forall>q. env_odp_queue_destroy env q = 0"
  shows "wf_table (snd (queue_delete env i s))"
proof -
  obtain st s' where q: "queue_delete env i s = (st, s')" by (rule prod.exhaust)
  consider "q_type (queue_elem s i) = EM_QUEUE_TYPE_AGGR" | "i \<in> used FS FD s" using valid_queue_cases [OF w lt al] by blast
  then show ?thesis
  proof cases
    case 1
    then have "s' = s" using q al by (simp add: queue_delete_def Let_def)
    then show ?thesis using w q unfolding wf_table_def by auto
  next
    case 2
    have "env_odp_queue_destroy env (odp_queue (queue_elem s i)) = 0" using d by blast
    note res = queue_delete_result [OF w 2 this q]
    have "wf_table s'"
    proof (cases "deletable env (queue_elem s i)")
      case True
      then obtain as where "children FA s i as" "delete_done i as FS FD FA s s'" using res by auto
      then show ?thesis using delete_done_wf [OF w 2] unfolding wf_table_def by blast
    next
      case False
      then show ?thesis using res w unfolding wf_table_def by auto
    qed
    then show ?thesis using q by simp
  qed
qed

lemma state_change_wf:
  assumes w: "queue_wf FS FD FA s" and q: "a_queue (Some i) s" "queue_allocated s i"
    and n: "st \<in> {EM_QUEUE_STATE_BIND, EM_QUEUE_STATE_READY}"
  shows "wf_table (snd (queue_state_set i st s))"
proof -
  have i: "i \<in> used FS FD s" using valid_queue_cases [OF w, of i] q by (simp add: a_queue_def)
  note r = queue_state_set_result [OF w i n]
  show ?thesis
  proof (cases "q_state (queue_elem s i) \<in> {EM_QUEUE_STATE_BIND, EM_QUEUE_STATE_READY}")
    case True
    then obtain as where as: "children FA s i as"
      "queue_state_set i st s = (EM_OK, if q_state (queue_elem s i) = st then s else set_states (insert i (set as)) st s)"
      using r by auto
    have "q_state (queue_elem s i) \<in> states_of (q_type (queue_elem s i))" using w i by (simp add: queue_wf_def elem_ok_def Let_def)
    then have "st \<in> states_of (q_type (queue_elem s i))"
      using n True by (auto simp: states_of_def queue_state_defs split: if_splits)
    then show ?thesis using set_states_wf [OF w i as(1)] as(2) w unfolding wf_table_def by auto
  next
    case False
    then show ?thesis using r w unfolding wf_table_def by auto
  qed
qed

lemma set_context_wf:
  assumes w: "queue_wf FS FD FA s"
  shows "queue_wf FS FD FA (upd_elem i (\<lambda>e. e\<lparr>q_context := c\<rparr>) s)" (is "queue_wf FS FD FA ?s")
proof -
  have m: "mem_same s ?s" "lists_same s ?s" by (rule upd_elem_same(1), simp) (rule upd_elem_same(2), simp)
  have sel: "q_type (queue_elem ?s j) = q_type (queue_elem s j)" "valid_check (queue_elem ?s j) = valid_check (queue_elem s j)"
    "scheduled (queue_elem ?s j) = scheduled (queue_elem s j)" "q_state (queue_elem ?s j) = q_state (queue_elem s j)"
    "q_queue_group (queue_elem ?s j) = q_queue_group (queue_elem s j)" "has_aggr (queue_elem ?s j) = has_aggr (queue_elem s j)"
    "aggr_queues (queue_elem ?s j) = aggr_queues (queue_elem s j)" "q_queue (queue_elem ?s j) = q_queue (queue_elem s j)"
    "parent_queue (queue_elem ?s j) = parent_queue (queue_elem s j)" "queue_hdl ?s j = queue_hdl s j" for j
    by (simp_all add: queue_hdl_def)
  have ch: "children FA ?s j as = children FA s j as" for j as unfolding children_def sel by simp
  have "queue_rep FS FD FA ?s" using w mem_same_rep [OF m(1)] by (simp add: queue_wf_def)
  moreover have "used FS FD ?s = used FS FD s" by (simp add: used_def)
  ultimately show ?thesis
    using w m(2) unfolding queue_wf_def elem_ok_def groups_ok_def members_def no_orphan_def ch sel Let_def lists_same_def by simp
qed

lemma queue_op_wf:
  assumes "wf_table s" "queue_op_legal x s"
  shows "wf_table (queue_op_run x s)"
proof -
  obtain FS FD FA where w: "queue_wf FS FD FA s" using assms(1) by (auto simp: wf_table_def)
  have create: "wf_table (snd (queue_create_param env name p s))" for env name p
    using create_param_wf [OF w] by (metis prod.collapse)
  have en: "wf_table (snd (queue_state_change i st s))"
    if "a_queue (Some i) s" "queue_allocated s i" "st \<in> {EM_QUEUE_STATE_BIND, EM_QUEUE_STATE_READY}" for i st
    using state_change_wf [OF w that] by (auto simp: queue_state_change_def split: prod.splits)
  show ?thesis
  proof (cases x)
    case (Create env name t prio g conf)
    then show ?thesis
      using assms(1) create [of env name] by (auto simp: em_queue_create_def Let_def split: prod.splits sum.splits) (metis snd_conv)+
  next
    case (CreateStatic env name t prio g q conf)
    let ?p = "queue_param_apply_conf (em_queue_param_init\<lparr>qp_queue := q, qp_type := t, qp_prio := prio, qp_queue_group := g\<rparr>) conf"
    obtain y s1 where y: "queue_create_param env name ?p s = (y, s1)" by (rule prod.exhaust)
    have s1: "wf_table s1" using create [of env name ?p] y by simp
    have del: "wf_table (snd (queue_delete env i s1))" if "get_elem s1 qq = Some i" for qq i
    proof (cases "queue_allocated s1 i")
      case True
      obtain FS' FD' FA' where w1: "queue_wf FS' FD' FA' s1" using s1 by (auto simp: wf_table_def)
      show ?thesis by (rule queue_delete_wf [OF w1 _ True]) (use that assms(2) CreateStatic in \<open>simp_all add: get_elem_def queue_elem_get_iff\<close>)
    next
      case False
      then show ?thesis using s1 by (simp add: queue_delete_def Let_def)
    qed
    then show ?thesis
      using CreateStatic assms(1) s1 y by (auto simp: em_queue_create_static_def Let_def split: sum.splits option.splits)
  next
    case (CreateParam env name p)
    then show ?thesis
      using assms(1) create [of env name]
      by (auto simp: em_queue_create_param_def split: prod.splits sum.splits option.splits) (metis snd_conv)+
  next
    case (Delete env q)
    then show ?thesis
      using assms queue_delete_wf [OF w, of _ env] valid_queueD [of s q]
      by (auto simp: em_queue_delete_def split: option.splits prod.splits) (metis snd_conv)+
  next
    case (SetContext chk q c)
    have "wf_table (upd_elem i (\<lambda>e. e\<lparr>q_context := c\<rparr>) s)" for i using set_context_wf [OF w] unfolding wf_table_def by blast
    then show ?thesis using assms(1) SetContext by (auto simp: em_queue_set_context_def split: sum.splits)
  next
    case (Enable q)
    then show ?thesis using assms en by (auto simp: queue_enable_def rescope_def Let_def split: option.splits)
  next
    case (Disable q)
    then show ?thesis using assms en by (auto simp: queue_disable_def rescope_def Let_def split: option.splits)
  qed
qed

end
