(* ===== verification/QueueClaims.thy ===== *)
theory QueueClaims
  imports QueueApi
begin

text \<open>
  The properties of the queues: what creating, deleting, enabling and walking over them do from the
  view of a caller, two of them about leaks that the error paths have.
\<close>

section \<open>The table after initialisation\<close>

definition groups_empty :: "queue_shm \<Rightarrow> bool" where
  "groups_empty s \<longleftrightarrow> (\<forall>g. qgrp_queues s g = [] \<and> qgrp_num_queues s g = 0)"

lemma queue_init_groups:
  "queue_init a b c d e s = (r, s') \<Longrightarrow> qgrp_queues s' = qgrp_queues s \<and> qgrp_num_queues s' = qgrp_num_queues s"
  by (auto simp: queue_init_def queue_init_pools_def Let_def split: prod.splits option.splits if_splits)

lemma init_wf:
  assumes raw: "pools_raw s (unat maxn)" and ok: "opt_ok opt maxn" and g: "groups_empty s"
    and i: "queue_init 0 0 (Some (opt, maxn)) True 0 s = (r, s')"
  shows "r = Inr EM_OK \<and> queue_wf (static_idx opt) (dyn_idx opt) (aggr_idx opt) s' \<and> qs_opt s' = opt \<and> max_queue_num s' = maxn"
proof -
  have s': "r = Inr EM_OK" "qs_opt s' = opt" "max_queue_num s' = maxn" "queue_rep (static_idx opt) (dyn_idx opt) (aggr_idx opt) s'"
    using queue_init_rep [OF raw ok] i by auto
  have u: "used (static_idx opt) (dyn_idx opt) s' = {}" by (simp add: used_def s'(2))
  have "groups_ok {} s'" using g queue_init_groups [OF i] by (simp add: groups_ok_def members_def groups_empty_def)
  then show ?thesis using s' by (simp add: queue_wf_def u no_orphan_def)
qed

lemma queue_run_wf: "wf_table s \<Longrightarrow> queue_legal ops s \<Longrightarrow> wf_table (queue_run ops s)"
proof (induction ops arbitrary: s)
  case (Cons x ops)
  then show ?case using queue_op_wf [of s x] by simp
qed simp

lemma demo_groups: "groups_empty demo_raw"
  by (simp add: groups_empty_def demo_raw_def)

lemma demo_wf: "queue_wf (static_idx demo_opt) (dyn_idx demo_opt) (aggr_idx demo_opt) demo_qs"
  using init_wf [OF demo_pools_raw demo_opt_ok demo_groups] unfolding demo_qs_def by (metis prod.collapse)

text \<open>An environment in which nothing fails, and one whose ODP refuses every queue.\<close>

definition demo_env :: queue_env where
  "demo_env = \<lparr>env_thr = 1, env_backend = EM_VECTOR_BACKEND_EVENT, env_qgrp_allocated = (\<lambda>g. g = 1), env_qgrp_elem = (\<lambda>g. g \<noteq> 0),
     env_odp_sched_group = (\<lambda>g. g), env_agrp_allocated = (\<lambda>g. g = 5), env_vector_pool = (\<lambda>_. True), env_find_subpool = (\<lambda>_ _. 0),
     env_odp_pool = (\<lambda>p _. p), env_sched_aggr_capa = \<lparr>oc_max_num = 8, oc_max_num_per_queue = 4, oc_min_size = 1, oc_max_size = 64,
       oc_min_tmo_ns = 0, oc_max_tmo_ns = 1000\<rparr>,
     env_plain_aggr_capa = \<lparr>oc_max_num = 8, oc_max_num_per_queue = 4, oc_min_size = 1, oc_max_size = 64,
       oc_min_tmo_ns = 0, oc_max_tmo_ns = 1000\<rparr>,
     env_sched_lockfree = True, env_sched_waitfree = True, env_plain_lockfree = True, env_plain_waitfree = True,
     env_prio_map = [0, 0, 0, 1, 1, 1, 2, 2],
     env_queue_param_init = \<lparr>op_type = ODP_QUEUE_TYPE_PLAIN, op_nonblocking = ODP_BLOCKING, op_enq_mode = ODP_QUEUE_OP_MT,
       op_deq_mode = ODP_QUEUE_OP_MT, op_size = 0, op_order = ODP_QUEUE_ORDER_KEEP, op_prio = 0, op_sync = ODP_SCHED_SYNC_PARALLEL,
       op_group = 0, op_context = None, op_aggr = []\<rparr>,
     env_odp_queue_create = (\<lambda>_ _. 77), env_odp_queue_aggr = (\<lambda>_ k. 100 + k), env_odp_queue_destroy = (\<lambda>_. 0),
     env_em_alloc = (\<lambda>_. 3), env_em_event_pointer = (\<lambda>e. e)\<rparr>"

definition fail_env :: queue_env where
  "fail_env = demo_env\<lparr>env_odp_queue_create := \<lambda>_ _. 0, env_em_alloc := \<lambda>_. 0\<rparr>"

definition demo_local :: em_queue_param where
  "demo_local = em_queue_param_init\<lparr>qp_type := EM_QUEUE_TYPE_LOCAL, qp_prio := 4\<rparr>"

definition demo_atomic :: em_queue_param where
  "demo_atomic = em_queue_param_init\<lparr>qp_type := EM_QUEUE_TYPE_ATOMIC, qp_prio := 4, qp_queue_group := 1\<rparr>"

definition demo_output :: em_queue_param where
  "demo_output = em_queue_param_init\<lparr>qp_type := EM_QUEUE_TYPE_OUTPUT, qp_output_fn := 9\<rparr>"

lemmas demo_defs = demo_env_def fail_env_def demo_local_def demo_atomic_def demo_output_def em_queue_param_init_def

text \<open>With free dynamic queues and accepted arguments only the setup can fail.\<close>

lemma create_runs_setup:
  assumes r: "queue_rep FS FD FA s" and n: "FD \<noteq> {}" "qp_queue param = EM_QUEUE_UNDEF" "queue_create_check_args env param = None"
  shows "\<exists>q i s1 r s2. queue_setup env name param i s1 = (r, s2) \<and> mem_same s s \<and> queue_elem s1 = queue_elem s \<and> lists_same s s1 \<and> out_same s s1 \<and>
    queue_create_param env name param s = (case r of Some e \<Rightarrow> (Inl e, snd (queue_free q s2)) | None \<Rightarrow> (Inr q, s2)) \<and>
    queue_rep FS (FD - {i}) FA s1 \<and> i \<in> FD \<and> q = queue_idx2hdl (qs_device_id s) (int i)"
proof -
  obtain i s1 where i: "i \<in> FD" "queue_alloc (env_thr env) EM_QUEUE_UNDEF s = (Inr (queue_idx2hdl (qs_device_id s) (int i)), s1)"
    "queue_frame s s1" "queue_elem s1 = queue_elem s" "queue_rep FS (FD - {i}) FA s1"
    using queue_alloc_dyn [OF r, of "env_thr env"] n(1) by auto
  have "i < unat (max_queue_num s)" using idx_lt(2) [OF queue_repD(2) [OF r]] queue_repD(4) [OF r] i(1) by blast
  then have g: "get_elem s1 (queue_idx2hdl (qs_device_id s) (int i)) = Some i"
    using get_elem_hdl [of i s] frame_get_elem [OF i(3)] by simp
  obtain r s2 where st: "queue_setup env name param i s1 = (r, s2)" by (rule prod.exhaust)
  have "queue_create_param env name param s =
      (case r of Some e \<Rightarrow> (Inl e, snd (queue_free (queue_idx2hdl (qs_device_id s) (int i)) s2)) | None \<Rightarrow> (Inr (queue_idx2hdl (qs_device_id s) (int i)), s2))"
    using n i(2) g st by (simp add: queue_create_param_def split: option.splits)
  then show ?thesis using st i alloc_other [OF i(2)] by auto
qed

lemma demo_dyn: "dyn_idx demo_opt \<noteq> {}"
proof -
  have "98 \<in> dyn_idx demo_opt" by (simp add: dyn_idx_def demo_opt_def)
  then show ?thesis by blast
qed

lemma demo_create_local: "\<exists>q s'. queue_create_param demo_env None demo_local demo_qs = (Inr q, s')"
proof -
  have chk: "queue_create_check_args demo_env demo_local = None"
    by (simp add: queue_create_check_args_def queue_create_check_local_def demo_defs EM_QUEUE_PRIO_NUM_def)
  have "qp_queue demo_local = EM_QUEUE_UNDEF" "qp_type demo_local = EM_QUEUE_TYPE_LOCAL" by (simp_all add: demo_defs)
  then show ?thesis
    using create_runs_setup [OF demo_qs_rep(1) demo_dyn _ chk, of None]
    by (auto simp: queue_setup_def queue_setup_local_def Let_def)
qed

lemma demo_create_atomic: "\<exists>q s'. queue_create_param demo_env None demo_atomic demo_qs = (Inr q, s')"
proof -
  have chk: "queue_create_check_args demo_env demo_atomic = None"
    by (simp add: queue_create_check_args_def queue_create_check_sched_def queue_create_check_aggr_def demo_defs EM_QUEUE_PRIO_NUM_def)
  have "qp_queue demo_atomic = EM_QUEUE_UNDEF" by (simp add: demo_defs)
  from create_runs_setup [OF demo_qs_rep(1) demo_dyn this chk, of None] obtain q i s1 r s2 where
    *: "queue_setup demo_env None demo_atomic i s1 = (r, s2)"
      "queue_create_param demo_env None demo_atomic demo_qs =
        (case r of Some e \<Rightarrow> (Inl e, snd (queue_free q s2)) | None \<Rightarrow> (Inr q, s2))" by blast
  have "r = None"
    using *(1) by (auto simp: queue_setup_def queue_setup_scheduled_def Let_def setup_odp_queue_def aggr_confs_def
        queue_setup_odp_common_def create_odp_queue_def prio_em2odp_def EM_QUEUE_PRIO_NUM_def scheduled_queue_type_em2odp_def
        EM_QUEUE_FLAG_DEFAULT_def demo_defs split: if_splits prod.splits)
  then show ?thesis using *(2) by simp
qed

section \<open>Helper facts of the properties\<close>

lemma delete_same_group:
  assumes w: "queue_wf FS FD FA s" and c: "create_done env param FS FD FA s q i as s1" and t: "qp_type param \<in> queue_types"
    and g: "qp_type param \<in> sched_types \<Longrightarrow> env_qgrp_elem env (qp_queue_group param) \<and> env_qgrp_allocated env (qp_queue_group param)"
    and a: "qp_atomic_group param = 0" and d: "\<forall>q. env_odp_queue_destroy env q = 0"
  shows "\<exists>s2. em_queue_delete env q s1 = (Inr EM_OK, s2) \<and> queue_wf FS FD FA s2 \<and> lists_same s s2 \<and>
    output_queue_count s2 = output_queue_count s \<and> (\<forall>j. j \<notin> FS \<union> FD \<union> FA \<longrightarrow> queue_elem s2 j = queue_elem s j)"
proof -
  have c': "i \<in> FS \<union> FD" "q = queue_idx2hdl (qs_device_id s) (int i)" "distinct as" "set as \<subseteq> FA"
    "queue_rep (FS - {i}) (FD - {i}) (FA - set as) s1" "elems_only (insert i (set as)) s s1" "queue_ready env param i as s1"
    "listed param i s s1"
    using c by (auto simp: create_done_def split: if_splits)
  have fr: "queue_frame s s1" using c'(6) by (simp add: elems_only_def)
  have opt: "qs_opt s1 = qs_opt s" "qs_device_id s1 = qs_device_id s" "max_queue_num s1 = max_queue_num s"
    using fr by (simp_all add: queue_frame_def)
  have r: "queue_rep FS FD FA s" using w by (simp add: queue_wf_def)
  note D = queue_repD [OF r]
  have w1: "queue_wf (FS - {i}) (FD - {i}) (FA - set as) s1" by (rule create_done_wf [OF w c t])
  have u: "i \<in> used (FS - {i}) (FD - {i}) s1" using c'(1) D(3,4) by (auto simp: used_def opt)
  have lt: "i < unat (max_queue_num s1)" using used_lt [OF c'(5) u] by simp
  have asx: "set as \<subseteq> aggr_idx (qs_opt s1)" "(FA - set as) \<inter> set as = {}" using c'(4) D(5) opt by auto
  note rt = ready_types [OF c'(7) t asx(1) c'(3) asx(2)]
  have v: "valid_queue s1 q = Some i"
    using get_elem_hdl [OF lt] allocated_iff(1) [OF c'(5) u] by (simp add: valid_queue_def c'(2) opt)
  have init: "queue_elem s1 i = queue_elem s1 i \<and> deletable env (queue_elem s1 i)"
    using c'(7) g t unfolding deletable_def by (auto simp: queue_ready_def Let_def)
  obtain st s2 where q: "queue_delete env i s1 = (st, s2)" by (rule prod.exhaust)
  have dd: "env_odp_queue_destroy env (odp_queue (queue_elem s1 i)) = 0" using d by blast
  obtain bs where b: "st = EM_OK" "children (FA - set as) s1 i bs" "delete_done i bs (FS - {i}) (FD - {i}) (FA - set as) s1 s2"
    using queue_delete_result [OF w1 u dd q] init by auto
  have bs: "set bs = set as"
    using children_set [OF queue_repD(1,2) [OF c'(5)] b(2) rt(2)] by blast
  have eq: "gave i (static_idx (qs_opt s1)) (FS - {i}) = FS" "gave i (dyn_idx (qs_opt s1)) (FD - {i}) = FD" "FA - set as \<union> set bs = FA"
    using c'(1,4) D(3,4) idx_disjoint [of "qs_opt s"] unfolding gave_def opt bs by auto
  have w2: "queue_wf FS FD FA s2" using delete_done_wf [OF w1 u b(2,3)] unfolding eq .
  have na: "\<not> in_atomic_group (queue_elem s1 i)" using c'(7) a by (simp add: queue_ready_def Let_def)
  have ni: "i \<notin> set (qgrp_queues s h)" for h
  proof
    assume "i \<in> set (qgrp_queues s h)"
    then have "i \<in> used FS FD s" using w by (simp add: queue_wf_def groups_ok_def members_def)
    then show False using used_lt [OF r] c'(1) by blast
  qed
  have ls: "lists_same s s2 \<and> output_queue_count s2 = output_queue_count s"
    using b(3) c'(8) na ni rt(3,4) unfolding delete_done_def listed_def lists_same_def Let_def
    by (auto simp: remove1_append fun_upd_def split: if_splits)
  have "\<forall>j. j \<notin> FS \<union> FD \<union> FA \<longrightarrow> queue_elem s2 j = queue_elem s j"
    using b(3) c'(1,4,6) bs unfolding delete_done_def elems_only_def Let_def by (metis Un_iff insert_iff subsetD)
  then show ?thesis using v q b(1) w2 ls by (auto simp: em_queue_delete_def)
qed

lemma enable_loop:
  assumes "queue_wf FS FD FA s" "set qs \<subseteq> used FS FD s" "distinct qs" "st \<in> {EM_QUEUE_STATE_BIND, EM_QUEUE_STATE_READY}"
  defines "good \<equiv> takeWhile (\<lambda>i. q_state (queue_elem s i) \<in> {EM_QUEUE_STATE_BIND, EM_QUEUE_STATE_READY}) qs"
  shows "\<exists>s'. queue_state_loop qs st s = (if good = qs then EM_OK else EM_ERR_BAD_STATE, s') \<and> queue_wf FS FD FA s' \<and>
    used FS FD s' = used FS FD s \<and>
    (\<forall>i \<in> used FS FD s. q_state (queue_elem s' i) = (if i \<in> set good then st else q_state (queue_elem s i)))"
  using assms(1-4) unfolding good_def
proof (induction qs arbitrary: s)
  case (Cons i qs)
  let ?ok = "\<lambda>s i. q_state (queue_elem s i) \<in> {EM_QUEUE_STATE_BIND, EM_QUEUE_STATE_READY}"
  have i: "i \<in> used FS FD s" "i \<notin> set qs" using Cons.prems(2,3) by auto
  note r = queue_state_set_result [OF Cons.prems(1) i(1) Cons.prems(4)]
  have bad: "EM_ERR_BAD_STATE \<noteq> EM_OK" by (simp add: status_simps)
  show ?case
  proof (cases "?ok s i")
    case False
    then show ?thesis using r Cons.prems(1) bad by simp
  next
    case True
    then obtain as where as: "children FA s i as"
      "queue_state_set i st s = (EM_OK, if q_state (queue_elem s i) = st then s else set_states (insert i (set as)) st s)"
      using r by auto
    let ?s = "if q_state (queue_elem s i) = st then s else set_states (insert i (set as)) st s"
    have "?ok s i \<Longrightarrow> st \<in> states_of (q_type (queue_elem s i))"
      using Cons.prems(1,4) i(1) by (auto simp: queue_wf_def elem_ok_def Let_def states_of_def queue_state_defs split: if_splits)
    then have w: "queue_wf FS FD FA ?s" using set_states_wf [OF Cons.prems(1) i(1) as(1)] True Cons.prems(1) by simp
    have u: "used FS FD ?s = used FS FD s" by (simp add: used_def set_states_def)
    have rep: "queue_rep FS FD FA s" using Cons.prems(1) by (simp add: queue_wf_def)
    have st: "q_state (queue_elem ?s j) = (if j = i then st else q_state (queue_elem s j))" if "j \<in> used FS FD s" for j
      using that as(1) used_lt [OF rep that] by (auto simp: set_states_def children_def)
    have ste: "q_state (queue_elem ?s j) = q_state (queue_elem s j)" if "j \<in> set qs" for j
    proof -
      have "j \<in> used FS FD s" "j \<noteq> i" using that i(2) Cons.prems(2) by auto
      then show ?thesis using st by simp
    qed
    have tw: "takeWhile (?ok ?s) qs = takeWhile (?ok s) qs" by (rule takeWhile_cong [OF refl]) (simp only: ste)
    obtain s' where s': "queue_state_loop qs st ?s = (if takeWhile (?ok ?s) qs = qs then EM_OK else EM_ERR_BAD_STATE, s')"
      "queue_wf FS FD FA s'" "used FS FD s' = used FS FD ?s"
      "\<forall>j \<in> used FS FD ?s. q_state (queue_elem s' j) = (if j \<in> set (takeWhile (?ok ?s) qs) then st else q_state (queue_elem ?s j))"
      using Cons.IH [OF w] Cons.prems(2-4) u by auto
    have "\<forall>j \<in> used FS FD s. q_state (queue_elem s' j) =
        (if j \<in> set (takeWhile (?ok s) (i # qs)) then st else q_state (queue_elem s j))"
      using s'(4) st True unfolding u tw by auto
    then show ?thesis using s'(1-3) as(2) True unfolding u tw by auto
  qed
qed simp

lemma queue_count_zero:
  assumes r: "queue_rep FS FD FA s"
  shows "unat (queue_count s) = 0 \<longleftrightarrow> (\<forall>i < unat (max_queue_num s). \<not> queue_allocated s i)"
    "i < unat (max_queue_num s) \<Longrightarrow> queue_allocated s i \<longleftrightarrow> i \<notin> FS \<union> FD \<union> FA"
proof -
  note D = queue_repD [OF r] and dj = idx_disjoint [of "qs_opt s"]
  show al: "queue_allocated s i \<longleftrightarrow> i \<notin> FS \<union> FD \<union> FA" if lt: "i < unat (max_queue_num s)" for i
  proof -
    consider "i \<in> static_idx (qs_opt s)" | "i \<in> dyn_idx (qs_opt s)" | "i \<in> aggr_idx (qs_opt s)" using idx_lt(4) [OF D(2) lt] by blast
    then show ?thesis
    proof cases
      case 1
      then show ?thesis using pool_allocated [OF D(6), of i] D(4,5) dj by auto
    next
      case 2
      then show ?thesis using pool_allocated [OF D(7), of i] D(3,5) dj by auto
    next
      case 3
      then show ?thesis using pool_allocated [OF D(8), of i] D(3,4) dj by auto
    qed
  qed
  let ?n = "card (static_idx (qs_opt s) - FS) + card (dyn_idx (qs_opt s) - FD) + card (aggr_idx (qs_opt s) - FA)"
  have "?n \<le> card (static_idx (qs_opt s)) + card (dyn_idx (qs_opt s)) + card (aggr_idx (qs_opt s))"
    by (intro add_mono card_mono) auto
  also have "\<dots> = card (static_idx (qs_opt s) \<union> dyn_idx (qs_opt s) \<union> aggr_idx (qs_opt s))"
    using dj by (subst card_Un_disjoint, simp_all, blast) (subst card_Un_disjoint, simp_all)
  also have "\<dots> \<le> card {i. i < unat (max_queue_num s)}" by (rule card_mono) (use idx_lt [OF D(2)] in auto)
  also have "\<dots> < 2 ^ 16" using unat_lt_len [of "max_queue_num s"] by simp
  finally have "unat (of_nat ?n :: u32) = ?n" by (intro unat_of_nat_small) simp
  then have "unat (queue_count s) = ?n" using D(9) by (simp only:)
  moreover have "?n = 0 \<longleftrightarrow> static_idx (qs_opt s) \<subseteq> FS \<and> dyn_idx (qs_opt s) \<subseteq> FD \<and> aggr_idx (qs_opt s) \<subseteq> FA" by auto
  moreover have "\<dots> \<longleftrightarrow> (\<forall>i < unat (max_queue_num s). i \<in> FS \<union> FD \<union> FA)"
    using idx_lt [OF D(2)] D(3-5) dj by blast
  ultimately show "unat (queue_count s) = 0 \<longleftrightarrow> (\<forall>i < unat (max_queue_num s). \<not> queue_allocated s i)" using al by auto
qed

text \<open>Taking the first free output index leaves one fewer, when there is one.\<close>

lemma first_free_count:
  assumes "length xs = n"
  shows "case first_idx (\<lambda>k. xs ! k) 0 n of None \<Rightarrow> filter id xs = []
    | Some k \<Rightarrow> k < n \<and> length (filter id (xs[k := False])) = length (filter id xs) - 1"
proof (cases "first_idx (\<lambda>k. xs ! k) 0 n")
  case None
  then have "\<forall>k < length xs. \<not> xs ! k" using assms by (simp add: first_idx_None_iff)
  then have "filter id xs = []" by (auto simp: filter_empty_conv in_set_conv_nth)
  then show ?thesis using None by (simp only: option.case)
next
  case (Some k)
  then have k: "k < length xs" "xs ! k" using first_idx_SomeD [OF Some] assms by auto
  have "xs = take k xs @ xs ! k # drop (Suc k) xs" by (rule id_take_nth_drop [OF k(1)])
  then have "length (filter id xs) = length (filter id (take k xs)) + Suc (length (filter id (drop (Suc k) xs)))"
    using k(2) by (metis (no_types) id_apply filter.simps(2) filter_append length_append length_Cons)
  then show ?thesis using Some k(1) assms by (simp add: upd_conv_take_nth_drop)
qed

definition free_idx :: "queue_shm \<Rightarrow> nat" where "free_idx s = length (filter id (output_queue_idx_free s))"

lemma take_idx_count:
  assumes "length (output_queue_idx_free s) = 64"
  shows "free_idx (take_output_idx i s) = free_idx s - 1" "length (output_queue_idx_free (take_output_idx i s)) = 64"
  using first_free_count [OF assms] assms
  by (auto simp: take_output_idx_eq free_idx_def split: option.splits)

lemma free_idx_upd [simp]:
  "free_idx (upd_elem i f s) = free_idx s" "free_idx (s\<lparr>output_queue_count := c\<rparr>) = free_idx s"
  by (simp_all add: free_idx_def)

lemma setup_output_fails:
  assumes "\<forall>nm op. env_odp_queue_create env nm op = 0" "length (output_queue_idx_free s) = 64"
    "output_queue_count s < 64" "qp_output_fn param \<noteq> 0"
  shows "\<exists>e s'. queue_setup_output env param i s = (Some e, s') \<and> free_idx s' = free_idx s - 1 \<and>
    length (output_queue_idx_free s') = 64"
proof -
  have c: "\<not> output_queue_count s + 1 > EM_MAX_OUTPUT_QUEUES"
    using assms(3) by (simp add: EM_MAX_OUTPUT_QUEUES_def) unat_arith
  have t: "free_idx (take_output_idx i (upd_elem j f (s\<lparr>output_queue_count := n\<rparr>))) = free_idx s - 1"
    "length (output_queue_idx_free (take_output_idx i (upd_elem j f (s\<lparr>output_queue_count := n\<rparr>)))) = 64" for j f n
    using take_idx_count [of "upd_elem j f (s\<lparr>output_queue_count := n\<rparr>)" i] assms(2) by simp_all
  show ?thesis
    unfolding queue_setup_output_def Let_def create_odp_queue_def error_dec_cnt_def using assms(1,4) c t
    by (auto simp del: not_less simp: split: if_splits)
qed

lemma free_idx_out: "out_same s s' \<Longrightarrow> free_idx s' = free_idx s"
  by (simp add: out_same_def free_idx_def)

lemma create_output_fails:
  assumes r: "queue_rep FS FD FA s" and n: "FD \<noteq> {}" "qp_queue param = EM_QUEUE_UNDEF" "queue_create_check_args env param = None"
    and t: "qp_type param = EM_QUEUE_TYPE_OUTPUT" and e: "\<forall>nm op. env_odp_queue_create env nm op = 0"
    and l: "length (output_queue_idx_free s) = 64" "output_queue_count s < 64"
  shows "\<exists>e s'. queue_create_param env name param s = (Inl e, s') \<and> free_idx s' = free_idx s - 1 \<and>
    length (output_queue_idx_free s') = 64 \<and> queue_rep FS FD FA s' \<and> output_queue_count s' = output_queue_count s"
proof -
  obtain q i s1 x s2 where c: "queue_setup env name param i s1 = (x, s2)" "out_same s s1" "queue_rep FS (FD - {i}) FA s1" "i \<in> FD"
    "q = queue_idx2hdl (qs_device_id s) (int i)" "queue_elem s1 = queue_elem s"
    "queue_create_param env name param s = (case x of Some e \<Rightarrow> (Inl e, snd (queue_free q s2)) | None \<Rightarrow> (Inr q, s2))"
    using create_runs_setup [OF r n, of name] by blast
  let ?s = "queue_setup_common name param i s1"
  have sc: "out_same s1 ?s" using setup_common_same [of s1 name param i] by (simp add: only_elems_def)
  have os: "out_same s ?s" by (rule same_trans(3) [OF c(2) sc])
  have fn: "qp_output_fn param \<noteq> 0"
    using n(3) t by (auto simp: queue_create_check_args_def queue_create_check_output_def split: if_splits)
  have l2: "length (output_queue_idx_free ?s) = 64" "output_queue_count ?s < 64" using os l by (simp_all add: out_same_def)
  have qs: "queue_setup_output env param i ?s = (x, s2)" using c(1) t by (simp add: queue_setup_def Let_def)
  obtain er where er: "x = Some er" "free_idx s2 = free_idx ?s - 1" "length (output_queue_idx_free s2) = 64"
    using setup_output_fails [OF e l2 fn, of i] unfolding qs by blast
  have er2: "free_idx s2 = free_idx s - 1" using er(2) free_idx_out [OF os] by simp
  obtain s' where s': "queue_create_param env name param s = (Inl er, s')" "s' = snd (queue_free q s2)" using c(7) er(1) by simp
  have o2: "out_same s2 s'" unfolding s'(2) by (auto simp: queue_free_def Let_def out_same_def split: option.splits)
  have "free_idx s' = free_idx s - 1" "length (output_queue_idx_free s') = 64"
    using er2 er(3) free_idx_out [OF o2] o2 by (simp_all add: out_same_def)
  moreover have "create_failed FS FD FA s s'" using queue_create_result [OF r s'(1)] by simp
  ultimately show ?thesis using s'(1) by (auto simp: create_failed_def)
qed

lemma output_leak_iterated:
  assumes "queue_rep FS FD FA s" "FD \<noteq> {}" "qp_queue param = EM_QUEUE_UNDEF" "queue_create_check_args env param = None"
    "qp_type param = EM_QUEUE_TYPE_OUTPUT" "\<forall>nm op. env_odp_queue_create env nm op = 0"
    "length (output_queue_idx_free s) = 64" "output_queue_count s < 64"
  shows "queue_rep FS FD FA (((\<lambda>s. snd (queue_create_param env name param s)) ^^ n) s) \<and>
    output_queue_count (((\<lambda>s. snd (queue_create_param env name param s)) ^^ n) s) = output_queue_count s \<and>
    length (output_queue_idx_free (((\<lambda>s. snd (queue_create_param env name param s)) ^^ n) s)) = 64 \<and>
    free_idx (((\<lambda>s. snd (queue_create_param env name param s)) ^^ n) s) = free_idx s - n"
proof (induction n)
  case (Suc n)
  let ?s = "((\<lambda>s. snd (queue_create_param env name param s)) ^^ n) s"
  have "queue_rep FS FD FA ?s" "length (output_queue_idx_free ?s) = 64" "output_queue_count ?s < 64" using Suc assms(8) by simp_all
  from create_output_fails [OF this(1) assms(2-6) this(2,3), of name] Suc show ?case by auto
qed (use assms in simp)

section \<open>Properties\<close>



text \<open>
  C10: a failed creation leaves no trace. Whatever step of \<^verbatim>\<open>queue_create_param\<close> fails - the arguments, the
  allocation, ODP, the aggregators, the event for the arguments of an output function - the free queues
  of all three pools, the lists of the groups, the number of output queues and every element in use
  are as before.
\<close>

theorem create_failure_no_trace:
  assumes "queue_rep FS FD FA s" "queue_create_param env name param s = (Inl e, s')"
  shows "queue_rep FS FD FA s' \<and> (\<forall>i. i \<notin> FS \<union> FD \<union> FA \<longrightarrow> queue_elem s' i = queue_elem s i) \<and>
    qgrp_queues s' = qgrp_queues s \<and> qgrp_num_queues s' = qgrp_num_queues s \<and> agrp_queues s' = agrp_queues s \<and>
    agrp_num_queues s' = agrp_num_queues s \<and> output_queue_count s' = output_queue_count s"
  using queue_create_result [OF assms] by (auto simp: create_failed_def elems_only_def lists_same_def)

theorem create_failure_no_trace_witness:
  "\<exists>e s'. queue_create_param fail_env None demo_output demo_qs = (Inl e, s') \<and>
     queue_rep (static_idx demo_opt) (dyn_idx demo_opt) (aggr_idx demo_opt) s'"
proof -
  obtain x s' where c: "queue_create_param fail_env None demo_output demo_qs = (x, s')" by (rule prod.exhaust)
  have chk: "queue_create_check_args fail_env demo_output = None"
    by (simp add: queue_create_check_args_def queue_create_check_output_def demo_defs)
  obtain s0 where "queue_init 0 0 (Some (demo_opt, 101)) True 0 demo_raw = (Inr EM_OK, s0)" "output_queue_count s0 = 0"
    "output_queue_idx_free s0 = replicate 64 True" using queue_init_rep [OF demo_pools_raw demo_opt_ok] by auto
  then have l: "length (output_queue_idx_free demo_qs) = 64" "output_queue_count demo_qs < 64" by (simp_all add: demo_qs_def)
  have "qp_queue demo_output = EM_QUEUE_UNDEF" "qp_type demo_output = EM_QUEUE_TYPE_OUTPUT"
    "\<forall>nm op. env_odp_queue_create fail_env nm op = 0" by (simp_all add: demo_defs)
  from create_output_fails [OF demo_qs_rep(1) demo_dyn this(1) chk this(2,3) l, of None] obtain e where "x = Inl e" using c by auto
  then show ?thesis using create_failure_no_trace [OF demo_qs_rep(1), of fail_env None demo_output e s'] c by auto
qed







text \<open>
  C23: enabling all queues of an EO. \<^verbatim>\<open>queue_enable_all\<close> makes READY the queues of the list up to the first that
  is neither in state BIND nor READY, and reports EM_ERR_BAD_STATE when there is such a queue; the
  queues from that one on, and all others, keep their state: a failure is not undone.
\<close>

theorem enable_all_prefix:
  assumes "queue_wf FS FD FA s" "set qs \<subseteq> used FS FD s" "distinct qs"
  defines "good \<equiv> takeWhile (\<lambda>i. q_state (queue_elem s i) \<in> {EM_QUEUE_STATE_BIND, EM_QUEUE_STATE_READY}) qs"
  shows "\<exists>s'. queue_enable_all (Some qs) s =
      (if good = qs then Inr EM_OK else Inl (EM_ERR_BAD_STATE, ''EM_ESCOPE_QUEUE_ENABLE_ALL''), s') \<and> queue_wf FS FD FA s' \<and>
    (\<forall>i \<in> used FS FD s. q_state (queue_elem s' i) = (if i \<in> set good then EM_QUEUE_STATE_READY else q_state (queue_elem s i)))"
proof -
  have "EM_QUEUE_STATE_READY \<in> {EM_QUEUE_STATE_BIND, EM_QUEUE_STATE_READY}" by simp
  from enable_loop [OF assms(1-3) this, folded good_def] obtain s' where s':
    "queue_state_loop qs EM_QUEUE_STATE_READY s = (if good = qs then EM_OK else EM_ERR_BAD_STATE, s')" "queue_wf FS FD FA s'"
    "\<forall>i \<in> used FS FD s. q_state (queue_elem s' i) = (if i \<in> set good then EM_QUEUE_STATE_READY else q_state (queue_elem s i))"
    by blast
  have "EM_ERR_BAD_STATE \<noteq> EM_OK" by (simp add: status_simps)
  then have "queue_enable_all (Some qs) s =
      (if good = qs then Inr EM_OK else Inl (EM_ERR_BAD_STATE, ''EM_ESCOPE_QUEUE_ENABLE_ALL''), s')"
    using s'(1) by (simp add: queue_enable_all_def queue_state_change_all_def rescope_def Let_def)
  then show ?thesis using s'(2,3) by blast
qed

theorem enable_all_prefix_witness:
  "\<exists>q s1 i s2. queue_create_param demo_env None demo_local demo_qs = (Inr q, s1) \<and>
     queue_enable_all (Some [i]) s1 = (Inl (EM_ERR_BAD_STATE, ''EM_ESCOPE_QUEUE_ENABLE_ALL''), s2) \<and>
     q_state (queue_elem s2 i) = EM_QUEUE_STATE_INIT"
proof -
  obtain q s1 where c: "queue_create_param demo_env None demo_local demo_qs = (Inr q, s1)" using demo_create_local by blast
  obtain i as where d: "create_done demo_env demo_local (static_idx demo_opt) (dyn_idx demo_opt) (aggr_idx demo_opt) demo_qs q i as s1"
    using queue_create_result [OF demo_qs_rep(1) c] by auto
  note w = create_done_wf [OF demo_wf d create_types(1) [OF c]]
  have i: "i \<in> dyn_idx demo_opt" "queue_ready demo_env demo_local i as s1" "elems_only (insert i (set as)) demo_qs s1"
    using d by (auto simp: create_done_def demo_local_def em_queue_param_init_def)
  have opt: "qs_opt s1 = demo_opt" using i(3) demo_qs_rep(2) by (simp add: elems_only_def queue_frame_def)
  have u: "set [i] \<subseteq> used (static_idx demo_opt - {i}) (dyn_idx demo_opt - {i}) s1" using i(1) by (simp add: used_def opt)
  have st: "q_state (queue_elem s1 i) = EM_QUEUE_STATE_INIT" using i(2) by (simp add: queue_ready_def Let_def demo_local_def)
  then have n: "q_state (queue_elem s1 i) \<notin> {EM_QUEUE_STATE_BIND, EM_QUEUE_STATE_READY}" by (simp add: queue_state_defs)
  have "distinct [i]" by simp
  from enable_all_prefix [OF w u this] n u obtain s2 where
    "queue_enable_all (Some [i]) s1 = (Inl (EM_ERR_BAD_STATE, ''EM_ESCOPE_QUEUE_ENABLE_ALL''), s2)"
    "q_state (queue_elem s2 i) = q_state (queue_elem s1 i)" by auto
  then show ?thesis using st c by metis
qed

text \<open>
  C27: walking over the queues. The loop over \<^verbatim>\<open>em_queue_first\<close> and \<^verbatim>\<open>em_queue_next\<close> visits every allocated
  queue exactly once, in the order of the table, internal and aggregator queues included, and ends.
\<close>

theorem queue_iterate_exact:
  assumes "queue_rep FS FD FA s"
  shows "iterate (\<lambda>j. opt_hdl (em_queue_next s j)) (unat (max_queue_num s)) (opt_hdl (em_queue_first s)) =
    map (\<lambda>i. queue_idx2hdl (qs_device_id s) (int i)) (filter (\<lambda>i. i \<notin> FS \<union> FD \<union> FA) [0..<unat (max_queue_num s)])"
proof -
  have f: "filter (queue_allocated s) [0..<unat (max_queue_num s)] =
      filter (\<lambda>i. i \<notin> FS \<union> FD \<union> FA) [0..<unat (max_queue_num s)]"
    by (rule filter_cong [OF refl]) (use queue_count_zero(2) [OF assms] in auto)
  show ?thesis unfolding f [symmetric] by (rule table_iter.iterate_all [OF queue_iter.table_iter_axioms queue_count_zero(1) [OF assms]])
qed

theorem queue_iterate_exact_witness:
  "iterate (\<lambda>j. opt_hdl (em_queue_next demo_qs j)) 101 (opt_hdl (em_queue_first demo_qs)) = []"
proof -
  have "filter (\<lambda>i. i \<notin> static_idx demo_opt \<union> dyn_idx demo_opt \<union> aggr_idx demo_opt) [0..<101] = []"
    by (auto simp: filter_empty_conv static_idx_def dyn_idx_def aggr_idx_def demo_opt_def)
  then show ?thesis using queue_iterate_exact [OF demo_qs_rep(1)] by (simp add: demo_qs_rep(4))
qed

text \<open>
  C36: the error paths of \<^verbatim>\<open>queue_setup_output\<close> leak output indexes. While ODP refuses to create queues, each
  attempt to create an output queue takes one of the 64 indexes and none gives it back, although the
  number of output queues and the free queues are restored: 64 attempts use up all of them.
\<close>

theorem output_index_leak:
  fixes name :: "string option"
  assumes "queue_rep FS FD FA s" "FD \<noteq> {}" "qp_queue param = EM_QUEUE_UNDEF" "queue_create_check_args env param = None"
    and "qp_type param = EM_QUEUE_TYPE_OUTPUT" "\<forall>nm op. env_odp_queue_create env nm op = 0"
    and "length (output_queue_idx_free s) = 64" "output_queue_count s < 64"
  defines "after \<equiv> \<lambda>n. ((\<lambda>s. snd (queue_create_param env name param s)) ^^ n) s"
  shows "length (filter id (output_queue_idx_free (after n))) = length (filter id (output_queue_idx_free s)) - n \<and>
    True \<notin> set (output_queue_idx_free (after 64)) \<and>
    output_queue_count (after n) = output_queue_count s \<and> queue_rep FS FD FA (after n)"
proof -
  have L: "queue_rep FS FD FA (after n) \<and> output_queue_count (after n) = output_queue_count s \<and>
    length (filter id (output_queue_idx_free (after n))) = length (filter id (output_queue_idx_free s)) - n" for n
    unfolding after_def using output_leak_iterated [OF assms(1-8), where name = name and n = n] unfolding free_idx_def by blast
  have "length (filter id (output_queue_idx_free s)) \<le> 64" using length_filter_le [of id "output_queue_idx_free s"] assms(7) by simp
  then have "filter id (output_queue_idx_free (after 64)) = []" using L [where n = 64] by simp
  then have "True \<notin> set (output_queue_idx_free (after 64))" by (auto simp: filter_empty_conv)
  then show ?thesis using L [where n = n] by blast
qed

theorem output_index_leak_witness:
  "True \<notin> set (output_queue_idx_free (((\<lambda>s. snd (queue_create_param fail_env None demo_output s)) ^^ 64) demo_qs)) \<and>
   output_queue_count (((\<lambda>s. snd (queue_create_param fail_env None demo_output s)) ^^ 64) demo_qs) = 0"
proof -
  have chk: "queue_create_check_args fail_env demo_output = None"
    by (simp add: queue_create_check_args_def queue_create_check_output_def demo_defs)
  obtain s0 where "queue_init 0 0 (Some (demo_opt, 101)) True 0 demo_raw = (Inr EM_OK, s0)" "output_queue_count s0 = 0"
    "output_queue_idx_free s0 = replicate 64 True" using queue_init_rep [OF demo_pools_raw demo_opt_ok] by auto
  then have l: "length (output_queue_idx_free demo_qs) = 64" "output_queue_count demo_qs < 64" "output_queue_count demo_qs = 0"
    by (simp_all add: demo_qs_def)
  have "qp_queue demo_output = EM_QUEUE_UNDEF" "qp_type demo_output = EM_QUEUE_TYPE_OUTPUT"
    "\<forall>nm op. env_odp_queue_create fail_env nm op = 0" by (simp_all add: demo_defs)
  from output_index_leak [OF demo_qs_rep(1) demo_dyn this(1) chk this(2,3) l(1,2), where name = None and n = 64] l(3) show ?thesis by simp
qed

text \<open>
  C37: a queue created with \<^verbatim>\<open>em_queue_create_param\<close> in an atomic group is not registered there. The queue
  reports the group as its own, yet neither the group's list nor its counters know the queue: a group
  with no other queue looks empty.
\<close>

theorem param_agroup_unlisted:
  assumes "queue_rep FS FD FA s" "em_queue_create_param env name (Some param) s = (Inr q, s')" "qp_atomic_group param \<noteq> 0"
  shows "em_queue_agroup q s' = Inr (qp_atomic_group param) \<and> agrp_queues s' = agrp_queues s \<and>
    agrp_num_queues s' = agrp_num_queues s \<and> agrp_hi_prio s' = agrp_hi_prio s"
proof -
  have c: "queue_create_param env name param s = (Inr q, s')"
    using assms(2) by (auto simp: em_queue_create_param_def split: if_splits prod.splits sum.splits)
  then obtain i as where d: "create_done env param FS FD FA s q i as s'" using queue_create_result [OF assms(1) c] by auto
  have r: "queue_rep (FS - {i}) (FD - {i}) (FA - set as) s'" and q: "q = queue_idx2hdl (qs_device_id s) (int i)"
    and fr: "queue_frame s s'" and qr: "queue_ready env param i as s'" and l: "listed param i s s'" and iF: "i \<in> FS \<union> FD"
    using d by (auto simp: create_done_def elems_only_def split: if_splits)
  have "i \<in> used (FS - {i}) (FD - {i}) s'"
    using iF queue_repD(3,4) [OF assms(1)] fr by (auto simp: used_def queue_frame_def)
  then have "i < unat (max_queue_num s')" "queue_allocated s' i" using used_lt [OF r] allocated_iff(1) [OF r] by blast+
  then have "valid_queue s' q = Some i" using get_elem_hdl [of i s'] fr q by (simp add: valid_queue_def queue_frame_def)
  then show ?thesis using qr l assms(3) by (simp add: em_queue_agroup_def queue_ready_def listed_def Let_def)
qed

theorem param_agroup_unlisted_witness:
  "\<exists>q s'. em_queue_create_param demo_env None (Some (demo_atomic\<lparr>qp_atomic_group := 5\<rparr>)) demo_qs = (Inr q, s') \<and>
     em_queue_agroup q s' = Inr 5 \<and> agrp_queues s' 5 = []"
proof -
  let ?p = "demo_atomic\<lparr>qp_atomic_group := 5\<rparr>"
  have chk: "queue_create_check_args demo_env ?p = None"
    by (simp add: queue_create_check_args_def queue_create_check_sched_def queue_create_check_aggr_def demo_defs EM_QUEUE_PRIO_NUM_def)
  have "qp_queue ?p = EM_QUEUE_UNDEF" by (simp add: demo_defs)
  from create_runs_setup [OF demo_qs_rep(1) demo_dyn this chk, of None] obtain q i s1 r s2 where
    *: "queue_setup demo_env None ?p i s1 = (r, s2)"
      "queue_create_param demo_env None ?p demo_qs = (case r of Some e \<Rightarrow> (Inl e, snd (queue_free q s2)) | None \<Rightarrow> (Inr q, s2))" by blast
  have "r = None"
    using *(1) by (auto simp: queue_setup_def queue_setup_scheduled_def Let_def setup_odp_queue_def aggr_confs_def
        queue_setup_odp_common_def create_odp_queue_def prio_em2odp_def EM_QUEUE_PRIO_NUM_def scheduled_queue_type_em2odp_def
        EM_QUEUE_FLAG_DEFAULT_def demo_defs split: if_splits prod.splits)
  then have c: "em_queue_create_param demo_env None (Some ?p) demo_qs = (Inr q, s2)"
    using *(2) by (simp add: em_queue_create_param_def demo_defs)
  have a: "agrp_queues demo_qs 5 = []"
    by (simp add: demo_qs_def queue_init_def queue_init_pools_def Let_def demo_raw_def split: prod.splits option.splits)
  show ?thesis using param_agroup_unlisted [OF demo_qs_rep(1) c] c a by (auto simp: demo_defs)
qed

end
