(* ===== verification/Spec2Isabelle.thy ===== *)
theory Spec2Isabelle
  imports EvState EventGroupConc CoreMap AgLock QueueClaims
begin

text \<open>
  Verification of the core of the Event Machine on ODP.
\<close>

end
